(* ===== verification/Prelude.thy ===== *)
theory Prelude
  imports Main "HOL-Library.Word" "HOL-Library.AList" "HOL-Library.Multiset"
begin

text \<open>
  The vocabulary every component shares: Go maps as key-value lists, Go durations and
  instants, the error values of the repository, and the proof collections.

  A Go map is a list of pairs with distinct keys. The position of a key in the list
  stands for its place in the (random) order in which the next \<^verbatim>\<open>range\<close> visits it, so a
  statement about every list is a statement about every iteration order.

  An instant is an integer number of nanoseconds, a duration likewise. \<open>time_sub\<close> saturates
  at 64 bits as \<^verbatim>\<open>time.Time.Sub\<close> does, and \<open>dur_mul\<close> wraps at 64 bits as Go's
  multiplication of an \<^verbatim>\<open>int64\<close> does.
\<close>

named_theorems gomap \<open>lookups and key sets of Go maps after an update\<close>
named_theorems goinv \<open>operations keep a component's invariant\<close>

section \<open>Go maps\<close>

type_synonym ('k, 'v) gomap = "('k \<times> 'v) list"

definition gm_get :: "('k, 'v) gomap \<Rightarrow> 'k \<Rightarrow> 'v option" where
  "gm_get m k = map_of m k"

definition gm_put :: "'k \<Rightarrow> 'v \<Rightarrow> ('k, 'v) gomap \<Rightarrow> ('k, 'v) gomap" where
  "gm_put k v m = AList.update k v m"

definition gm_del :: "'k \<Rightarrow> ('k, 'v) gomap \<Rightarrow> ('k, 'v) gomap" where
  "gm_del k m = filter (\<lambda>p. fst p \<noteq> k) m"

definition gm_keys :: "('k, 'v) gomap \<Rightarrow> 'k list" where
  "gm_keys m = map fst m"

definition gm_wf :: "('k, 'v) gomap \<Rightarrow> bool" where
  "gm_wf m \<longleftrightarrow> distinct (map fst m)"

text \<open>\<^verbatim>\<open>for k, v := range m { if p { delete(m, k) } }\<close>.\<close>

definition gm_drop :: "('k \<Rightarrow> 'v \<Rightarrow> bool) \<Rightarrow> ('k, 'v) gomap \<Rightarrow> ('k, 'v) gomap" where
  "gm_drop p m = filter (\<lambda>(k, v). \<not> p k v) m"

text \<open>Reading a Go map of strings yields the empty string for an absent key.\<close>

definition gm_str :: "(string, string) gomap \<Rightarrow> string \<Rightarrow> string" where
  "gm_str m k = (case gm_get m k of None \<Rightarrow> [] | Some v \<Rightarrow> v)"

lemma gm_get_Nil [simp, gomap]: "gm_get [] k = None"
  by (simp add: gm_get_def)

lemma gm_get_put [simp, gomap]: "gm_get (gm_put k v m) k' = (if k' = k then Some v else gm_get m k')"
  by (simp add: gm_get_def gm_put_def update_conv')

lemma gm_get_del [simp, gomap]: "gm_get (gm_del k m) k' = (if k' = k then None else gm_get m k')"
  unfolding gm_get_def gm_del_def by (induction m) auto

lemma gm_get_filter:
  "gm_wf m \<Longrightarrow> gm_get (filter p m) k
     = (case gm_get m k of None \<Rightarrow> None | Some v \<Rightarrow> if p (k, v) then Some v else None)"
  unfolding gm_get_def gm_wf_def
  by (induction m) (auto simp: map_of_eq_None_iff split: option.splits)

lemma gm_get_drop [gomap]:
  "gm_wf m \<Longrightarrow> gm_get (gm_drop p m) k
     = (case gm_get m k of None \<Rightarrow> None | Some v \<Rightarrow> if p k v then None else Some v)"
  by (auto simp: gm_drop_def gm_get_filter split: option.splits)

lemma gm_wf_Nil [simp]: "gm_wf []"
  by (simp add: gm_wf_def)

lemma gm_wf_put [simp, goinv]: "gm_wf m \<Longrightarrow> gm_wf (gm_put k v m)"
  by (simp add: gm_wf_def gm_put_def distinct_update)

lemma gm_wf_filter [simp, goinv]: "gm_wf m \<Longrightarrow> gm_wf (filter p m)"
  unfolding gm_wf_def by (induction m) auto

lemma gm_wf_del [simp, goinv]: "gm_wf m \<Longrightarrow> gm_wf (gm_del k m)"
  by (simp add: gm_del_def)

lemma gm_wf_drop [simp, goinv]: "gm_wf m \<Longrightarrow> gm_wf (gm_drop p m)"
  by (simp add: gm_drop_def)

lemma gm_keys_iff: "k \<in> set (gm_keys m) \<longleftrightarrow> gm_get m k \<noteq> None"
  unfolding gm_keys_def gm_get_def by (simp add: map_of_eq_None_iff)

lemma gm_get_Some_mem: "gm_get m k = Some v \<Longrightarrow> (k, v) \<in> set m"
  unfolding gm_get_def by (rule map_of_SomeD)

lemma gm_mem_get: "gm_wf m \<Longrightarrow> (k, v) \<in> set m \<Longrightarrow> gm_get m k = Some v"
  unfolding gm_get_def gm_wf_def by simp

lemma gm_mem_iff: "gm_wf m \<Longrightarrow> (k, v) \<in> set m \<longleftrightarrow> gm_get m k = Some v"
  by (auto intro: gm_mem_get gm_get_Some_mem)

lemma gm_wf_perm: "gm_wf m \<Longrightarrow> mset m' = mset m \<Longrightarrow> gm_wf m'"
  unfolding gm_wf_def by (metis mset_eq_imp_distinct_iff mset_map)

lemma gm_get_perm:
  assumes "gm_wf m" and "mset m' = mset m"
  shows "gm_get m' k = gm_get m k"
proof -
  have "set m' = set m" using assms(2) by (metis set_mset_mset)
  moreover have "gm_wf m'" using assms by (rule gm_wf_perm)
  ultimately show ?thesis
    using assms(1) by (metis gm_get_Some_mem gm_mem_get not_Some_eq)
qed

text \<open>A loop that puts one entry per element of a list, the last one winning.\<close>

definition gm_put_all :: "('a \<Rightarrow> 'k) \<Rightarrow> ('a \<Rightarrow> 'v) \<Rightarrow> 'a list \<Rightarrow> ('k, 'v) gomap \<Rightarrow> ('k, 'v) gomap" where
  "gm_put_all key val xs m = fold (\<lambda>x. gm_put (key x) (val x)) xs m"

lemma gm_put_all_Nil [simp]: "gm_put_all key val [] m = m"
  by (simp add: gm_put_all_def)

lemma gm_put_all_Cons [simp]:
  "gm_put_all key val (x # xs) m = gm_put_all key val xs (gm_put (key x) (val x) m)"
  by (simp add: gm_put_all_def)

lemma gm_put_all_append:
  "gm_put_all key val (xs @ ys) m = gm_put_all key val ys (gm_put_all key val xs m)"
  by (simp add: gm_put_all_def)

lemma gm_wf_put_all [simp, goinv]: "gm_wf m \<Longrightarrow> gm_wf (gm_put_all key val xs m)"
  by (induction xs arbitrary: m) auto

lemma gm_get_put_all [gomap]:
  "gm_get (gm_put_all key val xs m) k
     = (case find (\<lambda>x. key x = k) (rev xs) of None \<Rightarrow> gm_get m k | Some x \<Rightarrow> Some (val x))"
proof (induction xs rule: rev_induct)
  case Nil
  then show ?case by simp
next
  case (snoc x xs)
  then show ?case by (auto simp: gm_put_all_append)
qed

lemma gm_get_put_all_other:
  "k \<notin> key ` set xs \<Longrightarrow> gm_get (gm_put_all key val xs m) k = gm_get m k"
  by (induction xs arbitrary: m) auto

lemma gm_get_put_all_Some:
  assumes "gm_get (gm_put_all key val xs m) k = Some v"
  shows "(\<exists>x \<in> set xs. key x = k \<and> val x = v) \<or> (k \<notin> key ` set xs \<and> gm_get m k = Some v)"
  using assms
proof (induction xs arbitrary: m)
  case Nil
  then show ?case by simp
next
  case (Cons x xs)
  then show ?case by (fastforce split: if_splits)
qed

section \<open>Instants and durations\<close>

definition int64_wrap :: "int \<Rightarrow> int" where
  "int64_wrap x = (x + 2 ^ 63) mod 2 ^ 64 - 2 ^ 63"

definition time_sub :: "int \<Rightarrow> int \<Rightarrow> int" where
  "time_sub t u = max (- (2 ^ 63)) (min (2 ^ 63 - 1) (t - u))"

definition dur_mul :: "int \<Rightarrow> int \<Rightarrow> int" where
  "dur_mul k d = int64_wrap (k * d)"

abbreviation time_Second :: int where
  "time_Second \<equiv> 1000000000"

text \<open>The zero \<^verbatim>\<open>time.Time\<close> (1 January of year 1), relative to the Unix epoch.\<close>

definition time_zero :: int where
  "time_zero = - 62135596800 * time_Second"

lemma int64_wrap_id: "- (2 ^ 63) \<le> x \<Longrightarrow> x < 2 ^ 63 \<Longrightarrow> int64_wrap x = x"
  by (simp add: int64_wrap_def)

lemma time_sub_le: "d < 2 ^ 63 - 1 \<Longrightarrow> - (2 ^ 63) \<le> d \<Longrightarrow> time_sub t u \<le> d \<longleftrightarrow> t - u \<le> d"
  by (auto simp: time_sub_def min_def max_def)

lemma time_sub_mono: "t \<le> t' \<Longrightarrow> time_sub t u \<le> time_sub t' u"
  by (auto simp: time_sub_def)

lemma time_sub_self [simp]: "time_sub t t = 0"
  by (simp add: time_sub_def)

section \<open>Error values\<close>

text \<open>
  One constructor per error the code can return; the arguments are those the code formats
  into the message. \<open>errors_is\<close>-style tests are equations on constructors.
\<close>

datatype go_error =
    ErrSyntax
  | ErrNoAttachment
  | ErrAmbiguous "string list"
  | ErrEmptyReference
  | ErrBareReference string
  | ErrMalformedReference string
  | ErrNotHeadless string
  | ErrSelectorSet
  | ErrSelectorRequired
  | ErrSelectorSyntax string
  | ErrNotCanonical string
  | ErrUnknownScope string
  | ErrStaleInstance
  | ErrOutOfOrder
  | ErrUnauthenticated string
  | ErrTokenReview string
  | ErrAccessReview string
  | ErrNotAnAgent string
  | ErrNotAuthorized string
  | ErrInvalidArgument string
  | ErrSessionRevoked
  | ErrApi string
  | ErrApiNotFound
  | ErrApiAlreadyExists
  | ErrNoStream string
  | ErrIO string

definition is_ErrAmbiguous :: "go_error \<Rightarrow> bool" where
  "is_ErrAmbiguous e = (case e of ErrAmbiguous _ \<Rightarrow> True | _ \<Rightarrow> False)"

text \<open>The texts of the two sentinels that travel in an acknowledgement.\<close>

definition err_text :: "go_error \<Rightarrow> string" where
  "err_text e = (case e of
      ErrStaleInstance \<Rightarrow> ''report from a superseded agent instance''
    | ErrOutOfOrder \<Rightarrow> ''report sequence did not advance''
    | _ \<Rightarrow> [])"

section \<open>Measurement events\<close>

text \<open>\<open>VFmt\<close> is a formatted message: its reason and the arguments of the format.\<close>

datatype ev_value = VStr string | VBool bool | VInt int | VSeq "64 word" | VErr go_error | VStrs "string list"
  | VFmt string "ev_value list"

datatype event = Event string "(string \<times> ev_value) list"

type_synonym nsname = "string \<times> string"

section \<open>Lists\<close>

text \<open>\<^verbatim>\<open>appendUnique\<close>-style insertion at the end of a list without duplicates.\<close>

lemma filter_eq_single:
  "filter P xs = [x] \<Longrightarrow> x \<in> set xs \<and> P x"
  using filter_set [of P xs] by (metis (mono_tags) filter_eq_ConsD in_set_conv_decomp)

lemma distinct_map_take [simp, intro]: "distinct (map f xs) \<Longrightarrow> distinct (map f (take n xs))"
  by (simp add: take_map [symmetric])

lemma fold_invariant:
  "(\<And>x s. x \<in> set xs \<Longrightarrow> P s \<Longrightarrow> P (f x s)) \<Longrightarrow> P s \<Longrightarrow> P (fold f xs s)"
  by (induction xs arbitrary: s) auto

end
