(* ===== verification/Go_Strings.thy ===== *)
theory Go_Strings
  imports Prelude "HOL-Library.List_Lexorder" "HOL-Library.Char_ord" "HOL-Library.Product_Lexorder"
begin

text \<open>
  The parts of Go's \<^verbatim>\<open>strings\<close>, \<^verbatim>\<open>sort\<close>, \<^verbatim>\<open>net\<close> and \<^verbatim>\<open>strconv\<close> packages that the
  repository uses. A Go string is a list of bytes, which is what \<open>char list\<close> is; the order on
  \<open>char list\<close> from the library is Go's bytewise lexicographic order.
\<close>

section \<open>Searching and splitting\<close>

text \<open>\<^verbatim>\<open>s[:strings.Index(s, c)]\<close> when the byte occurs, \<^verbatim>\<open>s\<close> otherwise.\<close>

definition str_before :: "char \<Rightarrow> string \<Rightarrow> string" where
  "str_before c s = takeWhile (\<lambda>x. x \<noteq> c) s"

definition str_contains :: "char \<Rightarrow> string \<Rightarrow> bool" where
  "str_contains c s \<longleftrightarrow> c \<in> set s"

text \<open>\<^verbatim>\<open>strings.Split\<close> for a separator of one byte: never empty.\<close>

fun str_split :: "char \<Rightarrow> string \<Rightarrow> string list" where
  "str_split c [] = [[]]"
| "str_split c (x # xs) =
     (if x = c then [] # str_split c xs
      else case str_split c xs of [] \<Rightarrow> [[x]] | p # ps \<Rightarrow> (x # p) # ps)"

text \<open>\<^verbatim>\<open>strings.SplitN(s, c, 2)\<close>, and \<^verbatim>\<open>strings.Cut\<close> which splits at the same place.\<close>

definition str_splitN2 :: "char \<Rightarrow> string \<Rightarrow> string list" where
  "str_splitN2 c s = (if str_contains c s
     then [str_before c s, tl (dropWhile (\<lambda>x. x \<noteq> c) s)] else [s])"

text \<open>\<^verbatim>\<open>strings.TrimPrefix\<close> and \<^verbatim>\<open>strings.Join\<close>.\<close>

definition str_trim_prefix :: "string \<Rightarrow> string \<Rightarrow> string" where
  "str_trim_prefix p s = (if take (length p) s = p then drop (length p) s else s)"

fun str_join :: "string \<Rightarrow> string list \<Rightarrow> string" where
  "str_join sep [] = []"
| "str_join sep [x] = x"
| "str_join sep (x # xs) = x @ sep @ str_join sep xs"

lemma str_split_nonempty [simp]: "str_split c s \<noteq> []"
  by (induction s) (auto split: list.splits)

lemma str_split_no_sep: "c \<notin> set s \<Longrightarrow> str_split c s = [s]"
  by (induction s) auto

lemma str_split_append_sep:
  "c \<notin> set p \<Longrightarrow> str_split c (p @ c # s) = p # str_split c s"
  by (induction p) auto

lemma str_split_parts: "p \<in> set (str_split c s) \<Longrightarrow> c \<notin> set p"
  by (induction s arbitrary: p) (auto split: list.splits if_splits)

lemma str_join_split: "str_join [c] (str_split c s) = s"
proof (induction s)
  case Nil
  then show ?case by simp
next
  case (Cons x xs)
  obtain p ps where sp: "str_split c xs = p # ps"
    by (cases "str_split c xs") auto
  show ?case
    using Cons.IH sp by (cases ps) (auto split: list.splits)
qed

lemma str_before_no_char [simp]: "c \<notin> set (str_before c s)"
  unfolding str_before_def by (induction s) auto

lemma str_before_id: "c \<notin> set s \<Longrightarrow> str_before c s = s"
  unfolding str_before_def by (induction s) auto

lemma str_before_append: "c \<notin> set p \<Longrightarrow> str_before c (p @ c # s) = p"
  unfolding str_before_def by (induction p) auto

lemma str_splitN2_append:
  "c \<notin> set p \<Longrightarrow> str_splitN2 c (p @ c # s) = [p, s]"
  unfolding str_splitN2_def str_contains_def str_before_def by (induction p) auto

section \<open>White space\<close>

text \<open>The UTF-8 encodings of the runes for which \<^verbatim>\<open>unicode.IsSpace\<close> holds.\<close>

definition go_spaces :: "string list" where
  "go_spaces = map (\<lambda>n. [char_of n]) [9, 10, 11, 12, 13, 32 :: nat]
     @ map (\<lambda>n. [CHR 0xC2, char_of n]) [0x85, 0xA0 :: nat]
     @ [[CHR 0xE1, CHR 0x9A, CHR 0x80]]
     @ map (\<lambda>n. [CHR 0xE2, CHR 0x80, char_of n])
         [0x80, 0x81, 0x82, 0x83, 0x84, 0x85, 0x86, 0x87, 0x88, 0x89, 0x8A, 0xA8, 0xA9, 0xAF :: nat]
     @ [[CHR 0xE2, CHR 0x81, CHR 0x9F], [CHR 0xE3, CHR 0x80, CHR 0x80]]"

function trim_with :: "string list \<Rightarrow> string \<Rightarrow> string" where
  "trim_with ws s =
     (case find (\<lambda>w. w \<noteq> [] \<and> s \<noteq> [] \<and> take (length w) s = w) ws of
        None \<Rightarrow> s
      | Some w \<Rightarrow> trim_with ws (drop (length w) s))"
  by pat_completeness auto
termination
  by (relation "measure (\<lambda>(ws, s). length s)") (auto simp: find_Some_iff)

declare trim_with.simps [simp del]

text \<open>\<^verbatim>\<open>strings.TrimSpace\<close>.\<close>

definition trim_space :: "string \<Rightarrow> string" where
  "trim_space s = rev (trim_with (map rev go_spaces) (rev (trim_with go_spaces s)))"

text \<open>Bytes that neither start nor end the encoding of a space.\<close>

definition plain_char :: "char \<Rightarrow> bool" where
  "plain_char c \<longleftrightarrow> 32 < (of_char c :: nat) \<and> (of_char c :: nat) < 127"

lemma find_None_if: "(\<And>x. x \<in> set xs \<Longrightarrow> \<not> P x) \<Longrightarrow> find P xs = None"
  by (simp add: find_None_iff)

lemma plain_not_space:
  assumes "plain_char (hd s)" and "s \<noteq> []"
  shows "trim_with go_spaces s = s" and "trim_with (map rev go_spaces) s = s"
proof -
  obtain c cs where s: "s = c # cs" using assms(2) by (cases s) auto
  have c: "32 < (of_char c :: nat)" "(of_char c :: nat) < 127"
    using assms(1) by (auto simp: plain_char_def s)
  have 1: "w \<in> set go_spaces \<Longrightarrow> take (length w) s \<noteq> w" for w
    using c unfolding go_spaces_def s by auto
  have 2: "w \<in> set (map rev go_spaces) \<Longrightarrow> take (length w) s \<noteq> w" for w
    using c unfolding go_spaces_def s by auto
  show "trim_with go_spaces s = s"
    using 1 by (subst trim_with.simps) (auto simp: find_None_if)
  show "trim_with (map rev go_spaces) s = s"
    using 2 by (subst trim_with.simps) (subst find_None_if, auto)
qed

lemma trim_with_Nil [simp]: "trim_with ws [] = []"
  by (subst trim_with.simps) (simp add: find_None_if)

lemma trim_space_plain:
  assumes "s \<noteq> []" and "plain_char (hd s)" and "plain_char (last s)"
  shows "trim_space s = s"
proof -
  have "hd (rev s) = last s" using assms(1) by (simp add: hd_rev)
  then show ?thesis
    unfolding trim_space_def using assms plain_not_space [of s] plain_not_space [of "rev s"] by simp
qed

lemma trim_space_Nil [simp]: "trim_space [] = []"
  by (simp add: trim_space_def)

section \<open>Case and numbers\<close>

text \<open>\<^verbatim>\<open>strings.ToLower\<close> on ASCII.\<close>

definition ascii_lower :: "char \<Rightarrow> char" where
  "ascii_lower c = (let n = of_char c :: nat in if 65 \<le> n \<and> n \<le> 90 then char_of (n + 32) else c)"

definition str_lower :: "string \<Rightarrow> string" where
  "str_lower s = map ascii_lower s"

definition is_digit :: "char \<Rightarrow> bool" where
  "is_digit c \<longleftrightarrow> CHR ''0'' \<le> c \<and> c \<le> CHR ''9''"

definition digit_val :: "char \<Rightarrow> nat" where
  "digit_val c = of_char c - 48"

definition dec_val :: "string \<Rightarrow> nat" where
  "dec_val s = foldl (\<lambda>n c. n * 10 + digit_val c) 0 s"

definition is_lower :: "char \<Rightarrow> bool" where
  "is_lower c \<longleftrightarrow> CHR ''a'' \<le> c \<and> c \<le> CHR ''z''"

definition is_hex :: "char \<Rightarrow> bool" where
  "is_hex c \<longleftrightarrow> is_digit c \<or> (CHR ''a'' \<le> c \<and> c \<le> CHR ''f'') \<or> (CHR ''A'' \<le> c \<and> c \<le> CHR ''F'')"

definition hex_val :: "char \<Rightarrow> nat" where
  "hex_val c = (if is_digit c then of_char c - 48
     else if CHR ''a'' \<le> c \<and> c \<le> CHR ''f'' then of_char c - 87 else of_char c - 55)"

definition hex_num :: "string \<Rightarrow> nat" where
  "hex_num s = foldl (\<lambda>n c. n * 16 + hex_val c) 0 s"

section \<open>IP addresses: net.ParseIP\<close>

definition parse_v4_octet :: "string \<Rightarrow> nat option" where
  "parse_v4_octet p =
     (if p \<noteq> [] \<and> (\<forall>c \<in> set p. is_digit c) \<and> (length p = 1 \<or> hd p \<noteq> CHR ''0'') \<and> dec_val p \<le> 255
      then Some (dec_val p) else None)"

definition parse_v4 :: "string \<Rightarrow> nat list option" where
  "parse_v4 s = (case map parse_v4_octet (str_split (CHR ''.'') s) of
      [Some a, Some b, Some c, Some d] \<Rightarrow> Some [a, b, c, d]
    | _ \<Rightarrow> None)"

text \<open>The end of \<^verbatim>\<open>netip.parseIPv6\<close>: all input used, the ellipsis expanded.\<close>

definition v6_finish :: "string \<Rightarrow> nat list \<Rightarrow> nat option \<Rightarrow> nat list option" where
  "v6_finish s acc ell =
     (if s \<noteq> [] then None
      else if length acc < 16 then
        (case ell of None \<Rightarrow> None
         | Some e \<Rightarrow> Some (take e acc @ replicate (16 - length acc) 0 @ drop e acc))
      else if ell \<noteq> None then None else Some acc)"

lemma v6_rest_shorter: "dropWhile P s = c # d # r \<Longrightarrow> Suc (length r) < length s"
  using length_dropWhile_le [of P s] by simp

function v6_loop :: "string \<Rightarrow> nat list \<Rightarrow> nat option \<Rightarrow> nat list option" where
  "v6_loop s acc ell =
     (if 16 \<le> length acc then v6_finish s acc ell
      else
        let h = takeWhile is_hex s; r = dropWhile is_hex s; n = hex_num h in
        if h = [] \<or> 4 < length h then None
        else if r \<noteq> [] \<and> hd r = CHR ''.'' then
          (if ell = None \<and> length acc \<noteq> 12 then None
           else if 16 < length acc + 4 then None
           else (case parse_v4 s of None \<Rightarrow> None | Some bs \<Rightarrow> v6_finish [] (acc @ bs) ell))
        else
          let acc' = acc @ [n div 256, n mod 256] in
          (case r of
             [] \<Rightarrow> v6_finish [] acc' ell
           | [c] \<Rightarrow> None
           | c # d # r2 \<Rightarrow>
               if c \<noteq> CHR '':'' then None
               else if d = CHR '':'' then
                 (if ell \<noteq> None then None
                  else if r2 = [] then v6_finish [] acc' (Some (length acc'))
                  else v6_loop r2 acc' (Some (length acc')))
               else v6_loop (d # r2) acc' ell))"
  by pat_completeness auto
termination
  by (relation "measure (\<lambda>(s, acc, ell). length s)")
    (auto dest!: sym [of "_ # _"] dest: v6_rest_shorter)

declare v6_loop.simps [simp del]

definition parse_v6 :: "string \<Rightarrow> nat list option" where
  "parse_v6 s =
     (if take 2 s = [CHR '':'', CHR '':''] then
        (if drop 2 s = [] then Some (replicate 16 0) else v6_loop (drop 2 s) [] (Some 0))
      else v6_loop s [] None)"

text \<open>
  \<^verbatim>\<open>net.ParseIP\<close>: the first of \<^verbatim>\<open>. : %\<close> decides the family; an address with a zone is refused.
  The result is the 16-byte form.
\<close>

definition parse_ip :: "string \<Rightarrow> nat list option" where
  "parse_ip s = (case find (\<lambda>c. c = CHR ''.'' \<or> c = CHR '':'' \<or> c = CHR ''%'') s of
      None \<Rightarrow> None
    | Some c \<Rightarrow>
        if c = CHR ''.'' then
          (case parse_v4 s of None \<Rightarrow> None | Some bs \<Rightarrow> Some (replicate 10 0 @ [255, 255] @ bs))
        else if c = CHR '':'' then (if CHR ''%'' \<in> set s then None else parse_v6 s)
        else None)"

text \<open>\<^verbatim>\<open>ip.To4() != nil\<close> for a 16-byte address.\<close>

definition is_v4 :: "nat list \<Rightarrow> bool" where
  "is_v4 ip \<longleftrightarrow> take 12 ip = replicate 10 0 @ [255, 255]"

end
