(* ===== verification/Go_Sha256.thy ===== *)
theory Go_Sha256
  imports Go_Strings
begin

unbundle bit_operations_syntax

text \<open>
  \<^verbatim>\<open>crypto/sha256\<close> and \<^verbatim>\<open>encoding/hex\<close>, as the attachment and path-domain identifiers use
  them: the digest of a byte string in lower-case hexadecimal. The definitions evaluate with
  the simplifier (collection \<open>sha\<close>), one round at a time. A 32-bit
  word is a natural number below \<open>2 ^ 32\<close>, its additions reduced by \<open>add32\<close>.
\<close>

named_theorems sha \<open>evaluation of the digest on a concrete string\<close>

section \<open>The compression function\<close>

definition rotr :: "nat \<Rightarrow> nat \<Rightarrow> nat" where
  [sha]: "rotr n x = drop_bit n x OR push_bit (32 - n) (take_bit n x)"

definition add32 :: "nat \<Rightarrow> nat \<Rightarrow> nat" where
  [sha]: "add32 x y = take_bit 32 (x + y)"

definition sha_s0 :: "nat \<Rightarrow> nat" where
  [sha]: "sha_s0 x = rotr 7 x XOR rotr 18 x XOR drop_bit 3 x"

definition sha_s1 :: "nat \<Rightarrow> nat" where
  [sha]: "sha_s1 x = rotr 17 x XOR rotr 19 x XOR drop_bit 10 x"

definition sha_S0 :: "nat \<Rightarrow> nat" where
  [sha]: "sha_S0 x = rotr 2 x XOR rotr 13 x XOR rotr 22 x"

definition sha_S1 :: "nat \<Rightarrow> nat" where
  [sha]: "sha_S1 x = rotr 6 x XOR rotr 11 x XOR rotr 25 x"

definition sha_ch :: "nat \<Rightarrow> nat \<Rightarrow> nat \<Rightarrow> nat" where
  [sha]: "sha_ch e f g = (e AND f) XOR ((4294967295 - e) AND g)"

definition sha_maj :: "nat \<Rightarrow> nat \<Rightarrow> nat \<Rightarrow> nat" where
  [sha]: "sha_maj a b c = (a AND b) XOR (a AND c) XOR (b AND c)"

definition sha_K :: "nat list" where
  [sha]: "sha_K = [
   1116352408, 1899447441, 3049323471, 3921009573, 961987163, 1508970993, 2453635748, 2870763221,
   3624381080, 310598401, 607225278, 1426881987, 1925078388, 2162078206, 2614888103, 3248222580,
   3835390401, 4022224774, 264347078, 604807628, 770255983, 1249150122, 1555081692, 1996064986,
   2554220882, 2821834349, 2952996808, 3210313671, 3336571891, 3584528711, 113926993, 338241895,
   666307205, 773529912, 1294757372, 1396182291, 1695183700, 1986661051, 2177026350, 2456956037,
   2730485921, 2820302411, 3259730800, 3345764771, 3516065817, 3600352804, 4094571909, 275423344,
   430227734, 506948616, 659060556, 883997877, 958139571, 1322822218, 1537002063, 1747873779,
   1955562222, 2024104815, 2227730452, 2361852424, 2428436474, 2756734187, 3204031479, 3329325298]"

definition sha_iv :: "nat list" where
  [sha]: "sha_iv = [1779033703, 3144134277, 1013904242, 2773480762,
                    1359893119, 2600822924, 528734635, 1541459225]"

text \<open>The message schedule grows at the front: the newest word is first.\<close>

definition sha_sched1 :: "nat list \<Rightarrow> nat list" where
  [sha]: "sha_sched1 w = add32 (add32 (sha_s1 (w ! 1)) (w ! 6)) (add32 (sha_s0 (w ! 14)) (w ! 15)) # w"

fun sha_extend :: "nat \<Rightarrow> nat list \<Rightarrow> nat list" where
  "sha_extend 0 w = w"
| "sha_extend (Suc n) w = sha_extend n (sha_sched1 w)"

definition sha_sched :: "nat list \<Rightarrow> nat list" where
  "sha_sched ws = rev (sha_extend 48 (rev ws))"

fun sha_mix :: "nat \<Rightarrow> nat \<Rightarrow> nat list \<Rightarrow> nat list" where
  "sha_mix t1 t2 [a, b, c, d, e, f, g, h] = [add32 t1 t2, a, b, c, add32 d t1, e, f, g]"
| "sha_mix t1 t2 _ = []"

fun sha_round :: "nat \<Rightarrow> nat \<Rightarrow> nat list \<Rightarrow> nat list" where
  "sha_round k w [a, b, c, d, e, f, g, h] =
     sha_mix (add32 (add32 h (sha_S1 e)) (add32 (sha_ch e f g) (add32 k w))) (add32 (sha_S0 a) (sha_maj a b c)) [a, b, c, d, e, f, g, h]"
| "sha_round k w _ = []"

fun sha_rounds :: "nat list \<Rightarrow> nat list \<Rightarrow> nat list \<Rightarrow> nat list" where
  "sha_rounds (k # ks) (w # ws) st = sha_rounds ks ws (sha_round k w st)"
| "sha_rounds _ _ st = st"

definition sha_run :: "nat list \<Rightarrow> nat list \<Rightarrow> nat list" where
  "sha_run ws st = sha_rounds sha_K ws st"

definition sha_compress :: "nat list \<Rightarrow> nat list \<Rightarrow> nat list" where
  "sha_compress st blk = map2 add32 st (sha_run (sha_sched blk) st)"

section \<open>Padding, digest, hexadecimal\<close>

definition sha_bytes :: "nat \<Rightarrow> nat \<Rightarrow> nat list" where
  "sha_bytes n x = map (\<lambda>i. (x div 256 ^ (n - 1 - i)) mod 256) [0..<n]"

definition sha_pad :: "string \<Rightarrow> nat list" where
  "sha_pad s = (let n = length s in
     map of_char s @ [128] @ replicate ((119 - n mod 64) mod 64) 0 @ sha_bytes 8 (8 * n))"

fun sha_words :: "nat list \<Rightarrow> nat list" where
  "sha_words (a # b # c # d # r) = (((a * 256 + b) * 256 + c) * 256 + d) # sha_words r"
| "sha_words _ = []"

function sha_blocks :: "nat list \<Rightarrow> nat list \<Rightarrow> nat list" where
  "sha_blocks st ws = (if ws = [] then st else sha_blocks (sha_compress st (take 16 ws)) (drop 16 ws))"
  by pat_completeness auto
termination
  by (relation "measure (\<lambda>(st, ws). length ws)") auto

declare sha_blocks.simps [simp del]

lemma sha_blocks_Nil [sha]: "sha_blocks st [] = st"
  by (simp add: sha_blocks.simps)

lemma sha_blocks_Cons [sha]:
  "sha_blocks st (w # ws) = sha_blocks (sha_compress st (take 16 (w # ws))) (drop 16 (w # ws))"
  by (simp add: sha_blocks.simps [of st "w # ws"])

definition hex_digit :: "nat \<Rightarrow> char" where
  "hex_digit n = ''0123456789abcdef'' ! n"

definition hex_word :: "nat \<Rightarrow> string" where
  "hex_word w = map (\<lambda>i. hex_digit ((w div 16 ^ (7 - i)) mod 16)) [0..<8]"

definition sha256_hex :: "string \<Rightarrow> string" where
  "sha256_hex s = concat (map hex_word (sha_blocks sha_iv (sha_words (sha_pad s))))"

section \<open>Evaluation\<close>

text \<open>The schedule and the rounds unfold one step at a time, each step fully evaluated.\<close>

lemma sha_extend_step [sha]: "sha_extend (numeral n) w = sha_extend (pred_numeral n) (sha_sched1 w)"
  by (simp add: numeral_eq_Suc)

lemma replicate_step [sha]: "replicate (numeral n) x = x # replicate (pred_numeral n) x"
  by (simp add: numeral_eq_Suc)

lemmas sha_eval = sha sha_compress_def sha_sched_def sha_bytes_def sha_pad_def
  sha256_hex_def hex_word_def hex_digit_def

text \<open>Only the state is simplified while the rounds run; the constants and the schedule are values.\<close>

lemma sha_rounds_weak: "st = st' \<Longrightarrow> sha_rounds ks ws st = sha_rounds ks ws st'"
  by simp

lemma sha_run_Cons: "sha_run (w # ws) st = sha_rounds sha_K (w # ws) st"
  by (simp add: sha_run_def)

lemmas sha_run_value [sha] = sha_run_Cons [unfolded sha_K_def]

lemma sha256_abc: "take 16 (sha256_hex ''abc'') = ''ba7816bf8f01cfea''"
  by (simp add: sha_eval sha_run_value upt_rec cong: sha_rounds_weak)

end
