(* ===== verification/Model.thy ===== *)
theory Model
  imports Go_Sha256
begin

text \<open>
  \<^verbatim>\<open>internal/model\<close>: attachments and their identity, the two kinds of health observation,
  the origin of a report. A field is prefixed with its record's initials, since several
  Go structs share field names.
\<close>

section \<open>Data\<close>

text \<open>
  \<^verbatim>\<open>ProbeScope\<close> is a string in the source; \<open>ScopeUnset\<close> is its zero value, the empty string,
  which only an unset \<^verbatim>\<open>ProbeConfig\<close> carries.
\<close>

datatype ProbeScope = ScopeEndpoint | ScopeNode | ScopeUnset

datatype State = StateHealthy | StateUnhealthy | StateUnknown

datatype AddressType = AddressTypeIPv4 | AddressTypeIPv6

record Attachment =
  att_PodUID :: string
  att_PodName :: string
  att_PodNamespace :: string
  att_NodeName :: string
  att_NAD :: string
  att_Interface :: string
  att_IP :: string
  att_PodReady :: bool

record LocalHealth =
  lh_AttachmentID :: string
  lh_PodUID :: string
  lh_Namespace :: string
  lh_PodName :: string
  lh_NAD :: string
  lh_Interface :: string
  lh_IP :: string
  lh_NodeName :: string
  lh_InterfaceExists :: bool
  lh_AddressPresent :: bool
  lh_LinkUsable :: bool
  lh_ObservedAt :: int

record PathHealth =
  ph_Scope :: ProbeScope
  ph_ScopeID :: string
  ph_NodeName :: string
  ph_NAD :: string
  ph_Target :: string
  ph_PathReady :: bool
  ph_ObservedAt :: int

record ReportOrigin =
  or_NodeName :: string
  or_AgentInstance :: string
  or_Sequence :: "64 word"

text \<open>The zero values Go returns beside a false flag.\<close>

definition zero_Attachment :: Attachment where
  "zero_Attachment = \<lparr>att_PodUID = [], att_PodName = [], att_PodNamespace = [], att_NodeName = [],
     att_NAD = [], att_Interface = [], att_IP = [], att_PodReady = False\<rparr>"

definition zero_LocalHealth :: LocalHealth where
  "zero_LocalHealth = \<lparr>lh_AttachmentID = [], lh_PodUID = [], lh_Namespace = [], lh_PodName = [],
     lh_NAD = [], lh_Interface = [], lh_IP = [], lh_NodeName = [], lh_InterfaceExists = False,
     lh_AddressPresent = False, lh_LinkUsable = False, lh_ObservedAt = time_zero\<rparr>"

definition zero_PathHealth :: PathHealth where
  "zero_PathHealth = \<lparr>ph_Scope = ScopeUnset, ph_ScopeID = [], ph_NodeName = [], ph_NAD = [],
     ph_Target = [], ph_PathReady = False, ph_ObservedAt = time_zero\<rparr>"

section \<open>Identity\<close>

text \<open>The bytes \<^verbatim>\<open>ID\<close> writes to the hash: each part followed by a zero byte.\<close>

definition id_preimage :: "Attachment \<Rightarrow> string" where
  "id_preimage a = concat (map (\<lambda>p. p @ [CHR 0x00]) [att_PodUID a, att_NAD a, att_Interface a, att_IP a])"

definition ID :: "Attachment \<Rightarrow> string" where
  "ID a = take 16 (sha256_hex (id_preimage a))"

definition path_preimage :: "string \<Rightarrow> string \<Rightarrow> string" where
  "path_preimage nodeName nad = nodeName @ [CHR 0x00] @ nad"

definition PathDomainID :: "string \<Rightarrow> string \<Rightarrow> string" where
  "PathDomainID nodeName nad = take 16 (sha256_hex (path_preimage nodeName nad))"

definition PathKey :: "Attachment \<Rightarrow> ProbeScope \<Rightarrow> string" where
  "PathKey a scope = (if scope = ScopeNode then PathDomainID (att_NodeName a) (att_NAD a) else ID a)"

section \<open>Derived views\<close>

definition lh_Ready :: "LocalHealth \<Rightarrow> bool" where
  "lh_Ready l \<longleftrightarrow> lh_InterfaceExists l \<and> lh_AddressPresent l \<and> lh_LinkUsable l"

definition AddressType_of :: "Attachment \<Rightarrow> AddressType" where
  "AddressType_of a = (case parse_ip (att_IP a) of
      None \<Rightarrow> AddressTypeIPv4
    | Some ip \<Rightarrow> if is_v4 ip then AddressTypeIPv4 else AddressTypeIPv6)"

definition hostname_char :: "char \<Rightarrow> bool" where
  "hostname_char c \<longleftrightarrow> is_lower c \<or> is_digit c \<or> c = CHR ''-''"

definition Hostname :: "Attachment \<Rightarrow> string" where
  "Hostname a = (let n = att_PodName a in
     if n = [] \<or> 63 < length n \<or> str_contains (CHR ''.'') n then []
     else if \<not> list_all hostname_char n then []
     else if hd n = CHR ''-'' \<or> last n = CHR ''-'' then []
     else n)"

section \<open>Lemmas\<close>

text \<open>A string without a zero byte, which every Kubernetes name and address is.\<close>

definition nul_free :: "string \<Rightarrow> bool" where
  "nul_free s \<longleftrightarrow> CHR 0x00 \<notin> set s"

definition att_nul_free :: "Attachment \<Rightarrow> bool" where
  "att_nul_free a \<longleftrightarrow> nul_free (att_PodUID a) \<and> nul_free (att_NAD a) \<and>
     nul_free (att_Interface a) \<and> nul_free (att_IP a)"

lemma nul_append_inject:
  assumes "nul_free p" and "nul_free q" and "p @ CHR 0x00 # r = q @ CHR 0x00 # s"
  shows "p = q \<and> r = s"
  using assms
proof (induction p arbitrary: q)
  case Nil
  then show ?case by (cases q) (auto simp: nul_free_def)
next
  case (Cons x p)
  then show ?case by (cases q) (auto simp: nul_free_def)
qed

lemma id_preimage_split:
  "id_preimage a = att_PodUID a @ CHR 0x00 # att_NAD a @ CHR 0x00 # att_Interface a @ CHR 0x00 # att_IP a @ [CHR 0x00]"
  by (simp add: id_preimage_def)

lemma id_preimage_inject:
  assumes "att_nul_free a" and "att_nul_free b" and "id_preimage a = id_preimage b"
  shows "att_PodUID a = att_PodUID b \<and> att_NAD a = att_NAD b \<and>
    att_Interface a = att_Interface b \<and> att_IP a = att_IP b"
proof -
  note eq = assms(3) [unfolded id_preimage_split]
  note n = assms(1,2) [unfolded att_nul_free_def]
  from n eq have 1: "att_PodUID a = att_PodUID b"
    and e1: "att_NAD a @ CHR 0x00 # att_Interface a @ CHR 0x00 # att_IP a @ [CHR 0x00]
           = att_NAD b @ CHR 0x00 # att_Interface b @ CHR 0x00 # att_IP b @ [CHR 0x00]"
    using nul_append_inject by blast+
  from n e1 have 2: "att_NAD a = att_NAD b"
    and e2: "att_Interface a @ CHR 0x00 # att_IP a @ [CHR 0x00]
           = att_Interface b @ CHR 0x00 # att_IP b @ [CHR 0x00]"
    using nul_append_inject by blast+
  from n e2 have 3: "att_Interface a = att_Interface b" and e3: "att_IP a @ [CHR 0x00] = att_IP b @ [CHR 0x00]"
    using nul_append_inject by blast+
  from 1 2 3 e3 show ?thesis by simp
qed

lemma path_preimage_inject:
  assumes "nul_free n" and "nul_free n'" and "path_preimage n d = path_preimage n' d'"
  shows "n = n' \<and> d = d'"
  using assms nul_append_inject [of n n' d d'] by (simp add: path_preimage_def)

lemma preimages_disjoint:
  assumes "att_nul_free a" and "nul_free n" and "nul_free d"
  shows "id_preimage a \<noteq> path_preimage n d"
proof
  assume "id_preimage a = path_preimage n d"
  then have "d = att_NAD a @ CHR 0x00 # att_Interface a @ CHR 0x00 # att_IP a @ [CHR 0x00]"
    using assms nul_append_inject [of "att_PodUID a" n _ d]
    unfolding id_preimage_split path_preimage_def att_nul_free_def by auto
  with assms(3) show False by (simp add: nul_free_def)
qed

lemma PathKey_Endpoint [simp]: "PathKey a ScopeEndpoint = ID a"
  by (simp add: PathKey_def)

lemma PathKey_Node [simp]: "PathKey a ScopeNode = PathDomainID (att_NodeName a) (att_NAD a)"
  by (simp add: PathKey_def)

lemma length_hex_word [simp]: "length (hex_word w) = 8"
  by (simp add: hex_word_def)

lemma length_sha_rounds: "length st = 8 \<Longrightarrow> length (sha_rounds ks ws st) = 8"
proof (induction ks ws st rule: sha_rounds.induct)
  case (1 k ks w ws st)
  have "length (sha_round k w st) = 8"
    using "1.prems" by (cases "(k, w, st)" rule: sha_round.cases) auto
  then show ?case using "1.IH" by simp
qed auto

lemma length_sha_compress: "length st = 8 \<Longrightarrow> length (sha_compress st blk) = 8"
  by (simp add: sha_compress_def sha_run_def length_sha_rounds)

lemma length_sha_blocks: "length st = 8 \<Longrightarrow> length (sha_blocks st ws) = 8"
  by (induction st ws rule: sha_blocks.induct)
     (simp add: sha_blocks.simps length_sha_compress)

lemma length_sha256_hex [simp]: "length (sha256_hex s) = 64"
proof -
  define bs where "bs = sha_blocks sha_iv (sha_words (sha_pad s))"
  have "length bs = 8" unfolding bs_def by (rule length_sha_blocks) (simp add: sha_iv_def)
  moreover have "length (concat (map hex_word ws)) = 8 * length ws" for ws
    by (induction ws) auto
  ultimately show ?thesis by (simp add: sha256_hex_def bs_def)
qed

lemma length_ID [simp]: "length (ID a) = 16"
  by (simp add: ID_def)

lemma ID_nonempty [simp]: "ID a \<noteq> []" "[] \<noteq> ID a"
  using length_ID [of a] by (auto simp del: length_ID)

lemma length_PathDomainID [simp]: "length (PathDomainID n d) = 16"
  by (simp add: PathDomainID_def)

lemma PathKey_nonempty [simp]: "PathKey a sc \<noteq> []" "[] \<noteq> PathKey a sc"
proof -
  have "length (PathKey a sc) = 16" by (cases sc) (simp_all add: PathKey_def)
  then show "PathKey a sc \<noteq> []" "[] \<noteq> PathKey a sc" by auto
qed

lemma ID_cong:
  "att_PodUID a = att_PodUID b \<Longrightarrow> att_NAD a = att_NAD b \<Longrightarrow> att_Interface a = att_Interface b \<Longrightarrow>
   att_IP a = att_IP b \<Longrightarrow> ID a = ID b"
  by (simp add: ID_def id_preimage_def)

end
