(* ===== verification/Go_Json.thy ===== *)
theory Go_Json
  imports Go_Strings
begin

text \<open>
  \<^verbatim>\<open>encoding/json\<close>, as far as \<^verbatim>\<open>json.Unmarshal\<close> is used on annotations: a scanner that
  checks the whole input first, strings with their escapes and the replacement of invalid
  UTF-8, the nesting limit of 10000, and the case-insensitive match of object keys with
  field names. The scanner and the parser recurse on their input, so neither needs fuel.
\<close>

section \<open>Tokens\<close>

datatype token =
    TNull | TTrue | TFalse
  | TNum string
  | TStr string
  | TLBrack | TRBrack | TLBrace | TRBrace | TColon | TComma

text \<open>
  The scanner's state: between tokens, inside a string (its raw bytes so far, reversed; after a
  backslash; with hex digits of an escape outstanding), inside a number or a word.
\<close>

datatype lexst =
    LNone
  | LStr string
  | LEsc string
  | LHex nat string
  | LNum string
  | LWord string

definition is_ws :: "char \<Rightarrow> bool" where
  "is_ws c \<longleftrightarrow> c \<in> {CHR '' '', CHR 0x09, CHR 0x0D, CHR 0x0A}"

definition num_char :: "char \<Rightarrow> bool" where
  "num_char c \<longleftrightarrow> is_digit c \<or> c \<in> {CHR ''-'', CHR ''+'', CHR ''.'', CHR ''e'', CHR ''E''}"

text \<open>The JSON number grammar on a maximal run of number characters.\<close>

fun num_exp :: "string \<Rightarrow> bool" where
  "num_exp [] = True"
| "num_exp (c # s) = (c \<in> {CHR ''e'', CHR ''E''} \<and>
     (let t = (case s of (d # r) \<Rightarrow> if d \<in> {CHR ''-'', CHR ''+''} then r else s | [] \<Rightarrow> [])
      in t \<noteq> [] \<and> list_all is_digit t))"

fun num_frac :: "string \<Rightarrow> bool" where
  "num_frac [] = True"
| "num_frac (c # s) = (if c = CHR ''.'' then takeWhile is_digit s \<noteq> [] \<and> num_exp (dropWhile is_digit s)
                       else num_exp (c # s))"

definition num_valid :: "string \<Rightarrow> bool" where
  "num_valid s = (let t = (case s of (c # r) \<Rightarrow> if c = CHR ''-'' then r else s | [] \<Rightarrow> []) in
     (case t of [] \<Rightarrow> False
      | c # r \<Rightarrow> if c = CHR ''0'' then num_frac r
                 else is_digit c \<and> num_frac (dropWhile is_digit r)))"

definition word_token :: "string \<Rightarrow> token option" where
  "word_token w = (if w = ''null'' then Some TNull else if w = ''true'' then Some TTrue
     else if w = ''false'' then Some TFalse else None)"

definition num_token :: "string \<Rightarrow> token option" where
  "num_token s = (if num_valid s then Some (TNum s) else None)"

definition punct_token :: "char \<Rightarrow> token option" where
  "punct_token c =
     (if c = CHR ''['' then Some TLBrack else if c = CHR '']'' then Some TRBrack
      else if c = CHR ''{'' then Some TLBrace else if c = CHR ''}'' then Some TRBrace
      else if c = CHR '':'' then Some TColon else if c = CHR '','' then Some TComma else None)"

text \<open>One character met between two tokens: the tokens it completes and the next state.\<close>

definition lex_start :: "char \<Rightarrow> (token list \<times> lexst) option" where
  "lex_start c =
     (if is_ws c then Some ([], LNone)
      else if c = CHR 0x22 then Some ([], LStr [])
      else if is_digit c \<or> c = CHR ''-'' then Some ([], LNum [c])
      else if is_lower c then Some ([], LWord [c])
      else (case punct_token c of None \<Rightarrow> None | Some t \<Rightarrow> Some ([t], LNone)))"

definition emit_then :: "token option \<Rightarrow> char \<Rightarrow> (token list \<times> lexst) option" where
  "emit_then t c = (case t of None \<Rightarrow> None
     | Some t' \<Rightarrow> (case lex_start c of None \<Rightarrow> None | Some (ts, st) \<Rightarrow> Some (t' # ts, st)))"

fun lex_step :: "lexst \<Rightarrow> char \<Rightarrow> (token list \<times> lexst) option" where
  "lex_step LNone c = lex_start c"
| "lex_step (LStr acc) c =
     (if c = CHR 0x22 then Some ([TStr (rev acc)], LNone)
      else if c = CHR 0x5C then Some ([], LEsc (c # acc))
      else if (of_char c :: nat) < 32 then None
      else Some ([], LStr (c # acc)))"
| "lex_step (LEsc acc) c =
     (if c \<in> {CHR ''b'', CHR ''f'', CHR ''n'', CHR ''r'', CHR ''t'', CHR 0x5C, CHR ''/'', CHR 0x22}
      then Some ([], LStr (c # acc))
      else if c = CHR ''u'' then Some ([], LHex 4 (c # acc))
      else None)"
| "lex_step (LHex n acc) c =
     (if is_hex c then Some ([], if n \<le> 1 then LStr (c # acc) else LHex (n - 1) (c # acc)) else None)"
| "lex_step (LNum acc) c =
     (if num_char c then Some ([], LNum (c # acc)) else emit_then (num_token (rev acc)) c)"
| "lex_step (LWord acc) c =
     (if is_lower c then Some ([], LWord (c # acc)) else emit_then (word_token (rev acc)) c)"

fun lex_end :: "lexst \<Rightarrow> token list option" where
  "lex_end LNone = Some []"
| "lex_end (LNum acc) = (case num_token (rev acc) of None \<Rightarrow> None | Some t \<Rightarrow> Some [t])"
| "lex_end (LWord acc) = (case word_token (rev acc) of None \<Rightarrow> None | Some t \<Rightarrow> Some [t])"
| "lex_end _ = None"

primrec lex :: "string \<Rightarrow> lexst \<Rightarrow> token list option" where
  "lex [] st = lex_end st"
| "lex (c # s) st = (case lex_step st c of None \<Rightarrow> None
     | Some (ts, st') \<Rightarrow> (case lex s st' of None \<Rightarrow> None | Some r \<Rightarrow> Some (ts @ r)))"

section \<open>String contents\<close>

text \<open>\<^verbatim>\<open>utf8.EncodeRune\<close>, and the replacement character.\<close>

definition utf8_encode :: "nat \<Rightarrow> string" where
  "utf8_encode r =
     (if r < 0x80 then [char_of r]
      else if r < 0x800 then [char_of (0xC0 + r div 64), char_of (0x80 + r mod 64)]
      else if r < 0x10000 then
        [char_of (0xE0 + r div 4096), char_of (0x80 + (r div 64) mod 64), char_of (0x80 + r mod 64)]
      else [char_of (0xF0 + r div 262144), char_of (0x80 + (r div 4096) mod 64),
            char_of (0x80 + (r div 64) mod 64), char_of (0x80 + r mod 64)])"

definition utf8_error :: string where
  "utf8_error = [CHR 0xEF, CHR 0xBF, CHR 0xBD]"

text \<open>The length of the valid UTF-8 sequence a non-ASCII string starts with, or 0.\<close>

definition cont_byte :: "nat \<Rightarrow> nat \<Rightarrow> string \<Rightarrow> nat \<Rightarrow> bool" where
  "cont_byte lo hi s i \<longleftrightarrow> i < length s \<and> lo \<le> of_char (s ! i) \<and> of_char (s ! i) \<le> hi"

definition utf8_len :: "string \<Rightarrow> nat" where
  "utf8_len s = (case s of [] \<Rightarrow> 0 | c # _ \<Rightarrow>
     (let b = of_char c :: nat; k = cont_byte 0x80 0xBF s in
      if 0xC2 \<le> b \<and> b \<le> 0xDF \<and> k 1 then 2
      else if b = 0xE0 \<and> cont_byte 0xA0 0xBF s 1 \<and> k 2 then 3
      else if b = 0xED \<and> cont_byte 0x80 0x9F s 1 \<and> k 2 then 3
      else if 0xE1 \<le> b \<and> b \<le> 0xEF \<and> b \<noteq> 0xED \<and> k 1 \<and> k 2 then 3
      else if b = 0xF0 \<and> cont_byte 0x90 0xBF s 1 \<and> k 2 \<and> k 3 then 4
      else if 0xF1 \<le> b \<and> b \<le> 0xF3 \<and> k 1 \<and> k 2 \<and> k 3 then 4
      else if b = 0xF4 \<and> cont_byte 0x80 0x8F s 1 \<and> k 2 \<and> k 3 then 4
      else 0))"

definition simple_escape :: "char \<Rightarrow> char" where
  "simple_escape c = (if c = CHR ''b'' then CHR 0x08 else if c = CHR ''f'' then CHR 0x0C
     else if c = CHR ''n'' then CHR 0x0A else if c = CHR ''r'' then CHR 0x0D
     else if c = CHR ''t'' then CHR 0x09 else c)"

definition is_surrogate :: "nat \<Rightarrow> bool" where
  "is_surrogate r \<longleftrightarrow> 0xD800 \<le> r \<and> r < 0xE000"

text \<open>\<^verbatim>\<open>unquote\<close>: the bytes between the quotes, already checked by the scanner.\<close>

function unquote :: "string \<Rightarrow> string" where
  "unquote s = (case s of [] \<Rightarrow> []
     | c # r \<Rightarrow>
        if c = CHR 0x5C then
          (case r of [] \<Rightarrow> []
           | d # r1 \<Rightarrow>
              if d = CHR ''u'' then
                (let h = hex_num (take 4 r1); r2 = drop 4 r1; h2 = hex_num (take 4 (drop 2 r2)) in
                 if is_surrogate h then
                   (if h < 0xDC00 \<and> take 2 r2 = [CHR 0x5C, CHR ''u''] \<and> 0xDC00 \<le> h2 \<and> h2 < 0xE000
                    then utf8_encode (0x10000 + (h - 0xD800) * 1024 + (h2 - 0xDC00)) @ unquote (drop 6 r2)
                    else utf8_error @ unquote r2)
                 else utf8_encode h @ unquote r2)
              else simple_escape d # unquote r1)
        else if (of_char c :: nat) < 0x80 then c # unquote r
        else if utf8_len s = 0 then utf8_error @ unquote r
        else take (utf8_len s) s @ unquote (drop (utf8_len s) s))"
  by pat_completeness auto
termination
  by (relation "measure length") auto

declare unquote.simps [simp del]

section \<open>Values\<close>

datatype json =
    JNull
  | JBool bool
  | JNum string
  | JStr string
  | JArr "json list"
  | JObj "(string \<times> json) list"

text \<open>
  An open array holds its values so far (reversed); an open object its members so far
  (reversed) and the key whose value is being read.
\<close>

datatype frame =
    FArr "json list"
  | FObj "(string \<times> json) list" string

text \<open>What the parser expects next, with the open containers.\<close>

datatype pstate =
    PValue "frame list"
  | PValueOrEnd "frame list"
  | PKey "(string \<times> json) list" "frame list"
  | PKeyOrEnd "frame list"
  | PColon "(string \<times> json) list" string "frame list"
  | PAfter json "frame list"

definition max_depth :: nat where
  "max_depth = 10000"

definition open_frame :: "pstate \<Rightarrow> frame list \<Rightarrow> pstate option" where
  "open_frame st fs = (if length fs < max_depth then Some st else None)"

definition value_token :: "token \<Rightarrow> frame list \<Rightarrow> pstate option" where
  "value_token t fs = (case t of
      TNull \<Rightarrow> Some (PAfter JNull fs)
    | TTrue \<Rightarrow> Some (PAfter (JBool True) fs)
    | TFalse \<Rightarrow> Some (PAfter (JBool False) fs)
    | TNum n \<Rightarrow> Some (PAfter (JNum n) fs)
    | TStr s \<Rightarrow> Some (PAfter (JStr (unquote s)) fs)
    | TLBrack \<Rightarrow> open_frame (PValueOrEnd (FArr [] # fs)) fs
    | TLBrace \<Rightarrow> open_frame (PKeyOrEnd fs) fs
    | _ \<Rightarrow> None)"

definition key_token :: "token \<Rightarrow> (string \<times> json) list \<Rightarrow> frame list \<Rightarrow> pstate option" where
  "key_token t ms fs = (case t of TStr s \<Rightarrow> Some (PColon ms (unquote s) fs) | _ \<Rightarrow> None)"

fun parse_step :: "pstate \<Rightarrow> token \<Rightarrow> pstate option" where
  "parse_step (PValue fs) t = value_token t fs"
| "parse_step (PValueOrEnd fs) t =
     (case (t, fs) of (TRBrack, FArr _ # fs') \<Rightarrow> Some (PAfter (JArr []) fs') | _ \<Rightarrow> value_token t fs)"
| "parse_step (PKey ms fs) t = key_token t ms fs"
| "parse_step (PKeyOrEnd fs) t =
     (if t = TRBrace then Some (PAfter (JObj []) fs) else key_token t [] fs)"
| "parse_step (PColon ms k fs) t = (if t = TColon then Some (PValue (FObj ms k # fs)) else None)"
| "parse_step (PAfter v []) t = None"
| "parse_step (PAfter v (FArr vs # fs)) t =
     (if t = TComma then Some (PValue (FArr (v # vs) # fs))
      else if t = TRBrack then Some (PAfter (JArr (rev (v # vs))) fs) else None)"
| "parse_step (PAfter v (FObj ms k # fs)) t =
     (if t = TComma then Some (PKey ((k, v) # ms) fs)
      else if t = TRBrace then Some (PAfter (JObj (rev ((k, v) # ms))) fs) else None)"

primrec parse_tokens :: "token list \<Rightarrow> pstate \<Rightarrow> json option" where
  "parse_tokens [] st = (case st of PAfter v [] \<Rightarrow> Some v | _ \<Rightarrow> None)"
| "parse_tokens (t # ts) st = (case parse_step st t of None \<Rightarrow> None | Some st' \<Rightarrow> parse_tokens ts st')"

definition json_parse :: "string \<Rightarrow> json option" where
  "json_parse s = (case lex s LNone of None \<Rightarrow> None | Some ts \<Rightarrow> parse_tokens ts (PValue []))"

section \<open>Field names\<close>

text \<open>
  \<^verbatim>\<open>foldName\<close> on what can match an ASCII name: ASCII letters, the long s and the Kelvin sign.
\<close>

fun fold_name :: "string \<Rightarrow> string" where
  "fold_name (a # b # c # s) =
     (if [a, b] = [CHR 0xC5, CHR 0xBF] then CHR ''S'' # fold_name (c # s)
      else if [a, b, c] = [CHR 0xE2, CHR 0x84, CHR 0xAA] then CHR ''K'' # fold_name s
      else (if is_lower a then char_of ((of_char a :: nat) - 32) else a) # fold_name (b # c # s))"
| "fold_name [a, b] =
     (if [a, b] = [CHR 0xC5, CHR 0xBF] then ''S''
      else [if is_lower a then char_of ((of_char a :: nat) - 32) else a,
            if is_lower b then char_of ((of_char b :: nat) - 32) else b])"
| "fold_name [a] = [if is_lower a then char_of ((of_char a :: nat) - 32) else a]"
| "fold_name [] = []"

definition field_match :: "string \<Rightarrow> string \<Rightarrow> bool" where
  "field_match name key \<longleftrightarrow> key = name \<or> fold_name key = fold_name name"

section \<open>Printing and parsing back\<close>

text \<open>The tokens of a value whose strings need no escape.\<close>

fun json_tokens :: "json \<Rightarrow> token list" where
  "json_tokens JNull = [TNull]"
| "json_tokens (JBool b) = [if b then TTrue else TFalse]"
| "json_tokens (JNum n) = [TNum n]"
| "json_tokens (JStr s) = [TStr s]"
| "json_tokens (JArr []) = [TLBrack, TRBrack]"
| "json_tokens (JArr (v # vs)) = TLBrack # json_tokens v @ concat (map (\<lambda>x. TComma # json_tokens x) vs) @ [TRBrack]"
| "json_tokens (JObj []) = [TLBrace, TRBrace]"
| "json_tokens (JObj ((k, v) # ms)) = TLBrace # TStr k # TColon # json_tokens v @
     concat (map (\<lambda>(k, x). TComma # TStr k # TColon # json_tokens x) ms) @ [TRBrace]"

text \<open>A string that stands for itself between quotes.\<close>

definition plain_string :: "string \<Rightarrow> bool" where
  "plain_string s \<longleftrightarrow> (\<forall>c \<in> set s. 32 \<le> (of_char c :: nat) \<and> (of_char c :: nat) < 128
     \<and> c \<noteq> CHR 0x22 \<and> c \<noteq> CHR 0x5C)"

fun plain_json :: "json \<Rightarrow> bool" where
  "plain_json (JStr s) = plain_string s"
| "plain_json (JArr vs) = (\<forall>v \<in> set vs. plain_json v)"
| "plain_json (JObj ms) = (\<forall>m \<in> set ms. plain_string (fst m) \<and> plain_json (snd m))"
| "plain_json _ = True"

fun json_depth :: "json \<Rightarrow> nat" where
  "json_depth (JArr vs) = Suc (fold max (map json_depth vs) 0)"
| "json_depth (JObj ms) = Suc (fold max (map (\<lambda>m. json_depth (snd m)) ms) 0)"
| "json_depth _ = 0"

lemma unquote_plain: "plain_string s \<Longrightarrow> unquote s = s"
proof (induction s)
  case Nil
  then show ?case by (subst unquote.simps) simp
next
  case (Cons c s)
  then show ?case by (subst unquote.simps) (auto simp: plain_string_def)
qed

end
