(* ===== verification/Network_Status.thy ===== *)
theory Network_Status
  imports Go_Json
begin

text \<open>
  \<^verbatim>\<open>internal/multus/network_status.go\<close>: the network-status annotation, the canonical form of
  a network reference, the choice of the entry for a network and its addresses. A fallible
  function returns \<open>Inl\<close> the error or \<open>Inr\<close> the value.
\<close>

definition StatusAnnotation :: string where
  "StatusAnnotation = ''k8s.v1.cni.cncf.io/network-status''"

record NetworkStatus =
  ns_Name :: string
  ns_Interface :: string
  ns_IPs :: "string list"
  ns_MAC :: string
  ns_Default :: bool

definition zero_NetworkStatus :: NetworkStatus where
  "zero_NetworkStatus = \<lparr>ns_Name = [], ns_Interface = [], ns_IPs = [], ns_MAC = [], ns_Default = False\<rparr>"

section \<open>Decoding\<close>

text \<open>
  \<^verbatim>\<open>json.Unmarshal\<close> into \<^verbatim>\<open>[]NetworkStatus\<close>: null leaves the old value, a value of another
  type is an error, a repeated key decodes again over the previous value.
\<close>

definition dec_string :: "json \<Rightarrow> string \<Rightarrow> string option" where
  "dec_string v old = (case v of JNull \<Rightarrow> Some old | JStr s \<Rightarrow> Some s | _ \<Rightarrow> None)"

definition dec_bool :: "json \<Rightarrow> bool \<Rightarrow> bool option" where
  "dec_bool v old = (case v of JNull \<Rightarrow> Some old | JBool b \<Rightarrow> Some b | _ \<Rightarrow> None)"

fun dec_elems :: "json list \<Rightarrow> string list \<Rightarrow> string list option" where
  "dec_elems [] old = Some []"
| "dec_elems (v # vs) old =
     (case dec_string v (case old of [] \<Rightarrow> [] | o1 # _ \<Rightarrow> o1) of None \<Rightarrow> None
      | Some s \<Rightarrow> (case dec_elems vs (tl old) of None \<Rightarrow> None | Some ss \<Rightarrow> Some (s # ss)))"

definition dec_strings :: "json \<Rightarrow> string list \<Rightarrow> string list option" where
  "dec_strings v old = (case v of JNull \<Rightarrow> Some [] | JArr vs \<Rightarrow> dec_elems vs old | _ \<Rightarrow> None)"

definition dec_field :: "string \<times> json \<Rightarrow> NetworkStatus \<Rightarrow> NetworkStatus option" where
  "dec_field m n = (case m of (k, v) \<Rightarrow>
     if field_match ''name'' k then map_option (\<lambda>s. n\<lparr>ns_Name := s\<rparr>) (dec_string v (ns_Name n))
     else if field_match ''interface'' k then map_option (\<lambda>s. n\<lparr>ns_Interface := s\<rparr>) (dec_string v (ns_Interface n))
     else if field_match ''ips'' k then map_option (\<lambda>s. n\<lparr>ns_IPs := s\<rparr>) (dec_strings v (ns_IPs n))
     else if field_match ''mac'' k then map_option (\<lambda>s. n\<lparr>ns_MAC := s\<rparr>) (dec_string v (ns_MAC n))
     else if field_match ''default'' k then map_option (\<lambda>b. n\<lparr>ns_Default := b\<rparr>) (dec_bool v (ns_Default n))
     else Some n)"

fun dec_members :: "(string \<times> json) list \<Rightarrow> NetworkStatus \<Rightarrow> NetworkStatus option" where
  "dec_members [] n = Some n"
| "dec_members (m # ms) n = (case dec_field m n of None \<Rightarrow> None | Some n' \<Rightarrow> dec_members ms n')"

definition dec_status :: "json \<Rightarrow> NetworkStatus option" where
  "dec_status v = (case v of JNull \<Rightarrow> Some zero_NetworkStatus
     | JObj ms \<Rightarrow> dec_members ms zero_NetworkStatus | _ \<Rightarrow> None)"

fun dec_list :: "json list \<Rightarrow> NetworkStatus list option" where
  "dec_list [] = Some []"
| "dec_list (v # vs) = (case dec_status v of None \<Rightarrow> None
     | Some n \<Rightarrow> (case dec_list vs of None \<Rightarrow> None | Some ns \<Rightarrow> Some (n # ns)))"

definition decode_status_list :: "json \<Rightarrow> NetworkStatus list option" where
  "decode_status_list v = (case v of JNull \<Rightarrow> Some [] | JArr vs \<Rightarrow> dec_list vs | _ \<Rightarrow> None)"

definition Parse :: "string \<Rightarrow> go_error + NetworkStatus list" where
  "Parse v = (let value = trim_space v in
     if value = [] then Inr []
     else (case json_parse value of
        None \<Rightarrow> Inl ErrSyntax
      | Some j \<Rightarrow> (case decode_status_list j of None \<Rightarrow> Inl ErrSyntax | Some out \<Rightarrow> Inr out)))"

section \<open>Network references\<close>

definition CanonicalNAD :: "string \<Rightarrow> string \<Rightarrow> go_error + string" where
  "CanonicalNAD ref0 defaultNamespace = (let ref1 = trim_space ref0 in
     if ref1 = [] then Inl ErrEmptyReference
     else (let ref = str_before (CHR ''@'') ref1 in
       (case str_split (CHR ''/'') ref of
          [p] \<Rightarrow> if defaultNamespace = [] then Inl (ErrBareReference ref)
                 else Inr (defaultNamespace @ ''/'' @ p)
        | [p, q] \<Rightarrow> if p = [] \<or> q = [] then Inl (ErrMalformedReference ref) else Inr ref
        | _ \<Rightarrow> Inl (ErrMalformedReference ref))))"

section \<open>Selection and addresses\<close>

definition selects :: "string \<Rightarrow> NetworkStatus \<Rightarrow> bool" where
  "selects canonicalNAD e \<longleftrightarrow> \<not> ns_Default e \<and> ns_Name e = canonicalNAD"

definition Select :: "NetworkStatus list \<Rightarrow> string \<Rightarrow> go_error + NetworkStatus" where
  "Select l canonicalNAD = (case filter (selects canonicalNAD) l of
      [] \<Rightarrow> Inl ErrNoAttachment
    | [e] \<Rightarrow> Inr e
    | found \<Rightarrow> Inl (ErrAmbiguous (map ns_Interface found)))"

definition bare_address :: "string \<Rightarrow> string option" where
  "bare_address raw0 = (let raw1 = trim_space raw0 in
     if raw1 = [] then None
     else (let raw = str_before (CHR ''/'') raw1 in if parse_ip raw = None then None else Some raw))"

definition Addresses :: "NetworkStatus \<Rightarrow> string list" where
  "Addresses n = List.map_filter bare_address (ns_IPs n)"

section \<open>Lemmas\<close>

lemma Select_ok_iff: "Select l nad = Inr e \<longleftrightarrow> filter (selects nad) l = [e]"
  by (auto simp: Select_def split: list.splits)

lemma Select_none_iff: "Select l nad = Inl ErrNoAttachment \<longleftrightarrow> filter (selects nad) l = []"
  by (auto simp: Select_def split: list.splits)

lemma Select_ambiguous_iff:
  "Select l nad = Inl (ErrAmbiguous is) \<longleftrightarrow>
     2 \<le> length (filter (selects nad) l) \<and> is = map ns_Interface (filter (selects nad) l)"
  by (auto simp: Select_def split: list.splits)

lemma Select_cases:
  obtains "Select l nad = Inl ErrNoAttachment"
        | e where "Select l nad = Inr e"
        | "is" where "Select l nad = Inl (ErrAmbiguous is)"
  by (cases "filter (selects nad) l" rule: remdups_adj.cases) (auto simp: Select_def)

lemma Addresses_parse: "ip \<in> set (Addresses n) \<Longrightarrow> parse_ip ip \<noteq> None \<and> CHR ''/'' \<notin> set ip"
  by (auto simp: Addresses_def bare_address_def Let_def List.map_filter_def split: if_splits)

text \<open>The bytes of a well-formed reference: printable ASCII.\<close>

definition plain_ref :: "string \<Rightarrow> bool" where
  "plain_ref s \<longleftrightarrow> (\<forall>c \<in> set s. plain_char c)"

lemma trim_space_plain_ref: "plain_ref s \<Longrightarrow> trim_space s = s"
  by (cases "s = []") (auto simp: plain_ref_def intro: trim_space_plain)

lemma plain_ref_before: "plain_ref s \<Longrightarrow> plain_ref (str_before c s)"
  by (auto simp: plain_ref_def str_before_def dest: set_takeWhileD)

lemma CanonicalNAD_shape:
  assumes ok: "CanonicalNAD ref ns = Inr c" and ns: "CHR ''/'' \<notin> set ns"
    and named: "str_before (CHR ''@'') (trim_space ref) \<noteq> []"
  shows "\<exists>p q. c = p @ CHR ''/'' # q \<and> p \<noteq> [] \<and> q \<noteq> [] \<and> CHR ''/'' \<notin> set p \<and> CHR ''/'' \<notin> set q"
proof -
  define r where "r = str_before (CHR ''@'') (trim_space ref)"
  have join: "str_join ''/'' (str_split (CHR ''/'') r) = r" by (rule str_join_split)
  have parts: "p \<in> set (str_split (CHR ''/'') r) \<Longrightarrow> CHR ''/'' \<notin> set p" for p
    by (rule str_split_parts)
  show ?thesis
  proof (cases "str_split (CHR ''/'') r" rule: remdups_adj.cases)
    case 1
    then show ?thesis by simp
  next
    case (2 p)
    with ok join have "c = ns @ CHR ''/'' # p" "ns \<noteq> []" "p = r"
      by (auto simp: CanonicalNAD_def Let_def r_def split: if_splits)
    with ns named parts [of p] 2 show ?thesis by (auto simp: r_def)
  next
    case (3 p q rest)
    with ok have rest: "rest = []" "p \<noteq> []" "q \<noteq> []" "c = r"
      by (auto simp: CanonicalNAD_def Let_def r_def split: if_splits list.splits)
    with join 3 have "c = p @ CHR ''/'' # q" by simp
    with rest parts 3 show ?thesis by auto
  qed
qed

end
