(* ===== verification/Attach.thy ===== *)
theory Attach
  imports Model Network_Status
begin

text \<open>
  \<^verbatim>\<open>internal/attach\<close>: the annotation contract of a Service, which Pods count, the expansion of
  a Pod into attachments, and the probe settings of a network. The fields of the Kubernetes
  objects are those the code reads. The label-selector library is outside the repository: a
  record of its two functions is an argument of the definitions that use it.
\<close>

section \<open>Kubernetes objects\<close>

record IntOrString =
  ios_Type :: int
  ios_IntVal :: int
  ios_StrVal :: string

record ServicePort =
  sp_Name :: string
  sp_Protocol :: string
  sp_Port :: int
  sp_TargetPort :: IntOrString

record Service =
  svc_Name :: string
  svc_Namespace :: string
  svc_UID :: string
  svc_Annotations :: "(string, string) gomap"
  svc_ClusterIP :: string
  svc_Selector :: "(string, string) gomap"
  svc_Ports :: "ServicePort list"

record PodCondition =
  cond_Type :: string
  cond_Status :: string

record Pod =
  pod_UID :: string
  pod_Name :: string
  pod_Namespace :: string
  pod_Annotations :: "(string, string) gomap"
  pod_Labels :: "(string, string) gomap"
  pod_DeletionTimestamp :: "int option"
  pod_Phase :: string
  pod_Conditions :: "PodCondition list"
  pod_NodeName :: string
  pod_ServiceAccountName :: string

record NadObject =
  nad_Namespace :: string
  nad_Name :: string
  nad_Annotations :: "(string, string) gomap"

record 'sel label_lib =
  lbl_Parse :: "string \<Rightarrow> 'sel option"
  lbl_Matches :: "'sel \<Rightarrow> (string, string) gomap \<Rightarrow> bool"

section \<open>The Service contract\<close>

definition AnnotationNetwork :: string where
  "AnnotationNetwork = ''secondary-service.boanlab.io/network''"

definition AnnotationSelector :: string where
  "AnnotationSelector = ''secondary-service.boanlab.io/workload-selector''"

definition ManagedBy :: string where
  "ManagedBy = ''secondary-service.boanlab.io''"

definition Managed :: "Service \<Rightarrow> bool" where
  "Managed svc \<longleftrightarrow> gm_get (svc_Annotations svc) AnnotationNetwork \<noteq> None"

text \<open>\<open>None\<close> is the nil error.\<close>

definition Validate :: "Service \<Rightarrow> go_error option" where
  "Validate svc =
     (if svc_ClusterIP svc \<noteq> ''None'' then Some (ErrNotHeadless (svc_ClusterIP svc))
      else if 0 < length (svc_Selector svc) then Some ErrSelectorSet
      else None)"

definition NAD_of :: "Service \<Rightarrow> go_error + string" where
  "NAD_of svc = CanonicalNAD (gm_str (svc_Annotations svc) AnnotationNetwork) (svc_Namespace svc)"

definition Selector_of :: "'sel label_lib \<Rightarrow> Service \<Rightarrow> go_error + 'sel" where
  "Selector_of L svc = (case gm_get (svc_Annotations svc) AnnotationSelector of
      None \<Rightarrow> Inl ErrSelectorRequired
    | Some raw \<Rightarrow> if raw = [] then Inl ErrSelectorRequired
        else (case lbl_Parse L raw of None \<Rightarrow> Inl (ErrSelectorSyntax raw) | Some s \<Rightarrow> Inr s))"

section \<open>Pods\<close>

definition Eligible :: "Pod \<Rightarrow> bool" where
  "Eligible pod =
     (if pod_DeletionTimestamp pod \<noteq> None then False
      else if pod_Phase pod = ''Succeeded'' \<or> pod_Phase pod = ''Failed'' then False
      else True)"

definition PodReady :: "Pod \<Rightarrow> bool" where
  "PodReady pod = (case find (\<lambda>c. cond_Type c = ''Ready'') (pod_Conditions pod) of
      None \<Rightarrow> False | Some c \<Rightarrow> cond_Status c = ''True'')"

definition FromPod :: "Pod \<Rightarrow> string \<Rightarrow> go_error + Attachment list" where
  "FromPod pod nad = (case Parse (gm_str (pod_Annotations pod) StatusAnnotation) of
      Inl e \<Rightarrow> Inl e
    | Inr l \<Rightarrow> (case Select l nad of
        Inl e \<Rightarrow> Inl e
      | Inr entry \<Rightarrow> Inr (map (\<lambda>ip. \<lparr>att_PodUID = pod_UID pod, att_PodName = pod_Name pod,
            att_PodNamespace = pod_Namespace pod, att_NodeName = pod_NodeName pod, att_NAD = nad,
            att_Interface = ns_Interface entry, att_IP = ip, att_PodReady = PodReady pod\<rparr>)
          (Addresses entry))))"

section \<open>Probe settings\<close>

definition NADProbeScope :: string where
  "NADProbeScope = ''secondary-service.boanlab.io/probe-scope''"

definition NADHealthTarget :: string where
  "NADHealthTarget = ''secondary-service.boanlab.io/health-target''"

definition NADSourceInterface :: string where
  "NADSourceInterface = ''secondary-service.boanlab.io/source-interface''"

definition probeAnnotations :: "string list" where
  "probeAnnotations = [NADProbeScope, NADHealthTarget, NADSourceInterface]"

definition ProbeConfigOnService :: "Service \<Rightarrow> string list" where
  "ProbeConfigOnService svc = sort (filter (\<lambda>a. gm_get (svc_Annotations svc) a \<noteq> None) probeAnnotations)"

definition ParseProbeScope :: "string \<Rightarrow> ProbeScope \<times> go_error option" where
  "ParseProbeScope raw =
     (if raw = [] \<or> raw = ''endpoint'' \<or> raw = ''Endpoint'' then (ScopeEndpoint, None)
      else if raw = ''node'' \<or> raw = ''Node'' then (ScopeNode, None)
      else (ScopeEndpoint, Some (ErrUnknownScope raw)))"

definition SplitNAD :: "string \<Rightarrow> go_error + string \<times> string" where
  "SplitNAD canonical = (case str_splitN2 (CHR ''/'') canonical of
      [p, q] \<Rightarrow> if p = [] \<or> q = [] then Inl (ErrNotCanonical canonical) else Inr (p, q)
    | _ \<Rightarrow> Inl (ErrNotCanonical canonical))"

record ProbeConfig =
  pc_Scope :: ProbeScope
  pc_Target :: string
  pc_SourceInterface :: string

definition zero_ProbeConfig :: ProbeConfig where
  "zero_ProbeConfig = \<lparr>pc_Scope = ScopeUnset, pc_Target = [], pc_SourceInterface = []\<rparr>"

definition Configured :: "ProbeConfig \<Rightarrow> bool" where
  "Configured p \<longleftrightarrow> pc_Target p \<noteq> []"

definition ProbeFromNAD :: "NadObject \<Rightarrow> go_error + ProbeConfig" where
  "ProbeFromNAD u = (let ann = nad_Annotations u in
     (case ParseProbeScope (gm_str ann NADProbeScope) of
        (_, Some e) \<Rightarrow> Inl e
      | (scope, None) \<Rightarrow> Inr \<lparr>pc_Scope = scope,
          pc_Target = trim_space (gm_str ann NADHealthTarget),
          pc_SourceInterface = trim_space (gm_str ann NADSourceInterface)\<rparr>))"

section \<open>Lemmas\<close>

lemma Validate_None_iff: "Validate svc = None \<longleftrightarrow> svc_ClusterIP svc = ''None'' \<and> svc_Selector svc = []"
  by (simp add: Validate_def)

lemma Eligible_iff:
  "Eligible pod \<longleftrightarrow> pod_DeletionTimestamp pod = None \<and> pod_Phase pod \<notin> {''Succeeded'', ''Failed''}"
  by (simp add: Eligible_def)

text \<open>Everything an attachment of a Pod says comes from the Pod, the network and one entry.\<close>

lemma FromPod_ok:
  assumes "FromPod pod nad = Inr atts" and "a \<in> set atts"
  obtains l e where "Parse (gm_str (pod_Annotations pod) StatusAnnotation) = Inr l"
    and "filter (selects nad) l = [e]" and "att_IP a \<in> set (Addresses e)"
    and "att_PodUID a = pod_UID pod" and "att_NodeName a = pod_NodeName pod"
    and "att_NAD a = nad" and "att_Interface a = ns_Interface e" and "att_PodReady a = PodReady pod"
    and "att_PodNamespace a = pod_Namespace pod" and "att_PodName a = pod_Name pod"
proof -
  from assms(1) obtain l e where l: "Parse (gm_str (pod_Annotations pod) StatusAnnotation) = Inr l"
    and e: "Select l nad = Inr e"
    by (auto simp: FromPod_def split: sum.splits)
  from assms l e obtain ip where ip: "ip \<in> set (Addresses e)" and
    a: "a = \<lparr>att_PodUID = pod_UID pod, att_PodName = pod_Name pod,
            att_PodNamespace = pod_Namespace pod, att_NodeName = pod_NodeName pod, att_NAD = nad,
            att_Interface = ns_Interface e, att_IP = ip, att_PodReady = PodReady pod\<rparr>"
    by (auto simp: FromPod_def)
  show thesis
    by (rule that [OF l e [unfolded Select_ok_iff]]) (simp_all add: a ip)
qed

lemma FromPod_error_iff:
  "FromPod pod nad = Inl e \<longleftrightarrow>
     Parse (gm_str (pod_Annotations pod) StatusAnnotation) = Inl e \<or>
     (\<exists>l. Parse (gm_str (pod_Annotations pod) StatusAnnotation) = Inr l \<and> Select l nad = Inl e)"
proof (cases "Parse (gm_str (pod_Annotations pod) StatusAnnotation)")
  case (Inl e')
  then show ?thesis by (simp add: FromPod_def)
next
  case (Inr l)
  then show ?thesis by (cases "Select l nad") (simp_all add: FromPod_def)
qed

lemma Parse_errors: "Parse v = Inl e \<Longrightarrow> e = ErrSyntax"
  unfolding Parse_def by (simp add: Let_def split: if_split_asm option.split_asm)

lemma SplitNAD_ok_iff:
  "SplitNAD c = Inr (p, q) \<longleftrightarrow> CHR ''/'' \<notin> set p \<and> p \<noteq> [] \<and> q \<noteq> [] \<and> c = p @ CHR ''/'' # q"
proof
  assume l: "SplitNAD c = Inr (p, q)"
  then have slash: "CHR ''/'' \<in> set c" and p: "p = str_before (CHR ''/'') c"
    and q: "q = tl (dropWhile (\<lambda>x. x \<noteq> CHR ''/'') c)" and ne: "p \<noteq> []" "q \<noteq> []"
    by (auto simp: SplitNAD_def str_splitN2_def str_contains_def split: if_splits)
  have "dropWhile (\<lambda>x. x \<noteq> CHR ''/'') c = CHR ''/'' # q"
    using slash q by (induction c) auto
  then have "c = p @ CHR ''/'' # q"
    using takeWhile_dropWhile_id [of "\<lambda>x. x \<noteq> CHR ''/''" c] by (simp add: p str_before_def)
  moreover have "CHR ''/'' \<notin> set p" by (simp add: p)
  ultimately show "CHR ''/'' \<notin> set p \<and> p \<noteq> [] \<and> q \<noteq> [] \<and> c = p @ CHR ''/'' # q"
    using ne by blast
next
  assume "CHR ''/'' \<notin> set p \<and> p \<noteq> [] \<and> q \<noteq> [] \<and> c = p @ CHR ''/'' # q"
  then show "SplitNAD c = Inr (p, q)" by (simp add: SplitNAD_def str_splitN2_append)
qed

end
