(* ===== verification/Registry.thy ===== *)
theory Registry
  imports Attach
begin

text \<open>
  \<^verbatim>\<open>internal/controller/registry.go\<close>: what the controller knows to exist. The derived maps are
  rebuilt from the per-Service entries on every change; \<open>publishes\<close> is the abstract view the
  queries are proved to answer. The locale \<open>publication\<close> is the interface the report
  admission relies on.
\<close>

declare split_paired_Ex [simp del] split_paired_All [simp del]

section \<open>State and operations\<close>

record serviceEntry =
  se_atts :: "Attachment list"
  se_scope :: ProbeScope

record Registry =
  rg_byService :: "(nsname, serviceEntry) gomap"
  rg_attachments :: "(string, Attachment) gomap"
  rg_attOwners :: "(string, nsname list) gomap"
  rg_pathOwners :: "(string, nsname list) gomap"
  rg_pathNodes :: "(string, (string, bool) gomap) gomap"

definition NewRegistry :: Registry where
  "NewRegistry = \<lparr>rg_byService = [], rg_attachments = [], rg_attOwners = [], rg_pathOwners = [], rg_pathNodes = []\<rparr>"

definition appendUnique :: "nsname list \<Rightarrow> nsname \<Rightarrow> nsname list" where
  "appendUnique l key = (if key \<in> set l then l else l @ [key])"

text \<open>A missing list or set reads as the empty one.\<close>

definition gm_list :: "('k, 'a list) gomap \<Rightarrow> 'k \<Rightarrow> 'a list" where
  "gm_list m k = (case gm_get m k of None \<Rightarrow> [] | Some l \<Rightarrow> l)"

text \<open>The body of \<^verbatim>\<open>rebuildLocked\<close>'s inner loop.\<close>

definition rebuild_att :: "nsname \<Rightarrow> ProbeScope \<Rightarrow> Attachment \<Rightarrow> Registry \<Rightarrow> Registry" where
  "rebuild_att key scope a r = (let aid = ID a; pk = PathKey a scope in
     r\<lparr>rg_attachments := gm_put aid a (rg_attachments r),
       rg_attOwners := gm_put aid (appendUnique (gm_list (rg_attOwners r) aid) key) (rg_attOwners r),
       rg_pathOwners := gm_put pk (appendUnique (gm_list (rg_pathOwners r) pk) key) (rg_pathOwners r),
       rg_pathNodes := gm_put pk (gm_put (att_NodeName a) True (gm_list (rg_pathNodes r) pk)) (rg_pathNodes r)\<rparr>)"

definition rebuildLocked :: "Registry \<Rightarrow> Registry" where
  "rebuildLocked r =
     fold (\<lambda>(key, e). fold (rebuild_att key (se_scope e)) (se_atts e)) (rg_byService r)
       (r\<lparr>rg_attachments := [], rg_attOwners := [], rg_pathOwners := [], rg_pathNodes := []\<rparr>)"

definition SetService :: "nsname \<Rightarrow> Attachment list \<Rightarrow> ProbeScope \<Rightarrow> Registry \<Rightarrow> Registry" where
  "SetService key atts scope r =
     rebuildLocked (r\<lparr>rg_byService := gm_put key \<lparr>se_atts = atts, se_scope = scope\<rparr> (rg_byService r)\<rparr>)"

definition RemoveService :: "nsname \<Rightarrow> Registry \<Rightarrow> Registry" where
  "RemoveService key r = rebuildLocked (r\<lparr>rg_byService := gm_del key (rg_byService r)\<rparr>)"

definition reg_Attachment :: "Registry \<Rightarrow> string \<Rightarrow> Attachment \<times> nsname list \<times> bool" where
  "reg_Attachment r aid = (case gm_get (rg_attachments r) aid of
      None \<Rightarrow> (zero_Attachment, [], False)
    | Some a \<Rightarrow> (a, gm_list (rg_attOwners r) aid, True))"

definition reg_PathKey :: "Registry \<Rightarrow> string \<Rightarrow> nsname list \<times> bool" where
  "reg_PathKey r key = (case gm_get (rg_pathOwners r) key of
      None \<Rightarrow> ([], False)
    | Some owners \<Rightarrow> (owners, True))"

definition reg_PathKeyOnNode :: "Registry \<Rightarrow> string \<Rightarrow> string \<Rightarrow> bool" where
  "reg_PathKeyOnNode r pathKey node = (let nodes = gm_list (rg_pathNodes r) pathKey in
     length nodes = 1 \<and> gm_get nodes node = Some True)"

definition reg_Len :: "Registry \<Rightarrow> nat \<times> nat" where
  "reg_Len r = (length (rg_attachments r), length (rg_pathOwners r))"

section \<open>The abstract view\<close>

definition publishes :: "Registry \<Rightarrow> nsname \<Rightarrow> ProbeScope \<Rightarrow> Attachment \<Rightarrow> bool" where
  "publishes r key scope a \<longleftrightarrow> (\<exists>e. gm_get (rg_byService r) key = Some e \<and> se_scope e = scope \<and> a \<in> set (se_atts e))"

definition reg_ok :: "Registry \<Rightarrow> bool" where
  "reg_ok r \<longleftrightarrow> gm_wf (rg_byService r) \<and> rebuildLocked r = r"

text \<open>The attachments in the order the two loops visit them.\<close>

definition flat_entries :: "(nsname, serviceEntry) gomap \<Rightarrow> (nsname \<times> ProbeScope \<times> Attachment) list" where
  "flat_entries m = concat (map (\<lambda>(k, e). map (\<lambda>a. (k, se_scope e, a)) (se_atts e)) m)"

definition cleared :: "Registry \<Rightarrow> Registry" where
  "cleared r = r\<lparr>rg_attachments := [], rg_attOwners := [], rg_pathOwners := [], rg_pathNodes := []\<rparr>"

lemma fold_entries:
  "fold (\<lambda>(key, e). fold (rebuild_att key (se_scope e)) (se_atts e)) m s
     = fold (\<lambda>(k, sc, a). rebuild_att k sc a) (flat_entries m) s"
  by (induction m arbitrary: s) (auto simp: flat_entries_def fold_map comp_def)

lemma rebuild_flat:
  "rebuildLocked r = fold (\<lambda>(k, sc, a). rebuild_att k sc a) (flat_entries (rg_byService r)) (cleared r)"
  by (simp add: rebuildLocked_def cleared_def fold_entries)

lemma flat_entries_iff:
  assumes "gm_wf (rg_byService r)"
  shows "(k, sc, a) \<in> set (flat_entries (rg_byService r)) \<longleftrightarrow> publishes r k sc a"
proof -
  have "(k, sc, a) \<in> set (flat_entries m) \<longleftrightarrow> (\<exists>e. (k, e) \<in> set m \<and> se_scope e = sc \<and> a \<in> set (se_atts e))"
    for m :: "(nsname, serviceEntry) gomap"
    unfolding flat_entries_def by (induction m) (auto simp del: split_paired_Ex)
  then show ?thesis by (simp add: publishes_def gm_mem_iff [OF assms])
qed

text \<open>What the loops have computed after visiting the list \<open>xs\<close>.\<close>

definition rebuilt :: "(nsname \<times> ProbeScope \<times> Attachment) list \<Rightarrow> Registry \<Rightarrow> bool" where
  "rebuilt xs r \<longleftrightarrow>
     gm_wf (rg_attachments r) \<and> gm_wf (rg_pathOwners r) \<and>
     (\<forall>i. case gm_get (rg_attachments r) i of
        None \<Rightarrow> (\<forall>(k, sc, a) \<in> set xs. ID a \<noteq> i)
      | Some a \<Rightarrow> ID a = i \<and> (\<exists>k sc. (k, sc, a) \<in> set xs)) \<and>
     (\<forall>i. distinct (gm_list (rg_attOwners r) i) \<and>
        set (gm_list (rg_attOwners r) i) = {k. \<exists>sc a. (k, sc, a) \<in> set xs \<and> ID a = i}) \<and>
     (\<forall>p. gm_get (rg_pathOwners r) p = None \<longleftrightarrow> (\<forall>(k, sc, a) \<in> set xs. PathKey a sc \<noteq> p)) \<and>
     (\<forall>p. distinct (gm_list (rg_pathOwners r) p) \<and>
        set (gm_list (rg_pathOwners r) p) = {k. \<exists>sc a. (k, sc, a) \<in> set xs \<and> PathKey a sc = p}) \<and>
     (\<forall>p. gm_wf (gm_list (rg_pathNodes r) p) \<and>
        (\<forall>n. gm_get (gm_list (rg_pathNodes r) p) n =
           (if \<exists>k sc a. (k, sc, a) \<in> set xs \<and> PathKey a sc = p \<and> att_NodeName a = n then Some True else None)))"

lemma set_appendUnique [simp]: "set (appendUnique l k) = insert k (set l)"
  by (auto simp: appendUnique_def)

lemma distinct_appendUnique [simp]: "distinct (appendUnique l k) \<longleftrightarrow> distinct l"
  by (auto simp: appendUnique_def)

lemma gm_list_put [simp]: "gm_list (gm_put k v m) k' = (if k' = k then v else gm_list m k')"
  by (simp add: gm_list_def)

lemma gm_list_Nil [simp]: "gm_list [] k = []"
  by (simp add: gm_list_def)

lemma ball_triple: "(\<forall>(x, y, z) \<in> S. P x y z) \<longleftrightarrow> (\<forall>x y z. (x, y, z) \<in> S \<longrightarrow> P x y z)"
  by auto

lemma rebuilt_Nil: "rebuilt [] (cleared r)"
  by (simp add: rebuilt_def cleared_def)

lemma rebuilt_step:
  assumes "rebuilt xs r"
  shows "rebuilt (xs @ [(k, sc, a)]) (rebuild_att k sc a r)"
proof -
  let ?r = "rebuild_att k sc a r"
  have att: "rg_attachments ?r = gm_put (ID a) a (rg_attachments r)"
    and ow: "gm_list (rg_attOwners ?r) i = (if i = ID a then appendUnique (gm_list (rg_attOwners r) i) k
               else gm_list (rg_attOwners r) i)"
    and po: "rg_pathOwners ?r = gm_put (PathKey a sc) (appendUnique (gm_list (rg_pathOwners r) (PathKey a sc)) k) (rg_pathOwners r)"
    and pn: "gm_list (rg_pathNodes ?r) p = (if p = PathKey a sc then gm_put (att_NodeName a) True (gm_list (rg_pathNodes r) p)
               else gm_list (rg_pathNodes r) p)" for i p
    by (simp_all add: rebuild_att_def Let_def)
  note old = assms [unfolded rebuilt_def]
  show ?thesis unfolding rebuilt_def
  proof (intro conjI allI)
    show "gm_wf (rg_attachments ?r)" "gm_wf (rg_pathOwners ?r)"
      using old by (auto simp: att po)
    show "case gm_get (rg_attachments ?r) i of
        None \<Rightarrow> (\<forall>(k, sc, a) \<in> set (xs @ [(k, sc, a)]). ID a \<noteq> i)
      | Some a' \<Rightarrow> ID a' = i \<and> (\<exists>k' sc'. (k', sc', a') \<in> set (xs @ [(k, sc, a)]))" for i
    proof (cases "i = ID a")
      case True
      then show ?thesis by (auto simp: att simp del: split_paired_Ex)
    next
      case False
      have "case gm_get (rg_attachments r) i of
          None \<Rightarrow> (\<forall>(k, sc, a) \<in> set xs. ID a \<noteq> i)
        | Some a' \<Rightarrow> ID a' = i \<and> (\<exists>k' sc'. (k', sc', a') \<in> set xs)"
        using old by blast
      with False show ?thesis
        by (cases "gm_get (rg_attachments r) i") (auto simp: att)
    qed
    show "distinct (gm_list (rg_attOwners ?r) i)" for i using old by (simp add: ow)
    show "set (gm_list (rg_attOwners ?r) i) = {k'. \<exists>sc' a'. (k', sc', a') \<in> set (xs @ [(k, sc, a)]) \<and> ID a' = i}" for i
      using old by (auto simp: ow)
    show "gm_get (rg_pathOwners ?r) p = None \<longleftrightarrow> (\<forall>(k, sc, a) \<in> set (xs @ [(k, sc, a)]). PathKey a sc \<noteq> p)" for p
      using old by (auto simp: po)
    show "distinct (gm_list (rg_pathOwners ?r) p)" for p using old by (simp add: po)
    show "set (gm_list (rg_pathOwners ?r) p) = {k'. \<exists>sc' a'. (k', sc', a') \<in> set (xs @ [(k, sc, a)]) \<and> PathKey a' sc' = p}" for p
      using old by (auto simp: po)
    show "gm_wf (gm_list (rg_pathNodes ?r) p)" for p using old by (simp add: pn)
    show "gm_get (gm_list (rg_pathNodes ?r) p) n =
       (if \<exists>k' sc' a'. (k', sc', a') \<in> set (xs @ [(k, sc, a)]) \<and> PathKey a' sc' = p \<and> att_NodeName a' = n
        then Some True else None)" for p n
    proof -
      define N where "N ys \<longleftrightarrow> (\<exists>k sc a. (k, sc, a) \<in> set ys \<and> PathKey a sc = p \<and> att_NodeName a = n)"
        for ys :: "(nsname \<times> ProbeScope \<times> Attachment) list"
      have step: "N (xs @ [(k, sc, a)]) \<longleftrightarrow> N xs \<or> (PathKey a sc = p \<and> att_NodeName a = n)"
        unfolding N_def by auto
      have "gm_get (gm_list (rg_pathNodes r) p) n = (if N xs then Some True else None)"
        unfolding N_def using old by blast
      then have "gm_get (gm_list (rg_pathNodes ?r) p) n = (if N (xs @ [(k, sc, a)]) then Some True else None)"
        by (auto simp: pn step)
      then show ?thesis unfolding N_def .
    qed
  qed
qed

lemma rebuilt_fold: "rebuilt xs (fold (\<lambda>(k, sc, a). rebuild_att k sc a) xs (cleared r))"
  by (induction xs rule: rev_induct) (auto simp: rebuilt_Nil intro: rebuilt_step)

lemma rebuilt_rebuild: "rebuilt (flat_entries (rg_byService r)) (rebuildLocked r)"
  unfolding rebuild_flat by (rule rebuilt_fold)


section \<open>The invariant\<close>

lemma rebuilt_byService: "rg_byService (fold (\<lambda>(k, sc, a). rebuild_att k sc a) xs r) = rg_byService r"
  by (induction xs arbitrary: r) (auto simp: rebuild_att_def Let_def)

lemma byService_rebuildLocked [simp]: "rg_byService (rebuildLocked r) = rg_byService r"
  by (simp add: rebuild_flat rebuilt_byService cleared_def)

lemma rebuildLocked_idem [simp]: "rebuildLocked (rebuildLocked r) = rebuildLocked r"
proof -
  have "cleared (rebuildLocked r) = cleared r"
    using byService_rebuildLocked [of r] unfolding cleared_def
    by (cases r; cases "rebuildLocked r") (simp del: byService_rebuildLocked)
  then show ?thesis
    unfolding rebuild_flat [of "rebuildLocked r"] byService_rebuildLocked
    by (simp only: rebuild_flat [of r])
qed

lemma reg_ok_New [simp, goinv]: "reg_ok NewRegistry"
  by (simp add: reg_ok_def NewRegistry_def rebuild_flat flat_entries_def cleared_def)

lemma reg_ok_Set [simp, goinv]: "reg_ok r \<Longrightarrow> reg_ok (SetService k atts sc r)"
  by (simp add: reg_ok_def SetService_def)

lemma reg_ok_Remove [simp, goinv]: "reg_ok r \<Longrightarrow> reg_ok (RemoveService k r)"
  by (simp add: reg_ok_def RemoveService_def)

lemma publishes_New [simp]: "\<not> publishes NewRegistry k sc a"
  by (simp add: publishes_def NewRegistry_def)

lemma publishes_Set [simp]:
  "publishes (SetService k atts sc r) k' sc' a \<longleftrightarrow>
     (if k' = k then sc' = sc \<and> a \<in> set atts else publishes r k' sc' a)"
  by (auto simp: publishes_def SetService_def)

lemma publishes_Remove [simp]:
  "publishes (RemoveService k r) k' sc' a \<longleftrightarrow> k' \<noteq> k \<and> publishes r k' sc' a"
  by (auto simp: publishes_def RemoveService_def)

lemma reg_rebuilt:
  assumes "reg_ok r" shows "rebuilt (flat_entries (rg_byService r)) r"
  using rebuilt_rebuild [of r] assms by (simp add: reg_ok_def)

section \<open>What the queries answer\<close>

lemma reg_entries:
  assumes "reg_ok r"
  shows "(k, sc, a) \<in> set (flat_entries (rg_byService r)) \<longleftrightarrow> publishes r k sc a"
  using assms by (intro flat_entries_iff) (simp add: reg_ok_def)

lemma attachments_lookup:
  assumes "reg_ok r"
  shows "case gm_get (rg_attachments r) i of
      None \<Rightarrow> (\<forall>k sc a. publishes r k sc a \<longrightarrow> ID a \<noteq> i)
    | Some a \<Rightarrow> ID a = i \<and> (\<exists>k sc. publishes r k sc a)"
proof -
  have "case gm_get (rg_attachments r) i of
        None \<Rightarrow> (\<forall>(k, sc, a) \<in> set (flat_entries (rg_byService r)). ID a \<noteq> i)
      | Some a \<Rightarrow> ID a = i \<and> (\<exists>k sc. (k, sc, a) \<in> set (flat_entries (rg_byService r)))"
    using reg_rebuilt [OF assms] unfolding rebuilt_def by blast
  then show ?thesis
    by (cases "gm_get (rg_attachments r) i") (auto simp: reg_entries [OF assms, symmetric])
qed

lemma known_iff:
  assumes "reg_ok r"
  shows "snd (snd (reg_Attachment r i)) \<longleftrightarrow> (\<exists>k sc a. publishes r k sc a \<and> ID a = i)"
  using attachments_lookup [OF assms, of i]
  by (cases "gm_get (rg_attachments r) i") (auto simp: reg_Attachment_def simp del: split_paired_Ex)

lemma known_sound:
  assumes "reg_ok r" and "reg_Attachment r i = (a, ks, True)"
  shows "ID a = i \<and> (\<exists>k sc. publishes r k sc a) \<and> distinct ks \<and>
    set ks = {k. \<exists>sc a'. publishes r k sc a' \<and> ID a' = i}"
proof -
  from assms(2) have g: "gm_get (rg_attachments r) i = Some a" and ks: "ks = gm_list (rg_attOwners r) i"
    by (auto simp: reg_Attachment_def split: option.splits)
  have "distinct (gm_list (rg_attOwners r) i) \<and>
        set (gm_list (rg_attOwners r) i) = {k. \<exists>sc a. (k, sc, a) \<in> set (flat_entries (rg_byService r)) \<and> ID a = i}"
    using reg_rebuilt [OF assms(1)] unfolding rebuilt_def by blast
  with g show ?thesis
    using attachments_lookup [OF assms(1), of i] by (simp add: ks reg_entries [OF assms(1)])
qed

lemma pathkey_iff:
  assumes "reg_ok r"
  shows "snd (reg_PathKey r p) \<longleftrightarrow> (\<exists>k sc a. publishes r k sc a \<and> PathKey a sc = p)"
proof -
  have "gm_get (rg_pathOwners r) p = None \<longleftrightarrow>
      (\<forall>(k, sc, a) \<in> set (flat_entries (rg_byService r)). PathKey a sc \<noteq> p)"
    using reg_rebuilt [OF assms] unfolding rebuilt_def by blast
  also have "\<dots> \<longleftrightarrow> (\<forall>k sc a. publishes r k sc a \<longrightarrow> PathKey a sc \<noteq> p)"
    by (simp only: ball_triple reg_entries [OF assms])
  finally show ?thesis
    by (auto simp: reg_PathKey_def split: option.splits simp del: split_paired_Ex split_paired_All)
qed

lemma pathkey_sound:
  assumes "reg_ok r" and "reg_PathKey r p = (ks, True)"
  shows "distinct ks \<and> set ks = {k. \<exists>sc a. publishes r k sc a \<and> PathKey a sc = p}"
proof -
  have "ks = gm_list (rg_pathOwners r) p"
    using assms(2) by (auto simp: reg_PathKey_def gm_list_def split: option.splits)
  moreover have "distinct (gm_list (rg_pathOwners r) p) \<and>
      set (gm_list (rg_pathOwners r) p) = {k. \<exists>sc a. (k, sc, a) \<in> set (flat_entries (rg_byService r)) \<and> PathKey a sc = p}"
    using reg_rebuilt [OF assms(1)] unfolding rebuilt_def by blast
  ultimately show ?thesis by (simp add: reg_entries [OF assms(1)])
qed

text \<open>A wf map with one key.\<close>

lemma gm_single_iff:
  assumes "gm_wf m"
  shows "length m = 1 \<and> gm_get m n = Some v \<longleftrightarrow> m = [(n, v)]"
proof (cases m)
  case Nil
  then show ?thesis by simp
next
  case (Cons p m')
  then show ?thesis by (cases p) (auto simp: gm_get_def)
qed

definition key_nodes :: "Registry \<Rightarrow> string \<Rightarrow> string set" where
  "key_nodes r p = {att_NodeName a | k sc a. publishes r k sc a \<and> PathKey a sc = p}"

lemma pathNodes_get:
  assumes "reg_ok r"
  shows "gm_wf (gm_list (rg_pathNodes r) p)"
    and "gm_get (gm_list (rg_pathNodes r) p) n = (if n \<in> key_nodes r p then Some True else None)"
proof -
  have *: "gm_wf (gm_list (rg_pathNodes r) p) \<and>
      (\<forall>n. gm_get (gm_list (rg_pathNodes r) p) n = (if \<exists>k sc a. (k, sc, a) \<in> set (flat_entries (rg_byService r)) \<and>
        PathKey a sc = p \<and> att_NodeName a = n then Some True else None))"
    using reg_rebuilt [OF assms] unfolding rebuilt_def by blast
  then show "gm_wf (gm_list (rg_pathNodes r) p)" by simp
  have "n \<in> key_nodes r p \<longleftrightarrow> (\<exists>k sc a. publishes r k sc a \<and> PathKey a sc = p \<and> att_NodeName a = n)"
    unfolding key_nodes_def by blast
  then show "gm_get (gm_list (rg_pathNodes r) p) n = (if n \<in> key_nodes r p then Some True else None)"
    using * by (simp add: reg_entries [OF assms])
qed

lemma path_on_node_iff:
  assumes "reg_ok r"
  shows "reg_PathKeyOnNode r p n \<longleftrightarrow>
    {att_NodeName a | k sc a. publishes r k sc a \<and> PathKey a sc = p} = {n}"
proof -
  let ?m = "gm_list (rg_pathNodes r) p" and ?N = "key_nodes r p"
  note get = pathNodes_get (2) [OF assms, of p]
  have "x \<in> set (gm_keys ?m) \<longleftrightarrow> x \<in> ?N" for x
    unfolding gm_keys_iff get by (cases "x \<in> ?N") auto
  then have "set (gm_keys ?m) = ?N" by blast
  then have len: "length ?m = card ?N"
    using pathNodes_get (1) [OF assms, of p] by (metis distinct_card gm_keys_def gm_wf_def length_map)
  have "reg_PathKeyOnNode r p n \<longleftrightarrow> card ?N = 1 \<and> n \<in> ?N"
    by (simp add: reg_PathKeyOnNode_def len get)
  also have "\<dots> \<longleftrightarrow> ?N = {n}"
    by (metis One_nat_def card_1_singletonE is_singletonI is_singleton_altdef singletonD singletonI)
  finally show ?thesis unfolding key_nodes_def .
qed

section \<open>The interface of the registry\<close>

text \<open>
  What the report admission and the publisher rely on: a query succeeds exactly for what some
  Service publishes, so that a name nobody publishes stays unknown whatever is reported.
\<close>

locale publication =
  fixes ok :: "'r \<Rightarrow> bool"
    and pub :: "'r \<Rightarrow> nsname \<Rightarrow> ProbeScope \<Rightarrow> Attachment \<Rightarrow> bool"
    and known :: "'r \<Rightarrow> string \<Rightarrow> Attachment \<times> nsname list \<times> bool"
    and pathkey :: "'r \<Rightarrow> string \<Rightarrow> nsname list \<times> bool"
    and onnode :: "'r \<Rightarrow> string \<Rightarrow> string \<Rightarrow> bool"
  assumes known: "ok r \<Longrightarrow> known r i = (a, ks, True) \<Longrightarrow>
        ID a = i \<and> (\<exists>k sc. pub r k sc a) \<and> distinct ks \<and>
        set ks = {k. \<exists>sc a'. pub r k sc a' \<and> ID a' = i}"
    and complete: "ok r \<Longrightarrow> pub r k sc a \<Longrightarrow> snd (snd (known r (ID a)))"
    and pathkey: "ok r \<Longrightarrow> snd (pathkey r p) \<longleftrightarrow> (\<exists>k sc a. pub r k sc a \<and> PathKey a sc = p)"
    and pathowners: "ok r \<Longrightarrow> pathkey r p = (ks, True) \<Longrightarrow>
        distinct ks \<and> set ks = {k. \<exists>sc a. pub r k sc a \<and> PathKey a sc = p}"
    and onnode: "ok r \<Longrightarrow> onnode r p n \<longleftrightarrow>
        {att_NodeName a | k sc a. pub r k sc a \<and> PathKey a sc = p} = {n}"
begin

text \<open>Only a published name is known, whatever the store or an agent says.\<close>

lemma unknown:
  assumes "ok r" and "\<And>k sc a. pub r k sc a \<Longrightarrow> ID a \<noteq> i"
  shows "\<not> snd (snd (known r i))"
proof
  assume "snd (snd (known r i))"
  then obtain a ks where "known r i = (a, ks, True)" by (metis prod.collapse)
  with assms show False using known by blast
qed

text \<open>Every owner of a known attachment is told when it changes.\<close>

lemma owners_complete:
  assumes "ok r" and "pub r k sc a"
  obtains a' ks where "known r (ID a) = (a', ks, True)" and "k \<in> set ks" and "ID a' = ID a"
proof -
  obtain a' ks where e: "known r (ID a) = (a', ks, True)"
    using complete [OF assms] by (metis prod.collapse)
  with known [OF assms(1) e] assms(2) show thesis by (intro that [OF e]) auto
qed

lemma path_owners_complete:
  assumes "ok r" and "pub r k sc a"
  obtains ks where "pathkey r (PathKey a sc) = (ks, True)" and "k \<in> set ks"
proof -
  have "snd (pathkey r (PathKey a sc))" using pathkey [OF assms(1)] assms(2) by blast
  then obtain ks where e: "pathkey r (PathKey a sc) = (ks, True)" by (metis prod.collapse)
  with pathowners [OF assms(1) e] assms(2) show thesis by (intro that [OF e]) auto
qed

text \<open>At most one node speaks for a path key, and all its attachments run there.\<close>

lemma one_node:
  assumes "ok r" and "onnode r p n" and "onnode r p n'"
  shows "n = n'"
proof -
  have "{n} = {n'}" using assms(2,3) unfolding onnode [OF assms(1)] by (rule subst)
  then show ?thesis by simp
qed

lemma path_on_its_node:
  assumes "ok r" and "onnode r p n" and "pub r k sc a" and "PathKey a sc = p"
  shows "att_NodeName a = n"
proof -
  have "att_NodeName a \<in> {att_NodeName a | k sc a. pub r k sc a \<and> PathKey a sc = p}"
    using assms(3,4) by blast
  then show ?thesis using assms(1,2) onnode by blast
qed

lemma onnode_known:
  assumes "ok r" and "onnode r p n"
  shows "snd (pathkey r p)"
proof -
  have "n \<in> {att_NodeName a | k sc a. pub r k sc a \<and> PathKey a sc = p}"
    using assms onnode by blast
  then show ?thesis using pathkey [OF assms(1)] by blast
qed

end

interpretation reg: publication reg_ok publishes reg_Attachment reg_PathKey reg_PathKeyOnNode
proof unfold_locales
  show "snd (snd (reg_Attachment r (ID a)))" if "reg_ok r" "publishes r k sc a" for r k sc a
    using that known_iff by blast
qed (rule known_sound pathkey_iff pathkey_sound path_on_node_iff; assumption)+

section \<open>Properties\<close>

text \<open>The two operations, as a history of the registry.\<close>

datatype reg_op = SetOp nsname "Attachment list" ProbeScope | DelOp nsname

fun reg_run :: "reg_op \<Rightarrow> Registry \<Rightarrow> Registry" where
  "reg_run (SetOp k atts sc) r = SetService k atts sc r"
| "reg_run (DelOp k) r = RemoveService k r"

lemma reg_ok_history: "reg_ok (fold reg_run ops NewRegistry)"
proof -
  have "reg_ok r \<Longrightarrow> reg_ok (fold reg_run ops r)" for r
  proof (induction ops arbitrary: r)
    case (Cons op ops)
    then show ?case by (cases op) auto
  qed simp
  then show ?thesis by simp
qed

text \<open>
  C28. After any history of \<^verbatim>\<open>SetService\<close> and \<^verbatim>\<open>RemoveService\<close>, and whatever the order in which
  \<^verbatim>\<open>rebuildLocked\<close> visits the map, an attachment id is known exactly when some Service publishes an
  attachment with that id, and the Services returned with it are exactly those that do, once each;
  likewise for path keys.
\<close>

theorem registry_answers_exactly:
  fixes ops :: "reg_op list" and i p :: string
  defines "r \<equiv> fold reg_run ops NewRegistry"
  shows "(snd (snd (reg_Attachment r i)) \<longleftrightarrow> (\<exists>k sc a. publishes r k sc a \<and> ID a = i)) \<and>
    distinct (fst (snd (reg_Attachment r i))) \<and>
    set (fst (snd (reg_Attachment r i))) = {k. \<exists>sc a. publishes r k sc a \<and> ID a = i} \<and>
    (snd (reg_PathKey r p) \<longleftrightarrow> (\<exists>k sc a. publishes r k sc a \<and> PathKey a sc = p)) \<and>
    set (fst (reg_PathKey r p)) = {k. \<exists>sc a. publishes r k sc a \<and> PathKey a sc = p}"
proof -
  have ok: "reg_ok r" unfolding r_def by (rule reg_ok_history)
  have A: "distinct (fst (snd (reg_Attachment r i))) \<and>
      set (fst (snd (reg_Attachment r i))) = {k. \<exists>sc a. publishes r k sc a \<and> ID a = i}"
  proof (cases "gm_get (rg_attachments r) i")
    case None
    then have "\<not> (\<exists>k sc a. publishes r k sc a \<and> ID a = i)"
      using known_iff [OF ok, of i] by (simp add: reg_Attachment_def)
    then have "{k. \<exists>sc a. publishes r k sc a \<and> ID a = i} = {}" by blast
    with None show ?thesis by (simp add: reg_Attachment_def)
  next
    case (Some a)
    then show ?thesis using known_sound [OF ok, of i a] by (simp add: reg_Attachment_def)
  qed
  have P: "set (fst (reg_PathKey r p)) = {k. \<exists>sc a. publishes r k sc a \<and> PathKey a sc = p}"
  proof (cases "gm_get (rg_pathOwners r) p")
    case None
    then have "\<not> (\<exists>k sc a. publishes r k sc a \<and> PathKey a sc = p)"
      using reg.pathkey [OF ok, of p] by (simp add: reg_PathKey_def)
    then have "{k. \<exists>sc a. publishes r k sc a \<and> PathKey a sc = p} = {}" by blast
    with None show ?thesis by (simp add: reg_PathKey_def)
  next
    case (Some ks)
    then show ?thesis using reg.pathowners [OF ok, of p ks] by (simp add: reg_PathKey_def)
  qed
  show ?thesis
    by (intro conjI known_iff [OF ok] reg.pathkey [OF ok] P conjunct1 [OF A] conjunct2 [OF A])
qed

text \<open>
  A node may report path evidence under a key exactly when the attachments published under that
  key all run on that node and there is at least one; a key that spans nodes authorizes none.
\<close>

theorem path_authority_is_sole_node:
  fixes ops :: "reg_op list"
  defines "r \<equiv> fold reg_run ops NewRegistry"
  shows "reg_PathKeyOnNode r p n \<longleftrightarrow>
    (\<exists>k sc a. publishes r k sc a \<and> PathKey a sc = p) \<and>
    \<not> (\<exists>k sc a. publishes r k sc a \<and> PathKey a sc = p \<and> att_NodeName a \<noteq> n)"
proof -
  have "reg_ok r" unfolding r_def by (rule reg_ok_history)
  note on = reg.onnode [OF this, of p n]
  have "N = {n} \<longleftrightarrow> (\<exists>x. x \<in> N) \<and> \<not> (\<exists>x. x \<in> N \<and> x \<noteq> n)" for N :: "string set" by blast
  then show ?thesis unfolding on by (simp only: mem_Collect_eq) metis
qed

end
