(* ===== verification/Agent_Registry.thy ===== *)
theory Agent_Registry
  imports Registry
begin

text \<open>
  \<^verbatim>\<open>internal/controller/agent_registry.go\<close> and \<^verbatim>\<open>session.go\<close>: which Pods are agents now, and the
  streams bound to each. A cancel function is the number of the stream it cancels; calling it
  puts the number into \<open>sm_cancelled\<close>. The locale \<open>directory\<close> is the contract of a two-index
  directory, the locale \<open>sessions\<close> that of revocation.
\<close>

section \<open>The agent registry\<close>

record AgentInfo =
  ai_PodUID :: string
  ai_PodName :: string
  ai_Namespace :: string
  ai_ServiceAccount :: string
  ai_NodeName :: string

record AgentRegistry =
  ar_byUID :: "(string, AgentInfo) gomap"
  ar_byKey :: "(nsname, string) gomap"

definition NewAgentRegistry :: AgentRegistry where
  "NewAgentRegistry = \<lparr>ar_byUID = [], ar_byKey = []\<rparr>"

definition ByUID :: "AgentRegistry \<Rightarrow> string \<Rightarrow> AgentInfo option" where
  "ByUID r uid = gm_get (ar_byUID r) uid"

definition ar_Len :: "AgentRegistry \<Rightarrow> nat" where
  "ar_Len r = length (ar_byUID r)"

definition ar_upsert :: "nsname \<Rightarrow> AgentInfo \<Rightarrow> AgentRegistry \<Rightarrow> AgentRegistry \<times> string" where
  "ar_upsert key info r = (let uid = ai_PodUID info in
     case gm_get (ar_byKey r) key of
       Some prev \<Rightarrow> if prev \<noteq> uid
         then (r\<lparr>ar_byUID := gm_put uid info (gm_del prev (ar_byUID r)), ar_byKey := gm_put key uid (ar_byKey r)\<rparr>, prev)
         else (r\<lparr>ar_byUID := gm_put uid info (ar_byUID r), ar_byKey := gm_put key uid (ar_byKey r)\<rparr>, [])
     | None \<Rightarrow> (r\<lparr>ar_byUID := gm_put uid info (ar_byUID r), ar_byKey := gm_put key uid (ar_byKey r)\<rparr>, []))"

definition ar_remove :: "nsname \<Rightarrow> AgentRegistry \<Rightarrow> AgentRegistry \<times> string" where
  "ar_remove key r = (case gm_get (ar_byKey r) key of
      Some uid \<Rightarrow> (r\<lparr>ar_byKey := gm_del key (ar_byKey r), ar_byUID := gm_del uid (ar_byUID r)\<rparr>, uid)
    | None \<Rightarrow> (r, []))"

text \<open>
  \<^verbatim>\<open>AgentPodReconciler.Reconcile\<close>. The first argument is the answer of \<^verbatim>\<open>r.Get\<close>; the result has
  the events, the Pod UIDs the removal hook is called with, and the error returned
  (\<^verbatim>\<open>client.IgnoreNotFound\<close>).
\<close>

definition pod_info :: "Pod \<Rightarrow> AgentInfo" where
  "pod_info pod = \<lparr>ai_PodUID = pod_UID pod, ai_PodName = pod_Name pod, ai_Namespace = pod_Namespace pod,
     ai_ServiceAccount = pod_ServiceAccountName pod, ai_NodeName = pod_NodeName pod\<rparr>"

definition deregister :: "nsname \<Rightarrow> string \<Rightarrow> string \<Rightarrow> AgentRegistry \<Rightarrow> AgentRegistry \<times> event list \<times> string list" where
  "deregister key name ns r = (case ar_remove key r of (r', uid) \<Rightarrow>
     if uid \<noteq> [] then (r', [Event ''agent_deregistered'' [(''pod'', VStr name), (''namespace'', VStr ns), (''pod_uid'', VStr uid)]], [uid])
     else (r', [], []))"

definition agent_Reconcile ::
  "go_error + Pod \<Rightarrow> nsname \<Rightarrow> AgentRegistry \<Rightarrow> AgentRegistry \<times> event list \<times> string list \<times> go_error option" where
  "agent_Reconcile got req r = (case got of
      Inl e \<Rightarrow> (case deregister req (snd req) (fst req) r of (r', evs, fired) \<Rightarrow>
        (r', evs, fired, if e = ErrApiNotFound then None else Some e))
    | Inr pod \<Rightarrow>
        if pod_DeletionTimestamp pod \<noteq> None then
          (case deregister req (pod_Name pod) (pod_Namespace pod) r of (r', evs, fired) \<Rightarrow> (r', evs, fired, None))
        else let info = pod_info pod in
          if ai_NodeName info = [] then (r, [], [], None)
          else case ar_upsert req info r of (r', replaced) \<Rightarrow>
            let registered = Event ''agent_registered'' [(''pod'', VStr (pod_Name pod)), (''namespace'', VStr (pod_Namespace pod)),
                  (''pod_uid'', VStr (ai_PodUID info)), (''node'', VStr (ai_NodeName info))] in
            if replaced \<noteq> [] then
              (r', [Event ''agent_replaced'' [(''pod'', VStr (pod_Name pod)), (''old_uid'', VStr replaced), (''new_uid'', VStr (ai_PodUID info))],
                    registered], [replaced], None)
            else (r', [registered], [], None))"

text \<open>The predicate of the watch: only Pods that carry the agent label now are reconciled.\<close>

definition agent_predicate :: "string \<Rightarrow> string \<Rightarrow> Pod \<Rightarrow> bool" where
  "agent_predicate labelKey labelVal pod \<longleftrightarrow> gm_str (pod_Labels pod) labelKey = labelVal"

section \<open>Its invariant\<close>

text \<open>
  The two maps describe one set of agents: every entry of \<open>byUID\<close> is under its own UID and is
  the current one of exactly one Pod name, and has a node.
\<close>

definition ar_ok :: "AgentRegistry \<Rightarrow> bool" where
  "ar_ok r \<longleftrightarrow> gm_wf (ar_byUID r) \<and> gm_wf (ar_byKey r) \<and>
     (\<forall>uid info. gm_get (ar_byUID r) uid = Some info \<longrightarrow> ai_PodUID info = uid \<and> ai_NodeName info \<noteq> [] \<and>
        (\<exists>key. gm_get (ar_byKey r) key = Some uid)) \<and>
     (\<forall>key uid. gm_get (ar_byKey r) key = Some uid \<longrightarrow> uid \<noteq> [] \<and> gm_get (ar_byUID r) uid \<noteq> None) \<and>
     (\<forall>key key' uid. gm_get (ar_byKey r) key = Some uid \<and> gm_get (ar_byKey r) key' = Some uid \<longrightarrow> key = key')"

text \<open>Pod UIDs are unique in the cluster: no other name carries this one.\<close>

definition uid_fresh :: "nsname \<Rightarrow> string \<Rightarrow> AgentRegistry \<Rightarrow> bool" where
  "uid_fresh key uid r \<longleftrightarrow> uid \<noteq> [] \<and> (\<forall>key'. gm_get (ar_byKey r) key' = Some uid \<longrightarrow> key' = key)"

lemma ar_ok_New [simp, goinv]: "ar_ok NewAgentRegistry"
  by (simp add: ar_ok_def NewAgentRegistry_def)

lemma upsert_get:
  assumes "ar_ok r" and "uid_fresh key (ai_PodUID info) r"
  shows "gm_get (ar_byKey (fst (ar_upsert key info r))) k
      = (if k = key then Some (ai_PodUID info) else gm_get (ar_byKey r) k)"
    and "gm_get (ar_byUID (fst (ar_upsert key info r))) u
      = (if u = ai_PodUID info then Some info
         else if gm_get (ar_byKey r) key = Some u then None else gm_get (ar_byUID r) u)"
    and "snd (ar_upsert key info r)
      = (case gm_get (ar_byKey r) key of Some u \<Rightarrow> if u \<noteq> ai_PodUID info then u else [] | None \<Rightarrow> [])"
  using assms by (auto simp: ar_upsert_def Let_def split: option.splits)

lemma remove_get:
  shows "gm_get (ar_byKey (fst (ar_remove key r))) k = (if k = key then None else gm_get (ar_byKey r) k)"
    and "gm_get (ar_byUID (fst (ar_remove key r))) u
      = (if gm_get (ar_byKey r) key = Some u then None else gm_get (ar_byUID r) u)"
    and "snd (ar_remove key r) = (case gm_get (ar_byKey r) key of Some u \<Rightarrow> u | None \<Rightarrow> [])"
  by (auto simp: ar_remove_def split: option.splits)

lemma ar_okD:
  assumes "ar_ok r"
  shows "gm_wf (ar_byUID r)" and "gm_wf (ar_byKey r)"
    and "gm_get (ar_byUID r) uid = Some info \<Longrightarrow> ai_PodUID info = uid \<and> ai_NodeName info \<noteq> []"
    and "gm_get (ar_byUID r) uid = Some info \<Longrightarrow> \<exists>key. gm_get (ar_byKey r) key = Some uid"
    and "gm_get (ar_byKey r) key = Some uid \<Longrightarrow> uid \<noteq> [] \<and> gm_get (ar_byUID r) uid \<noteq> None"
    and "gm_get (ar_byKey r) key = Some uid \<Longrightarrow> gm_get (ar_byKey r) key' = Some uid \<Longrightarrow> key = key'"
  using assms unfolding ar_ok_def by blast+

lemma ar_okI:
  assumes "gm_wf (ar_byUID r)" and "gm_wf (ar_byKey r)"
    and "\<And>uid info. gm_get (ar_byUID r) uid = Some info \<Longrightarrow> ai_PodUID info = uid \<and> ai_NodeName info \<noteq> []"
    and "\<And>uid info. gm_get (ar_byUID r) uid = Some info \<Longrightarrow> \<exists>key. gm_get (ar_byKey r) key = Some uid"
    and "\<And>key uid. gm_get (ar_byKey r) key = Some uid \<Longrightarrow> uid \<noteq> [] \<and> gm_get (ar_byUID r) uid \<noteq> None"
    and "\<And>key key' uid. gm_get (ar_byKey r) key = Some uid \<Longrightarrow> gm_get (ar_byKey r) key' = Some uid \<Longrightarrow> key = key'"
  shows "ar_ok r"
  using assms unfolding ar_ok_def by blast

lemma ar_ok_upsert [goinv]:
  assumes ok: "ar_ok r" and fresh: "uid_fresh key (ai_PodUID info) r" and node: "ai_NodeName info \<noteq> []"
  shows "ar_ok (fst (ar_upsert key info r))"
proof (rule ar_okI)
  let ?r = "fst (ar_upsert key info r)"
  note D = ar_okD [OF ok] and get = upsert_get [OF ok fresh]
  show "gm_wf (ar_byUID ?r)" "gm_wf (ar_byKey ?r)"
    using D(1,2) by (auto simp: ar_upsert_def Let_def split: option.splits)
  show "ai_PodUID i = u \<and> ai_NodeName i \<noteq> []" if "gm_get (ar_byUID ?r) u = Some i" for u i
    using that D(3) [of u i] node by (simp add: get split: if_splits)
  show "\<exists>k. gm_get (ar_byKey ?r) k = Some u" if "gm_get (ar_byUID ?r) u = Some i" for u i
  proof (cases "u = ai_PodUID info")
    case True
    then show ?thesis by (intro exI [of _ key]) (simp add: get)
  next
    case False
    with that have "gm_get (ar_byKey r) key \<noteq> Some u" "gm_get (ar_byUID r) u = Some i"
      by (auto simp: get split: if_splits)
    with D(4) obtain k where "gm_get (ar_byKey r) k = Some u" "k \<noteq> key" by blast
    then show ?thesis by (intro exI [of _ k]) (simp add: get)
  qed
  show "u \<noteq> [] \<and> gm_get (ar_byUID ?r) u \<noteq> None" if k: "gm_get (ar_byKey ?r) k = Some u" for k u
  proof (cases "k = key")
    case True
    with k fresh show ?thesis by (simp add: get uid_fresh_def)
  next
    case False
    with k have "gm_get (ar_byKey r) k = Some u" by (simp add: get)
    with False D(5) [of k u] D(6) [of k u key] show ?thesis by (simp add: get) blast
  qed
  show "k = k'" if "gm_get (ar_byKey ?r) k = Some u" "gm_get (ar_byKey ?r) k' = Some u" for k k' u
  proof -
    have "j = key" if "gm_get (ar_byKey r) j = Some (ai_PodUID info)" for j
      using that fresh unfolding uid_fresh_def by blast
    then show ?thesis using that D(6) [of k u k'] by (simp add: get split: if_splits)
  qed
qed

lemma ar_ok_remove [goinv]: assumes ok: "ar_ok r" shows "ar_ok (fst (ar_remove key r))"
proof (rule ar_okI)
  let ?r = "fst (ar_remove key r)"
  note D = ar_okD [OF ok]
  show "gm_wf (ar_byUID ?r)" "gm_wf (ar_byKey ?r)"
    using D(1,2) by (auto simp: ar_remove_def split: option.splits)
  show "ai_PodUID i = u \<and> ai_NodeName i \<noteq> []" if "gm_get (ar_byUID ?r) u = Some i" for u i
    using that D(3) [of u i] by (simp add: remove_get split: if_splits)
  show "\<exists>k. gm_get (ar_byKey ?r) k = Some u" if "gm_get (ar_byUID ?r) u = Some i" for u i
  proof -
    from that have "gm_get (ar_byKey r) key \<noteq> Some u" "gm_get (ar_byUID r) u = Some i"
      by (auto simp: remove_get split: if_splits)
    with D(4) obtain k where "gm_get (ar_byKey r) k = Some u" "k \<noteq> key" by blast
    then show ?thesis by (intro exI [of _ k]) (simp add: remove_get)
  qed
  show "u \<noteq> [] \<and> gm_get (ar_byUID ?r) u \<noteq> None" if k: "gm_get (ar_byKey ?r) k = Some u" for k u
  proof -
    from k have "gm_get (ar_byKey r) k = Some u" "k \<noteq> key" by (auto simp: remove_get split: if_splits)
    with D(5) [of k u] D(6) [of k u key] show ?thesis by (simp add: remove_get) blast
  qed
  show "k = k'" if "gm_get (ar_byKey ?r) k = Some u" "gm_get (ar_byKey ?r) k' = Some u" for k k' u
    using that D(6) [of k u k'] by (auto simp: remove_get split: if_splits)
qed


text \<open>A directory keeps two indexes consistent: what one key lost, no identity keeps.\<close>

locale directory =
  fixes ok :: "'d \<Rightarrow> bool"
    and lookup :: "'d \<Rightarrow> string \<Rightarrow> 'i option"
    and current :: "'d \<Rightarrow> nsname \<Rightarrow> string option"
    and drop :: "nsname \<Rightarrow> 'd \<Rightarrow> 'd"
    and uid_of :: "'i \<Rightarrow> string"
  assumes ok_drop: "ok d \<Longrightarrow> ok (drop key d)"
    and drop_current: "current (drop key d) k = (if k = key then None else current d k)"
    and member: "ok d \<Longrightarrow> lookup d u \<noteq> None \<longleftrightarrow> (\<exists>k. current d k = Some u)"
    and self: "ok d \<Longrightarrow> lookup d u = Some i \<Longrightarrow> uid_of i = u"
    and one_key: "ok d \<Longrightarrow> current d k = Some u \<Longrightarrow> current d k' = Some u \<Longrightarrow> k = k'"
begin

lemma dropped_gone:
  assumes "ok d" and "current d key = Some u"
  shows "lookup (drop key d) u = None"
proof (rule ccontr)
  assume "lookup (drop key d) u \<noteq> None"
  then obtain k where k: "current (drop key d) k = Some u" using member [OF ok_drop [OF assms(1)]] by blast
  then have "k \<noteq> key" "current d k = Some u" by (auto simp: drop_current split: if_splits)
  with one_key [OF assms(1)] assms(2) show False by blast
qed

lemma dropped_keeps_others:
  assumes "ok d" and "current d key \<noteq> Some u"
  shows "lookup (drop key d) u \<noteq> None \<longleftrightarrow> lookup d u \<noteq> None"
  using member [OF assms(1), of u] member [OF ok_drop [OF assms(1), of key], of u] assms(2)
  by (auto simp: drop_current)

end

interpretation agents: directory ar_ok ByUID "\<lambda>r. gm_get (ar_byKey r)" "\<lambda>key r. fst (ar_remove key r)" ai_PodUID
proof unfold_locales
  show "ar_ok (fst (ar_remove key d))" if "ar_ok d" for key d using that by (rule ar_ok_remove)
  show "gm_get (ar_byKey (fst (ar_remove key d))) k = (if k = key then None else gm_get (ar_byKey d) k)" for key d k
    by (rule remove_get)
  show "ByUID d u \<noteq> None \<longleftrightarrow> (\<exists>k. gm_get (ar_byKey d) k = Some u)" if "ar_ok d" for d u
    using ar_okD(4,5) [OF that] unfolding ByUID_def by blast
  show "ai_PodUID i = u" if "ar_ok d" "ByUID d u = Some i" for d u i
    using ar_okD(3) [OF that(1)] that(2) by (simp add: ByUID_def)
  show "k = k'" if "ar_ok d" "gm_get (ar_byKey d) k = Some u" "gm_get (ar_byKey d) k' = Some u" for d k k' u
    using ar_okD(6) [OF that] .
qed

section \<open>What a reconcile of an agent Pod does\<close>

lemma deregister_fst: "fst (deregister key nm ns r) = fst (ar_remove key r)"
  by (simp add: deregister_def split: prod.split)

lemma deregister_fired:
  "snd (snd (deregister key nm ns r)) = (if snd (ar_remove key r) \<noteq> [] then [snd (ar_remove key r)] else [])"
  by (simp add: deregister_def split: prod.split)

lemma reconcile_gone:
  assumes "\<And>pod. got = Inr pod \<Longrightarrow> pod_DeletionTimestamp pod \<noteq> None"
  shows "fst (agent_Reconcile got key r) = fst (ar_remove key r)"
    and "fst (snd (snd (agent_Reconcile got key r)))
      = (if snd (ar_remove key r) \<noteq> [] then [snd (ar_remove key r)] else [])"
  using assms
  by (simp_all add: agent_Reconcile_def case_prod_beta' deregister_fst deregister_fired split: sum.split)

lemma reconcile_live:
  assumes "pod_DeletionTimestamp pod = None" and "pod_NodeName pod \<noteq> []"
  shows "fst (agent_Reconcile (Inr pod) key r) = fst (ar_upsert key (pod_info pod) r)"
    and "fst (snd (snd (agent_Reconcile (Inr pod) key r)))
      = (if snd (ar_upsert key (pod_info pod) r) \<noteq> [] then [snd (ar_upsert key (pod_info pod) r)] else [])"
  using assms by (auto simp: agent_Reconcile_def Let_def pod_info_def split: prod.splits)

lemma reconcile_unscheduled:
  assumes "pod_DeletionTimestamp pod = None" and "pod_NodeName pod = []"
  shows "agent_Reconcile (Inr pod) key r = (r, [], [], None)"
  using assms by (simp add: agent_Reconcile_def Let_def pod_info_def)

lemma ar_ok_reconcile [goinv]:
  assumes ok: "ar_ok r" and fresh: "\<And>pod. got = Inr pod \<Longrightarrow> uid_fresh key (pod_UID pod) r"
  shows "ar_ok (fst (agent_Reconcile got key r))"
proof (cases "\<forall>pod. got = Inr pod \<longrightarrow> pod_DeletionTimestamp pod \<noteq> None")
  case True
  then show ?thesis using reconcile_gone(1) [of got key r] ar_ok_remove [OF ok] by simp
next
  case False
  then obtain pod where got: "got = Inr pod" and live: "pod_DeletionTimestamp pod = None" by blast
  show ?thesis
  proof (cases "pod_NodeName pod = []")
    case True
    then show ?thesis using ok by (simp add: got reconcile_unscheduled [OF live])
  next
    case False
    have "ar_ok (fst (ar_upsert key (pod_info pod) r))"
      using fresh [OF got] False by (intro ar_ok_upsert [OF ok]) (simp_all add: pod_info_def)
    then show ?thesis using reconcile_live(1) [OF live False] by (simp add: got)
  qed
qed

text \<open>Every UID that stops being an agent is handed to the removal hook, and no current one is.\<close>

lemma reconcile_fires:
  assumes ok: "ar_ok r" and fresh: "\<And>pod. got = Inr pod \<Longrightarrow> uid_fresh key (pod_UID pod) r"
  shows "u \<in> set (fst (snd (snd (agent_Reconcile got key r)))) \<longleftrightarrow>
    ByUID r u \<noteq> None \<and> ByUID (fst (agent_Reconcile got key r)) u = None"
proof (cases "\<forall>pod. got = Inr pod \<longrightarrow> pod_DeletionTimestamp pod \<noteq> None")
  case True
  then have "fst (agent_Reconcile got key r) = fst (ar_remove key r)"
    and "fst (snd (snd (agent_Reconcile got key r)))
      = (if snd (ar_remove key r) \<noteq> [] then [snd (ar_remove key r)] else [])"
    using reconcile_gone [of got key r] by blast+
  then show ?thesis
    using ar_okD(5) [OF ok, of key] by (auto simp: remove_get ByUID_def split: option.split)
next
  case False
  then obtain pod where got: "got = Inr pod" and live: "pod_DeletionTimestamp pod = None" by blast
  show ?thesis
  proof (cases "pod_NodeName pod = []")
    case True
    then show ?thesis by (cases "ByUID r u") (simp_all add: got reconcile_unscheduled [OF live])
  next
    case False
    have fr: "uid_fresh key (ai_PodUID (pod_info pod)) r" using fresh [OF got] by (simp add: pod_info_def)
    show ?thesis
      unfolding got reconcile_live [OF live False]
      using ar_okD(5) [OF ok, of key] by (auto simp: upsert_get [OF ok fr] ByUID_def split: option.split)
  qed
qed

section \<open>Sessions\<close>

type_synonym stream_id = "64 word"

record SessionManager =
  sm_streams :: "(string, (stream_id, stream_id) gomap) gomap"
  sm_streamID :: "64 word"
  sm_cancelled :: "stream_id list"

definition NewSessionManager :: SessionManager where
  "NewSessionManager = \<lparr>sm_streams = [], sm_streamID = 0, sm_cancelled = []\<rparr>"

definition Register :: "string \<Rightarrow> SessionManager \<Rightarrow> SessionManager \<times> stream_id" where
  "Register podUID m = (let i = sm_streamID m + 1 in
     (m\<lparr>sm_streamID := i,
        sm_streams := gm_put podUID (gm_put i i (gm_list (sm_streams m) podUID)) (sm_streams m)\<rparr>, i))"

text \<open>The release function \<open>Register\<close> returned with stream \<open>i\<close>.\<close>

definition Release :: "string \<Rightarrow> stream_id \<Rightarrow> SessionManager \<Rightarrow> SessionManager" where
  "Release podUID i m = (let m' = (case gm_get (sm_streams m) podUID of
       None \<Rightarrow> m
     | Some s \<Rightarrow> let s' = gm_del i s in
         if length s' = 0 then m\<lparr>sm_streams := gm_del podUID (sm_streams m)\<rparr>
         else m\<lparr>sm_streams := gm_put podUID s' (sm_streams m)\<rparr>) in
     m'\<lparr>sm_cancelled := sm_cancelled m' @ [i]\<rparr>)"

definition Revoke :: "string \<Rightarrow> SessionManager \<Rightarrow> SessionManager \<times> nat" where
  "Revoke podUID m = (case gm_get (sm_streams m) podUID of
      None \<Rightarrow> (m, 0)
    | Some s \<Rightarrow> (m\<lparr>sm_streams := gm_del podUID (sm_streams m), sm_cancelled := sm_cancelled m @ map snd s\<rparr>, length s))"

definition sm_Active :: "SessionManager \<Rightarrow> nat" where
  "sm_Active m = length (sm_streams m)"

text \<open>Stream \<open>i\<close> is registered under the Pod UID.\<close>

definition bound :: "SessionManager \<Rightarrow> string \<Rightarrow> stream_id \<Rightarrow> bool" where
  "bound m uid i \<longleftrightarrow> gm_get (gm_list (sm_streams m) uid) i \<noteq> None"

definition sm_ok :: "SessionManager \<Rightarrow> bool" where
  "sm_ok m \<longleftrightarrow> gm_wf (sm_streams m) \<and>
     (\<forall>uid s. gm_get (sm_streams m) uid = Some s \<longrightarrow> gm_wf s \<and> s \<noteq> []) \<and>
     (\<forall>uid i c. gm_get (gm_list (sm_streams m) uid) i = Some c \<longrightarrow> c = i \<and> i \<le> sm_streamID m) \<and>
     (\<forall>uid uid' i. bound m uid i \<and> bound m uid' i \<longrightarrow> uid = uid')"


text \<open>The stream counter has not wrapped: fewer than \<open>2 ^ 64 - 1\<close> streams were opened.\<close>

definition can_register :: "SessionManager \<Rightarrow> bool" where
  "can_register m \<longleftrightarrow> sm_streamID m < - 1"

lemma next_id: "can_register m \<Longrightarrow> i \<le> sm_streamID m \<Longrightarrow> i < sm_streamID m + 1"
proof -
  assume "can_register m" and i: "i \<le> sm_streamID m"
  then have "unat (sm_streamID m) < unat (- 1 :: 64 word)"
    unfolding can_register_def by (simp only: word_less_nat_alt)
  then have "unat (sm_streamID m) + 1 < 2 ^ 64" by (simp add: unsigned_minus_1_eq_mask mask_eq_exp_minus_1)
  then have "unat (sm_streamID m + 1) = unat (sm_streamID m) + 1"
    by (subst unat_add_lem [THEN iffD1]) simp_all
  with i show "i < sm_streamID m + 1" by (simp add: word_less_nat_alt word_le_nat_alt)
qed

lemma sm_okD:
  assumes "sm_ok m"
  shows "gm_wf (sm_streams m)"
    and "gm_get (sm_streams m) uid = Some s \<Longrightarrow> gm_wf s \<and> s \<noteq> []"
    and "gm_get (gm_list (sm_streams m) uid) i = Some c \<Longrightarrow> c = i \<and> i \<le> sm_streamID m"
    and "bound m uid i \<Longrightarrow> bound m uid' i \<Longrightarrow> uid = uid'"
  using assms unfolding sm_ok_def by blast+

lemma sm_okI:
  assumes "gm_wf (sm_streams m)"
    and "\<And>uid s. gm_get (sm_streams m) uid = Some s \<Longrightarrow> gm_wf s \<and> s \<noteq> []"
    and "\<And>uid i c. gm_get (gm_list (sm_streams m) uid) i = Some c \<Longrightarrow> c = i \<and> i \<le> sm_streamID m"
    and "\<And>uid uid' i. bound m uid i \<Longrightarrow> bound m uid' i \<Longrightarrow> uid = uid'"
  shows "sm_ok m"
  using assms unfolding sm_ok_def by blast

lemma bound_le: "sm_ok m \<Longrightarrow> bound m uid i \<Longrightarrow> i \<le> sm_streamID m"
  unfolding bound_def using sm_okD(3) by blast

lemma gm_put_nonempty [simp]: "gm_put k v m \<noteq> []"
  by (metis gm_get_Nil gm_get_put option.distinct(1))

lemma wf_gm_list: "sm_ok m \<Longrightarrow> gm_wf (gm_list (sm_streams m) uid)"
  using sm_okD(2) [of m uid] by (auto simp: gm_list_def split: option.split)

lemma gm_list_del [simp]: "gm_list (gm_del k m) k' = (if k' = k then [] else gm_list m k')"
  by (simp add: gm_list_def)

lemma streams_Register:
  "gm_list (sm_streams (fst (Register uid m))) uid' = (if uid' = uid
     then gm_put (sm_streamID m + 1) (sm_streamID m + 1) (gm_list (sm_streams m) uid) else gm_list (sm_streams m) uid')"
  by (simp add: Register_def Let_def)

lemma bound_Register [simp]:
  "bound (fst (Register uid m)) uid' i \<longleftrightarrow> bound m uid' i \<or> uid' = uid \<and> i = sm_streamID m + 1"
  by (simp add: bound_def streams_Register)

lemma gm_del_Nil [simp]: "gm_del k [] = []"
  by (simp add: gm_del_def)

lemma streams_Release:
  "gm_list (sm_streams (Release uid j m)) uid' = (if uid' = uid then gm_del j (gm_list (sm_streams m) uid) else gm_list (sm_streams m) uid')"
  by (cases "gm_get (sm_streams m) uid") (simp_all add: Release_def Let_def gm_list_def)

lemma bound_Release [simp]:
  "bound (Release uid j m) uid' i \<longleftrightarrow> bound m uid' i \<and> \<not> (uid' = uid \<and> i = j)"
  by (simp add: bound_def streams_Release)

lemma streams_Revoke:
  "gm_list (sm_streams (fst (Revoke uid m))) uid' = (if uid' = uid then [] else gm_list (sm_streams m) uid')"
  by (auto simp: Revoke_def gm_list_def split: option.split)

lemma bound_Revoke [simp]: "bound (fst (Revoke uid m)) uid' i \<longleftrightarrow> bound m uid' i \<and> uid' \<noteq> uid"
  by (simp add: bound_def streams_Revoke)

lemma cancelled_Revoke:
  assumes "sm_ok m"
  shows "set (sm_cancelled (fst (Revoke uid m))) = set (sm_cancelled m) \<union> {i. bound m uid i}"
proof (cases "gm_get (sm_streams m) uid")
  case None
  then show ?thesis by (simp add: Revoke_def bound_def gm_list_def)
next
  case (Some s)
  have wf: "gm_wf s" using sm_okD(2) [OF assms Some] by simp
  have "set (map snd s) = {i. gm_get s i \<noteq> None}"
  proof (intro set_eqI iffI)
    fix i assume "i \<in> set (map snd s)"
    then obtain j where "(j, i) \<in> set s" by auto
    then have "gm_get s j = Some i" by (rule gm_mem_get [OF wf])
    then have "i = j" using sm_okD(3) [OF assms, of uid j i] Some by (simp add: gm_list_def)
    with \<open>gm_get s j = Some i\<close> show "i \<in> {i. gm_get s i \<noteq> None}" by simp
  next
    fix i assume "i \<in> {i. gm_get s i \<noteq> None}"
    then obtain c where c: "gm_get s i = Some c" by blast
    then have "c = i" using sm_okD(3) [OF assms, of uid i c] Some by (simp add: gm_list_def)
    with c show "i \<in> set (map snd s)" using gm_get_Some_mem [OF c] by force
  qed
  with Some show ?thesis by (simp add: Revoke_def bound_def gm_list_def)
qed

lemma cancelled_Register [simp]: "sm_cancelled (fst (Register uid m)) = sm_cancelled m"
  by (simp add: Register_def Let_def)

lemma cancelled_Release [simp]: "sm_cancelled (Release uid i m) = sm_cancelled m @ [i]"
  by (simp add: Release_def Let_def split: option.split)

lemma streamID_simps [simp]:
  "sm_streamID (fst (Register uid m)) = sm_streamID m + 1"
  "sm_streamID (Release uid i m) = sm_streamID m"
  "sm_streamID (fst (Revoke uid m)) = sm_streamID m"
  by (simp_all add: Register_def Release_def Revoke_def Let_def split: option.split)

lemma sm_ok_New [simp, goinv]: "sm_ok NewSessionManager"
  by (simp add: sm_ok_def NewSessionManager_def bound_def)

lemma sm_ok_Register [goinv]:
  assumes ok: "sm_ok m" and c: "can_register m" shows "sm_ok (fst (Register uid m))"
proof (rule sm_okI)
  let ?m = "fst (Register uid m)"
  note D = sm_okD [OF ok] and lt = next_id [OF c]
  show "gm_wf (sm_streams ?m)" using D(1) by (simp add: Register_def Let_def)
  show "gm_wf s \<and> s \<noteq> []" if "gm_get (sm_streams ?m) u = Some s" for u s
    using that D(2) wf_gm_list [OF ok] by (auto simp: Register_def Let_def split: if_splits)
  show "c = i \<and> i \<le> sm_streamID ?m" if "gm_get (gm_list (sm_streams ?m) u) i = Some c" for u i c
    using that D(3) lt by (fastforce simp: streams_Register split: if_splits)
  show "u = u'" if "bound ?m u i" "bound ?m u' i" for u u' i
    using that D(4) bound_le [OF ok] lt by (metis bound_Register less_irrefl)
qed

lemma sm_ok_Release [goinv]: assumes ok: "sm_ok m" shows "sm_ok (Release uid j m)"
proof (rule sm_okI)
  let ?m = "Release uid j m"
  note D = sm_okD [OF ok]
  show "gm_wf (sm_streams ?m)" using D(1) by (simp add: Release_def Let_def split: option.split)
  show "gm_wf s \<and> s \<noteq> []" if "gm_get (sm_streams ?m) u = Some s" for u s
    using that D(2) by (auto simp: Release_def Let_def split: option.splits if_splits)
  show "c = i \<and> i \<le> sm_streamID ?m" if "gm_get (gm_list (sm_streams ?m) u) i = Some c" for u i c
    using that D(3) by (fastforce simp: streams_Release split: if_splits)
  show "u = u'" if "bound ?m u i" "bound ?m u' i" for u u' i
    using that D(4) by (metis bound_Release)
qed

lemma sm_ok_Revoke [goinv]: assumes ok: "sm_ok m" shows "sm_ok (fst (Revoke uid m))"
proof (rule sm_okI)
  let ?m = "fst (Revoke uid m)"
  note D = sm_okD [OF ok]
  show "gm_wf (sm_streams ?m)" using D(1) by (simp add: Revoke_def split: option.split)
  show "gm_wf s \<and> s \<noteq> []" if "gm_get (sm_streams ?m) u = Some s" for u s
    using that D(2) by (auto simp: Revoke_def split: option.splits if_splits)
  show "c = i \<and> i \<le> sm_streamID ?m" if "gm_get (gm_list (sm_streams ?m) u) i = Some c" for u i c
    using that D(3) by (fastforce simp: streams_Revoke split: if_splits)
  show "u = u'" if "bound ?m u i" "bound ?m u' i" for u u' i
    using that D(4) by (metis bound_Revoke)
qed

text \<open>The contract of revocation, for the removal hook of the agent registry.\<close>

locale sessions =
  fixes ok :: "'m \<Rightarrow> bool"
    and bnd :: "'m \<Rightarrow> string \<Rightarrow> 'i \<Rightarrow> bool"
    and cancelled :: "'m \<Rightarrow> 'i set"
    and revoke :: "string \<Rightarrow> 'm \<Rightarrow> 'm"
  assumes ok_revoke: "ok m \<Longrightarrow> ok (revoke u m)"
    and bnd_revoke: "ok m \<Longrightarrow> bnd (revoke u m) u' i \<longleftrightarrow> bnd m u' i \<and> u' \<noteq> u"
    and cancelled_revoke: "ok m \<Longrightarrow> cancelled (revoke u m) = cancelled m \<union> {i. bnd m u i}"
begin

lemma ok_revoke_all: "ok m \<Longrightarrow> ok (fold revoke us m)"
  by (induction us arbitrary: m) (auto intro: ok_revoke)

lemma bnd_revoke_all: "ok m \<Longrightarrow> bnd (fold revoke us m) u i \<longleftrightarrow> bnd m u i \<and> u \<notin> set us"
  by (induction us arbitrary: m) (auto simp: ok_revoke bnd_revoke)

lemma cancelled_mono: "ok m \<Longrightarrow> cancelled m \<subseteq> cancelled (fold revoke us m)"
proof (induction us arbitrary: m)
  case (Cons u us)
  then show ?case using cancelled_revoke [of m u] ok_revoke [of m u] by fastforce
qed simp

lemma revoke_all_cancels:
  assumes "ok m" and "u \<in> set us" and "bnd m u i"
  shows "i \<in> cancelled (fold revoke us m)"
  using assms
proof (induction us arbitrary: m)
  case (Cons u' us)
  show ?case
  proof (cases "u = u'")
    case True
    then have "i \<in> cancelled (revoke u' m)" using Cons.prems cancelled_revoke by blast
    then show ?thesis using cancelled_mono [OF ok_revoke [OF Cons.prems(1)]] by auto
  next
    case False
    then show ?thesis using Cons by (simp add: ok_revoke bnd_revoke)
  qed
qed simp

end

interpretation revocation: sessions sm_ok bound "\<lambda>m. set (sm_cancelled m)" "\<lambda>u m. fst (Revoke u m)"
  by unfold_locales (simp_all add: sm_ok_Revoke cancelled_Revoke)

text \<open>
  \<^verbatim>\<open>cmd/controller/main.go\<close> makes revocation the removal hook: one reconcile of an agent Pod
  with what it does to the sessions.
\<close>

definition agent_step ::
  "go_error + Pod \<Rightarrow> nsname \<Rightarrow> AgentRegistry \<times> SessionManager \<Rightarrow> AgentRegistry \<times> SessionManager" where
  "agent_step got req s = (case agent_Reconcile got req (fst s) of (r', _, fired, _) \<Rightarrow>
     (r', fold (\<lambda>u m. fst (Revoke u m)) fired (snd s)))"

lemma agent_step_alt:
  "agent_step got req (r, m) = (fst (agent_Reconcile got req r),
     fold (\<lambda>u m. fst (Revoke u m)) (fst (snd (snd (agent_Reconcile got req r)))) m)"
  by (simp add: agent_step_def split: prod.split)

lemma agent_step_revokes:
  assumes "ar_ok r" and "sm_ok m" and "\<And>pod. got = Inr pod \<Longrightarrow> uid_fresh key (pod_UID pod) r"
    and "ByUID r u \<noteq> None" and "ByUID (fst (agent_step got key (r, m))) u = None" and "bound m u i"
  shows "i \<in> set (sm_cancelled (snd (agent_step got key (r, m)))) \<and>
    \<not> bound (snd (agent_step got key (r, m))) u i"
proof -
  have "u \<in> set (fst (snd (snd (agent_Reconcile got key r))))"
    using reconcile_fires [OF assms(1,3)] assms(4,5) by (auto simp: agent_step_alt)
  then show ?thesis
    using revocation.revoke_all_cancels [OF assms(2) _ assms(6)] revocation.bnd_revoke_all [OF assms(2)]
    by (simp add: agent_step_alt)
qed

section \<open>Properties\<close>

lemma can_register_New: "can_register NewSessionManager"
  by (simp add: can_register_def NewSessionManager_def word_less_nat_alt unsigned_minus_1_eq_mask mask_eq_exp_minus_1)

text \<open>
  The agent directory stays one directory: after any reconcile of an agent Pod (Pod UIDs being
  unique) its two indexes agree, every agent in it is the current Pod of exactly one name and has a
  node; and the removal hook fires for exactly the UIDs that stopped being agents.
\<close>

theorem agent_directory_consistent:
  assumes "ar_ok r" and "\<And>pod. got = Inr pod \<Longrightarrow> uid_fresh key (pod_UID pod) r"
  shows "ar_ok (fst (agent_Reconcile got key r)) \<and>
    (u \<in> set (fst (snd (snd (agent_Reconcile got key r)))) \<longleftrightarrow>
       ByUID r u \<noteq> None \<and> ByUID (fst (agent_Reconcile got key r)) u = None)"
  using ar_ok_reconcile [OF assms] reconcile_fires [OF assms] by blast

definition example_pod :: "string \<Rightarrow> Pod" where
  "example_pod uid = \<lparr>pod_UID = uid, pod_Name = ''agent'', pod_Namespace = ''sys'', pod_Annotations = [], pod_Labels = [],
     pod_DeletionTimestamp = None, pod_Phase = ''Running'', pod_Conditions = [], pod_NodeName = ''n1'', pod_ServiceAccountName = ''sa''\<rparr>"

definition example_agents :: AgentRegistry where
  "example_agents = fst (agent_Reconcile (Inr (example_pod ''u1'')) (''sys'', ''agent'') NewAgentRegistry)"

lemma example_agents:
  "ar_ok example_agents" "ByUID example_agents ''u1'' \<noteq> None" "uid_fresh (''sys'', ''agent'') ''u2'' example_agents"
proof -
  show "ar_ok example_agents" unfolding example_agents_def
    by (rule ar_ok_reconcile [OF ar_ok_New]) (auto simp: uid_fresh_def NewAgentRegistry_def example_pod_def)
  show "ByUID example_agents ''u1'' \<noteq> None" "uid_fresh (''sys'', ''agent'') ''u2'' example_agents"
    by (simp_all add: example_agents_def agent_Reconcile_def Let_def example_pod_def pod_info_def ar_upsert_def
        NewAgentRegistry_def ByUID_def uid_fresh_def)
qed

lemma agent_directory_consistent_witness:
  "''u1'' \<in> set (fst (snd (snd (agent_Reconcile (Inl ErrApiNotFound) (''sys'', ''agent'') example_agents))))"
proof -
  have "ByUID (fst (agent_Reconcile (Inl ErrApiNotFound) (''sys'', ''agent'') example_agents)) ''u1'' = None"
    by (simp add: example_agents_def agent_Reconcile_def Let_def example_pod_def pod_info_def ar_upsert_def
        NewAgentRegistry_def ByUID_def deregister_def ar_remove_def)
  then show ?thesis
    using agent_directory_consistent [OF example_agents(1), of "Inl ErrApiNotFound" "(''sys'', ''agent'')" "''u1''"]
      example_agents(2) by simp
qed

text \<open>
  Losing authority closes the connection: when a reconcile drops an agent's UID from the directory,
  because its Pod is gone, terminating or replaced, every stream registered under that UID is
  cancelled and unbound in the same step.
\<close>

theorem deregistration_cancels_streams:
  assumes "ar_ok r" and "sm_ok m" and "\<And>pod. got = Inr pod \<Longrightarrow> uid_fresh key (pod_UID pod) r"
    and "ByUID r u \<noteq> None" and "ByUID (fst (agent_step got key (r, m))) u = None" and "bound m u i"
  shows "i \<in> set (sm_cancelled (snd (agent_step got key (r, m)))) \<and>
    \<not> bound (snd (agent_step got key (r, m))) u i"
  by (rule agent_step_revokes [OF assms])

lemma deregistration_cancels_streams_witness:
  "1 \<in> set (sm_cancelled (snd (agent_step (Inr (example_pod ''u2'')) (''sys'', ''agent'')
      (example_agents, fst (Register ''u1'' NewSessionManager)))))"
proof -
  have ok: "sm_ok (fst (Register ''u1'' NewSessionManager))"
    by (rule sm_ok_Register [OF sm_ok_New can_register_New])
  have b: "bound (fst (Register ''u1'' NewSessionManager)) ''u1'' 1"
    by (simp add: NewSessionManager_def)
  have g: "ByUID (fst (agent_step (Inr (example_pod ''u2'')) (''sys'', ''agent'')
      (example_agents, fst (Register ''u1'' NewSessionManager)))) ''u1'' = None"
    by (simp add: example_agents_def agent_step_def agent_Reconcile_def Let_def example_pod_def pod_info_def ar_upsert_def
        NewAgentRegistry_def ByUID_def)
  have fr: "Inr (example_pod ''u2'') = Inr pod \<Longrightarrow> uid_fresh (''sys'', ''agent'') (pod_UID pod) example_agents" for pod
    using example_agents(3) by (auto simp: example_pod_def)
  show ?thesis
    using deregistration_cancels_streams [OF example_agents(1) ok fr example_agents(2) g b] by simp
qed

text \<open>
  A reconcile that cannot read the Pod, for whatever reason, deregisters the agent and cancels its
  streams, although only a missing Pod means it is gone.
\<close>

theorem read_error_deregisters:
  assumes "ar_ok r" and "gm_get (ar_byKey r) key = Some u"
  shows "ByUID (fst (agent_Reconcile (Inl e) key r)) u = None \<and>
    fst (snd (snd (agent_Reconcile (Inl e) key r))) = [u] \<and>
    snd (snd (snd (agent_Reconcile (Inl e) key r))) = (if e = ErrApiNotFound then None else Some e)"
proof -
  have "fst (agent_Reconcile (Inl e) key r) = fst (ar_remove key r)"
    and f: "fst (snd (snd (agent_Reconcile (Inl e) key r)))
      = (if snd (ar_remove key r) \<noteq> [] then [snd (ar_remove key r)] else [])"
    using reconcile_gone [of "Inl e" key r] by auto
  moreover have "ByUID (fst (ar_remove key r)) u = None" by (rule agents.dropped_gone [OF assms])
  moreover have "snd (ar_remove key r) = u" "u \<noteq> []"
    using assms(2) ar_okD(5) [OF assms] by (simp_all add: remove_get)
  ultimately show ?thesis by (simp add: agent_Reconcile_def split: prod.split)
qed

lemma read_error_deregisters_witness:
  "ByUID (fst (agent_Reconcile (Inl (ErrApi ''timeout'')) (''sys'', ''agent'') example_agents)) ''u1'' = None"
proof -
  have "gm_get (ar_byKey example_agents) (''sys'', ''agent'') = Some ''u1''"
    by (simp add: example_agents_def agent_Reconcile_def Let_def example_pod_def pod_info_def ar_upsert_def
        NewAgentRegistry_def)
  from read_error_deregisters [OF example_agents(1) this] show ?thesis by blast
qed

text \<open>
  Revocation is exact: it cancels the streams bound to the Pod UID and no other, and leaves the
  streams of every other UID bound.
\<close>

theorem revoke_is_exact:
  assumes "sm_ok m"
  shows "set (sm_cancelled (fst (Revoke uid m))) = set (sm_cancelled m) \<union> {i. bound m uid i} \<and>
    (bound (fst (Revoke uid m)) uid' i \<longleftrightarrow> bound m uid' i \<and> uid' \<noteq> uid) \<and>
    snd (Revoke uid m) = card {i. bound m uid i} \<and> sm_ok (fst (Revoke uid m))"
proof -
  have "snd (Revoke uid m) = card {i. bound m uid i}"
  proof (cases "gm_get (sm_streams m) uid")
    case None
    then show ?thesis by (simp add: Revoke_def bound_def gm_list_def)
  next
    case (Some s)
    then have wf: "gm_wf s" using sm_okD(2) [OF assms] by blast
    have "{i. bound m uid i} = set (gm_keys s)"
      using Some by (auto simp: bound_def gm_list_def gm_keys_iff)
    also have "card \<dots> = length s" using wf by (metis distinct_card gm_keys_def gm_wf_def length_map)
    finally show ?thesis using Some by (simp add: Revoke_def)
  qed
  then show ?thesis
    by (intro conjI cancelled_Revoke [OF assms] bound_Revoke sm_ok_Revoke [OF assms])
qed

lemma revoke_is_exact_witness:
  "set (sm_cancelled (fst (Revoke ''u1'' (fst (Register ''u1'' NewSessionManager))))) = {1}"
proof -
  have ok: "sm_ok (fst (Register ''u1'' NewSessionManager))"
    by (rule sm_ok_Register [OF sm_ok_New can_register_New])
  have b: "bound (fst (Register ''u1'' NewSessionManager)) ''u1'' i \<longleftrightarrow> i = 1" for i
    by simp (simp add: NewSessionManager_def bound_def)
  have e: "sm_cancelled (fst (Register ''u1'' NewSessionManager)) = []"
    by simp (simp add: NewSessionManager_def)
  show ?thesis using conjunct1 [OF revoke_is_exact [OF ok, of "''u1''"]] unfolding b e by simp
qed

end
