(* ===== verification/Auth.thy ===== *)
theory Auth
  imports Agent_Registry
begin

text \<open>
  \<^verbatim>\<open>internal/controller/auth.go\<close>, and the choice of the mode in \<^verbatim>\<open>cmd/controller/main.go\<close>. The
  two review calls of the API server are outside the repository: a record of their answers is
  an argument. Durations of the calls are not modelled. The locale \<open>producer\<close> is what a health
  stream relies on: an identity that was let in is vouched for by something the sender does
  not control.
\<close>

section \<open>Data\<close>

record UserInfo =
  ui_Username :: string
  ui_UID :: string
  ui_Groups :: "string list"
  ui_Extra :: "(string, string list) gomap"

record TokenReviewStatus =
  trs_Authenticated :: bool
  trs_Error :: string
  trs_Audiences :: "string list"
  trs_User :: UserInfo

record AccessReviewSpec =
  sar_User :: string
  sar_Groups :: "string list"
  sar_UID :: string
  sar_Extra :: "(string, string list) gomap"
  sar_Group :: string
  sar_Resource :: string
  sar_Verb :: string

record auth_api =
  aa_TokenReview :: "string \<Rightarrow> string list \<Rightarrow> string + TokenReviewStatus"
  aa_AccessReview :: "AccessReviewSpec \<Rightarrow> string + bool"

record AuthenticatedAgent =
  aa_PodUID :: string
  aa_PodName :: string
  aa_Namespace :: string
  aa_ServiceAccount :: string
  aa_NodeName :: string

record K8sAuthenticator =
  ka_Audience :: string
  ka_ExpectNamespace :: string
  ka_ExpectServiceAccount :: string
  ka_Authorize :: bool

record TokenAuthenticator =
  ta_Audience :: string
  ta_ExpectUser :: string

definition extraPodName :: string where
  "extraPodName = ''authentication.kubernetes.io/pod-name''"

definition extraPodUID :: string where
  "extraPodUID = ''authentication.kubernetes.io/pod-uid''"

definition extraNodeName :: string where
  "extraNodeName = ''authentication.kubernetes.io/node-name''"

definition ReportGroup :: string where "ReportGroup = ''secondary-service.boanlab.io''"
definition ReportResource :: string where "ReportResource = ''healthreports''"
definition ReportVerb :: string where "ReportVerb = ''create''"

section \<open>The checks\<close>

definition firstExtra :: "(string, string list) gomap \<Rightarrow> string \<Rightarrow> string" where
  "firstExtra extra key = (case gm_get extra key of
      Some v \<Rightarrow> if length v > 0 then hd v else []
    | None \<Rightarrow> [])"

fun containsStr :: "string list \<Rightarrow> string \<Rightarrow> bool" where
  "containsStr [] want = False"
| "containsStr (s # l) want = (if s = want then True else containsStr l want)"

definition reviewToken :: "auth_api \<Rightarrow> string \<Rightarrow> string \<Rightarrow> go_error + TokenReviewStatus \<times> string" where
  "reviewToken api aud token =
     (if token = [] then Inl (ErrUnauthenticated ''no bearer token'')
      else case aa_TokenReview api token [aud] of
        Inl e \<Rightarrow> Inl (ErrTokenReview e)
      | Inr res \<Rightarrow>
          if \<not> trs_Authenticated res then Inl (ErrUnauthenticated (trs_Error res))
          else if \<not> containsStr (trs_Audiences res) aud then Inl (ErrUnauthenticated ''audience not honored'')
          else let podUID = firstExtra (ui_Extra (trs_User res)) extraPodUID in
            if podUID = [] then Inl (ErrUnauthenticated ''not a Pod-bound token'')
            else Inr (res, podUID))"

definition access_spec :: "UserInfo \<Rightarrow> AccessReviewSpec" where
  "access_spec u = \<lparr>sar_User = ui_Username u, sar_Groups = ui_Groups u, sar_UID = ui_UID u,
     sar_Extra = gm_put_all fst snd (ui_Extra u) [], sar_Group = ReportGroup, sar_Resource = ReportResource,
     sar_Verb = ReportVerb\<rparr>"

text \<open>The RBAC question, when the authenticator asks it.\<close>

definition authorize :: "auth_api \<Rightarrow> K8sAuthenticator \<Rightarrow> UserInfo \<Rightarrow> go_error option" where
  "authorize api k u =
     (if ka_Authorize k then
        (case aa_AccessReview api (access_spec u) of
           Inl e \<Rightarrow> Some (ErrAccessReview e)
         | Inr allowed \<Rightarrow> if \<not> allowed then Some (ErrNotAuthorized (ui_Username u)) else None)
      else None)"

definition K8s_Authenticate :: "auth_api \<Rightarrow> K8sAuthenticator \<Rightarrow> AgentRegistry \<Rightarrow> string \<Rightarrow> go_error + AuthenticatedAgent" where
  "K8s_Authenticate api k agents token = (case reviewToken api (ka_Audience k) token of
      Inl e \<Rightarrow> Inl e
    | Inr (res, podUID) \<Rightarrow>
        (case authorize api k (trs_User res) of
           Some e \<Rightarrow> Inl e
         | None \<Rightarrow>
             (case ByUID agents podUID of
                None \<Rightarrow> Inl (ErrNotAnAgent podUID)
              | Some info \<Rightarrow>
                  if ka_ExpectNamespace k \<noteq> [] \<and> ai_Namespace info \<noteq> ka_ExpectNamespace k
                  then Inl (ErrNotAnAgent (ai_Namespace info))
                  else if ka_ExpectServiceAccount k \<noteq> [] \<and> ai_ServiceAccount info \<noteq> ka_ExpectServiceAccount k
                  then Inl (ErrNotAnAgent (ai_ServiceAccount info))
                  else Inr \<lparr>aa_PodUID = podUID, aa_PodName = ai_PodName info, aa_Namespace = ai_Namespace info,
                             aa_ServiceAccount = ai_ServiceAccount info, aa_NodeName = ai_NodeName info\<rparr>)))"

definition Token_Authenticate :: "auth_api \<Rightarrow> TokenAuthenticator \<Rightarrow> string \<Rightarrow> go_error + AuthenticatedAgent" where
  "Token_Authenticate api t token = (case reviewToken api (ta_Audience t) token of
      Inl e \<Rightarrow> Inl e
    | Inr (res, podUID) \<Rightarrow>
        if ta_ExpectUser t \<noteq> [] \<and> ui_Username (trs_User res) \<noteq> ta_ExpectUser t
        then Inl (ErrNotAuthorized (ui_Username (trs_User res)))
        else let node = firstExtra (ui_Extra (trs_User res)) extraNodeName in
          if node = [] then Inl (ErrUnauthenticated ''token carries no node claim'')
          else Inr \<lparr>aa_PodUID = podUID, aa_PodName = firstExtra (ui_Extra (trs_User res)) extraPodName,
                     aa_Namespace = [], aa_ServiceAccount = ui_Username (trs_User res), aa_NodeName = node\<rparr>)"

text \<open>The \<^verbatim>\<open>Authenticator\<close> interface: nil, or one of its two implementations.\<close>

datatype Authenticator = NoAuth | K8sAuth K8sAuthenticator | TokenAuth TokenAuthenticator

text \<open>
  The flags of \<^verbatim>\<open>cmd/controller\<close>: the authenticator and \<^verbatim>\<open>RequireAuth\<close>; \<open>None\<close> is exit 1.
\<close>

definition select_auth :: "bool \<Rightarrow> string \<Rightarrow> string \<Rightarrow> string \<Rightarrow> string \<Rightarrow> (Authenticator \<times> bool) option" where
  "select_auth requireAuth mode0 healthAud agentNS agentSA = (let mode = (if \<not> requireAuth then ''none'' else mode0) in
     if mode = ''full'' then Some (K8sAuth \<lparr>ka_Audience = healthAud, ka_ExpectNamespace = agentNS,
         ka_ExpectServiceAccount = agentSA, ka_Authorize = True\<rparr>, True)
     else if mode = ''token'' then Some (TokenAuth \<lparr>ta_Audience = healthAud, ta_ExpectUser = []\<rparr>, True)
     else if mode = ''token-sa'' then Some (TokenAuth \<lparr>ta_Audience = healthAud,
         ta_ExpectUser = ''system:serviceaccount:'' @ agentNS @ '':'' @ agentSA\<rparr>, True)
     else if mode = ''none'' then Some (NoAuth, False)
     else None)"

text \<open>
  \<^verbatim>\<open>HealthServer.authenticate\<close>; the second argument is the first value of the stream's
  \<^verbatim>\<open>authorization\<close> metadata, if any. \<open>Inr None\<close> is the nil identity with a nil error.
\<close>

definition authenticate :: "bool \<Rightarrow> Authenticator \<Rightarrow> auth_api \<Rightarrow> AgentRegistry \<Rightarrow> string option \<Rightarrow> go_error + AuthenticatedAgent option" where
  "authenticate requireAuth auth api agents md = (let token = (case md of None \<Rightarrow> [] | Some v \<Rightarrow> str_trim_prefix ''Bearer '' v) in
     if \<not> requireAuth then Inr None
     else case auth of
       NoAuth \<Rightarrow> Inr None
     | K8sAuth k \<Rightarrow> map_sum id Some (K8s_Authenticate api k agents token)
     | TokenAuth t \<Rightarrow> map_sum id Some (Token_Authenticate api t token))"

section \<open>Lemmas\<close>

lemma containsStr_iff [simp]: "containsStr l s \<longleftrightarrow> s \<in> set l"
  by (induction l) auto

lemma reviewToken_ok_iff:
  "reviewToken api aud token = Inr (res, podUID) \<longleftrightarrow>
     token \<noteq> [] \<and> aa_TokenReview api token [aud] = Inr res \<and> trs_Authenticated res \<and> aud \<in> set (trs_Audiences res) \<and>
     podUID = firstExtra (ui_Extra (trs_User res)) extraPodUID \<and> podUID \<noteq> []"
  by (auto simp: reviewToken_def Let_def split: sum.splits if_splits)

lemma authorize_None_iff:
  "authorize api k u = None \<longleftrightarrow> (ka_Authorize k \<longrightarrow> aa_AccessReview api (access_spec u) = Inr True)"
  by (auto simp: authorize_def split: sum.splits)

text \<open>The extra attributes reach the access review unchanged.\<close>

lemma access_extra:
  assumes "gm_wf (ui_Extra u)"
  shows "gm_get (sar_Extra (access_spec u)) key = gm_get (ui_Extra u) key"
proof (cases "find (\<lambda>x. fst x = key) (rev (ui_Extra u))")
  case None
  then have "key \<notin> set (gm_keys (ui_Extra u))" by (auto simp: find_None_iff gm_keys_def)
  then show ?thesis using None by (simp add: access_spec_def gm_get_put_all gm_keys_iff)
next
  case (Some x)
  then have "x \<in> set (ui_Extra u)" "fst x = key"
    using find_Some_iff [of "\<lambda>x. fst x = key" "rev (ui_Extra u)" x] nth_mem [of _ "rev (ui_Extra u)"] by auto
  then have "(key, snd x) \<in> set (ui_Extra u)" by (metis prod.collapse)
  then show ?thesis using Some gm_mem_get [OF assms] by (simp add: access_spec_def gm_get_put_all)
qed

lemma K8s_ok_iff:
  "K8s_Authenticate api k agents token = Inr ag \<longleftrightarrow>
     (\<exists>res uid info. reviewToken api (ka_Audience k) token = Inr (res, uid) \<and>
        authorize api k (trs_User res) = None \<and> ByUID agents uid = Some info \<and>
        (ka_ExpectNamespace k = [] \<or> ai_Namespace info = ka_ExpectNamespace k) \<and>
        (ka_ExpectServiceAccount k = [] \<or> ai_ServiceAccount info = ka_ExpectServiceAccount k) \<and>
        ag = \<lparr>aa_PodUID = uid, aa_PodName = ai_PodName info, aa_Namespace = ai_Namespace info,
               aa_ServiceAccount = ai_ServiceAccount info, aa_NodeName = ai_NodeName info\<rparr>)"
  by (auto simp: K8s_Authenticate_def split: sum.splits option.splits if_splits)

lemma Token_ok_iff:
  "Token_Authenticate api t token = Inr ag \<longleftrightarrow>
     (\<exists>res uid. reviewToken api (ta_Audience t) token = Inr (res, uid) \<and>
        (ta_ExpectUser t = [] \<or> ui_Username (trs_User res) = ta_ExpectUser t) \<and>
        firstExtra (ui_Extra (trs_User res)) extraNodeName \<noteq> [] \<and>
        ag = \<lparr>aa_PodUID = uid, aa_PodName = firstExtra (ui_Extra (trs_User res)) extraPodName,
               aa_Namespace = [], aa_ServiceAccount = ui_Username (trs_User res),
               aa_NodeName = firstExtra (ui_Extra (trs_User res)) extraNodeName\<rparr>)"
  by (auto simp: Token_Authenticate_def Let_def split: sum.splits if_splits)

section \<open>The contract of an authenticator\<close>

locale producer =
  fixes ok :: "'d \<Rightarrow> bool"
    and authn :: "'d \<Rightarrow> string \<Rightarrow> go_error + AuthenticatedAgent"
    and vouched :: "'d \<Rightarrow> string \<Rightarrow> string \<Rightarrow> bool"
  assumes no_anonymous: "\<exists>e. authn d [] = Inl e"
    and identity: "authn d token = Inr ag \<Longrightarrow> vouched d (aa_PodUID ag) (aa_NodeName ag)"
    and node_known: "ok d \<Longrightarrow> authn d token = Inr ag \<Longrightarrow> aa_PodUID ag \<noteq> [] \<and> aa_NodeName ag \<noteq> []"
begin

text \<open>An identity nothing vouches for is refused whatever token it shows.\<close>

lemma refused:
  assumes "\<And>node. \<not> vouched d uid node"
  shows "authn d token \<noteq> Inr (ag\<lparr>aa_PodUID := uid\<rparr>)"
  using assms identity [of d token "ag\<lparr>aa_PodUID := uid\<rparr>"] by auto

text \<open>Two tokens of one Pod speak for one node when the node of a Pod is a fact.\<close>

lemma one_node_per_pod:
  assumes "\<And>u n n'. vouched d u n \<Longrightarrow> vouched d u n' \<Longrightarrow> n = n'"
    and "authn d t = Inr ag" and "authn d t' = Inr ag'" and "aa_PodUID ag = aa_PodUID ag'"
  shows "aa_NodeName ag = aa_NodeName ag'"
  using identity [OF assms(2)] identity [OF assms(3)] assms(1,4) by metis

end

text \<open>In the full mode the registry of live agents vouches, with the node its Pod is scheduled on.\<close>

definition agent_on :: "AgentRegistry \<Rightarrow> string \<Rightarrow> string \<Rightarrow> bool" where
  "agent_on agents uid node \<longleftrightarrow> (\<exists>info. ByUID agents uid = Some info \<and> ai_NodeName info = node)"

interpretation full: producer ar_ok "K8s_Authenticate api k" agent_on for api k
proof unfold_locales
  show "\<exists>e. K8s_Authenticate api k d [] = Inl e" for d
    by (simp add: K8s_Authenticate_def reviewToken_def)
  show "agent_on d (aa_PodUID ag) (aa_NodeName ag)" if "K8s_Authenticate api k d token = Inr ag" for d token ag
    using that by (auto simp: K8s_ok_iff agent_on_def)
  show "aa_PodUID ag \<noteq> [] \<and> aa_NodeName ag \<noteq> []"
    if "ar_ok d" "K8s_Authenticate api k d token = Inr ag" for d token ag
    using that(2) ar_okD(3) [OF that(1)] by (auto simp: K8s_ok_iff ByUID_def reviewToken_ok_iff)
qed

text \<open>In the baseline mode the claim of some valid token vouches; the registry plays no part.\<close>

definition token_claims :: "auth_api \<Rightarrow> string \<Rightarrow> string \<Rightarrow> bool" where
  "token_claims api uid node \<longleftrightarrow> (\<exists>token auds res. aa_TokenReview api token auds = Inr res \<and> trs_Authenticated res \<and>
     firstExtra (ui_Extra (trs_User res)) extraPodUID = uid \<and> firstExtra (ui_Extra (trs_User res)) extraNodeName = node)"

interpretation baseline: producer "\<lambda>_. True" "\<lambda>_. Token_Authenticate api t" "\<lambda>_. token_claims api" for api t
proof unfold_locales
  show "\<exists>e. Token_Authenticate api t [] = Inl e"
    by (simp add: Token_Authenticate_def reviewToken_def)
  show "token_claims api (aa_PodUID ag) (aa_NodeName ag)" if "Token_Authenticate api t token = Inr ag" for token ag
  proof -
    from that obtain res uid where "reviewToken api (ta_Audience t) token = Inr (res, uid)"
      and "ag = \<lparr>aa_PodUID = uid, aa_PodName = firstExtra (ui_Extra (trs_User res)) extraPodName,
               aa_Namespace = [], aa_ServiceAccount = ui_Username (trs_User res),
               aa_NodeName = firstExtra (ui_Extra (trs_User res)) extraNodeName\<rparr>"
      unfolding Token_ok_iff by blast
    then show ?thesis unfolding token_claims_def reviewToken_ok_iff by auto
  qed
  show "aa_PodUID ag \<noteq> [] \<and> aa_NodeName ag \<noteq> []" if "Token_Authenticate api t token = Inr ag" for token ag
    using that by (auto simp: Token_ok_iff reviewToken_ok_iff)
qed

lemma one_node_per_agent: "agent_on agents u n \<Longrightarrow> agent_on agents u n' \<Longrightarrow> n = n'"
  by (auto simp: agent_on_def)

section \<open>Properties\<close>

text \<open>
  C22. In the full mode a stream is let in exactly when its token passes the review for our audience and
  is bound to a Pod, RBAC allows that identity to report, and that Pod is a live agent of the
  expected namespace and service account; its node is then the one the directory has for that Pod.
\<close>

theorem full_mode_admits_exactly:
  "authenticate True (K8sAuth k) api agents md = Inr (Some ag) \<longleftrightarrow>
    (\<exists>v res info. md = Some v \<and> str_trim_prefix ''Bearer '' v \<noteq> [] \<and>
       aa_TokenReview api (str_trim_prefix ''Bearer '' v) [ka_Audience k] = Inr res \<and> trs_Authenticated res \<and>
       ka_Audience k \<in> set (trs_Audiences res) \<and> aa_PodUID ag \<noteq> [] \<and>
       aa_PodUID ag = firstExtra (ui_Extra (trs_User res)) extraPodUID \<and>
       (ka_Authorize k \<longrightarrow> aa_AccessReview api (access_spec (trs_User res)) = Inr True) \<and>
       ByUID agents (aa_PodUID ag) = Some info \<and>
       (ka_ExpectNamespace k = [] \<or> ai_Namespace info = ka_ExpectNamespace k) \<and>
       (ka_ExpectServiceAccount k = [] \<or> ai_ServiceAccount info = ka_ExpectServiceAccount k) \<and>
       aa_PodName ag = ai_PodName info \<and> aa_Namespace ag = ai_Namespace info \<and>
       aa_ServiceAccount ag = ai_ServiceAccount info \<and> aa_NodeName ag = ai_NodeName info)"
proof -
  have "authenticate True (K8sAuth k) api agents md = Inr (Some ag) \<longleftrightarrow>
      K8s_Authenticate api k agents (case md of None \<Rightarrow> [] | Some v \<Rightarrow> str_trim_prefix ''Bearer '' v) = Inr ag"
    by (auto simp: authenticate_def Let_def map_sum_def split: sum.splits)
  also have "\<dots> \<longleftrightarrow> (\<exists>v. md = Some v \<and> K8s_Authenticate api k agents (str_trim_prefix ''Bearer '' v) = Inr ag)"
    by (cases md) (simp_all add: K8s_ok_iff reviewToken_ok_iff)
  finally show ?thesis
    unfolding K8s_ok_iff reviewToken_ok_iff authorize_None_iff by (cases ag) auto
qed

definition example_user :: UserInfo where
  "example_user = \<lparr>ui_Username = ''sys:sa'', ui_UID = [], ui_Groups = [], ui_Extra = [(extraPodUID, [''u1''])]\<rparr>"

definition example_api :: auth_api where
  "example_api = \<lparr>aa_TokenReview = (\<lambda>token auds. Inr \<lparr>trs_Authenticated = (token = ''t''), trs_Error = [],
       trs_Audiences = auds, trs_User = example_user\<rparr>),
     aa_AccessReview = (\<lambda>sar. Inr (sar_User sar = ''sys:sa''))\<rparr>"

lemma full_mode_admits_exactly_witness:
  "authenticate True (K8sAuth \<lparr>ka_Audience = ''aud'', ka_ExpectNamespace = ''sys'', ka_ExpectServiceAccount = ''sa'', ka_Authorize = True\<rparr>)
     example_api example_agents (Some ''Bearer t'') = Inr (Some \<lparr>aa_PodUID = ''u1'', aa_PodName = ''agent'',
       aa_Namespace = ''sys'', aa_ServiceAccount = ''sa'', aa_NodeName = ''n1''\<rparr>)"
  unfolding full_mode_admits_exactly
  by (rule exI [of _ "''Bearer t''"])
     (simp add: example_api_def example_user_def firstExtra_def gm_get_def access_spec_def str_trim_prefix_def
       example_agents_def agent_Reconcile_def Let_def example_pod_def pod_info_def ar_upsert_def NewAgentRegistry_def ByUID_def gm_put_def)

text \<open>
  Nothing but the flags decides whether producers are authenticated: authentication is off exactly
  for \<^verbatim>\<open>none\<close> (or the older \<^verbatim>\<open>--require-agent-auth=false\<close>), the full mode always asks RBAC and
  pins namespace and service account, and an unknown mode starts nothing.
\<close>

theorem auth_mode_selection:
  "(select_auth ra mode aud ns sa = None \<longleftrightarrow> ra \<and> mode \<notin> {''full'', ''token'', ''token-sa'', ''none''}) \<and>
   ((\<exists>a. select_auth ra mode aud ns sa = Some (a, False)) \<longleftrightarrow> \<not> ra \<or> mode = ''none'') \<and>
   ((\<exists>k. select_auth ra mode aud ns sa = Some (K8sAuth k, True)) \<longleftrightarrow> ra \<and> mode = ''full'') \<and>
   (ra \<and> mode = ''full'' \<longrightarrow> select_auth ra mode aud ns sa = Some (K8sAuth \<lparr>ka_Audience = aud,
      ka_ExpectNamespace = ns, ka_ExpectServiceAccount = sa, ka_Authorize = True\<rparr>, True))"
  by (auto simp: select_auth_def Let_def)


lemma auth_mode_selection_witness: "select_auth True ''full'' ''a'' ''n'' ''s'' = Some (K8sAuth \<lparr>ka_Audience = ''a'',
    ka_ExpectNamespace = ''n'', ka_ExpectServiceAccount = ''s'', ka_Authorize = True\<rparr>, True)"
  using auth_mode_selection [of True "''full''" "''a''" "''n''" "''s''"] by simp

end
