(* ===== verification/Health_Store.thy ===== *)
theory Health_Store
  imports Registry
begin

text \<open>
  \<^verbatim>\<open>internal/controller/health_store.go\<close>: the two halves of the store (local and path
  observations) share one entry record and one set of half operations, as the two structs and
  the duplicated bodies of the source do. The clock \<^verbatim>\<open>s.now\<close> is an argument of the operations
  that read it. The locale \<open>lease\<close> is what a half promises: nothing is held that was not
  granted, and what is held keeps the instant at which it was granted.
\<close>

section \<open>State\<close>

record 'r health_entry =
  e_Report :: 'r
  e_Origin :: ReportOrigin
  e_AcceptedAt :: int
  e_expired :: bool

type_synonym localEntry = "LocalHealth health_entry"
type_synonym pathEntry = "PathHealth health_entry"

record HealthStore =
  hs_ttl :: int
  hs_local :: "(string, localEntry) gomap"
  hs_path :: "(string, pathEntry) gomap"
  hs_nodeInstance :: "(string, string) gomap"

definition NewHealthStore :: "int \<Rightarrow> HealthStore" where
  "NewHealthStore ttl = \<lparr>hs_ttl = ttl, hs_local = [], hs_path = [], hs_nodeInstance = []\<rparr>"

section \<open>Who may write\<close>

definition AdoptInstance :: "string \<Rightarrow> string \<Rightarrow> HealthStore \<Rightarrow> HealthStore \<times> string" where
  "AdoptInstance node inst s =
     (s\<lparr>hs_nodeInstance := gm_put node inst (hs_nodeInstance s)\<rparr>, gm_str (hs_nodeInstance s) node)"

definition currentLocked :: "HealthStore \<Rightarrow> ReportOrigin \<Rightarrow> bool" where
  "currentLocked s og \<longleftrightarrow> gm_get (hs_nodeInstance s) (or_NodeName og) = Some (or_AgentInstance og)"

section \<open>Operations on one half\<close>

definition new_entry :: "ReportOrigin \<Rightarrow> int \<Rightarrow> 'r \<Rightarrow> 'r health_entry" where
  "new_entry og now r = \<lparr>e_Report = r, e_Origin = og, e_AcceptedAt = now, e_expired = False\<rparr>"

definition in_order :: "('r health_entry) option \<Rightarrow> ReportOrigin \<Rightarrow> bool" where
  "in_order cur og = (case cur of
      None \<Rightarrow> True
    | Some e \<Rightarrow> \<not> (or_AgentInstance (e_Origin e) = or_AgentInstance og \<and> or_Sequence og \<le> or_Sequence (e_Origin e)))"

definition snapshot_half ::
  "('r \<Rightarrow> string) \<Rightarrow> ('r \<Rightarrow> string) \<Rightarrow> ReportOrigin \<Rightarrow> int \<Rightarrow> 'r list \<Rightarrow> (string, 'r health_entry) gomap \<Rightarrow> (string, 'r health_entry) gomap" where
  "snapshot_half key node og now rs m =
     gm_put_all key (new_entry og now) rs (gm_drop (\<lambda>_ e. node (e_Report e) = or_NodeName og) m)"

definition stale :: "int \<Rightarrow> int \<Rightarrow> 'r health_entry \<Rightarrow> bool" where
  "stale ttl now e \<longleftrightarrow> time_sub now (e_AcceptedAt e) > ttl"

datatype Expired = Expired (x_Kind: string) (x_ID: string) (x_Node: string)

definition sweep_half ::
  "string \<Rightarrow> ('r \<Rightarrow> string) \<Rightarrow> int \<Rightarrow> int \<Rightarrow> (string, 'r health_entry) gomap \<Rightarrow> (string, 'r health_entry) gomap \<times> Expired list" where
  "sweep_half kind node ttl now m =
     (map (\<lambda>(i, e). (i, if \<not> e_expired e \<and> stale ttl now e then e\<lparr>e_expired := True\<rparr> else e)) m,
      map (\<lambda>(i, e). Expired kind i (node (e_Report e))) (filter (\<lambda>(i, e). \<not> e_expired e \<and> stale ttl now e) m))"

definition prune_half :: "int \<Rightarrow> (string, 'r health_entry) gomap \<Rightarrow> (string, 'r health_entry) gomap" where
  "prune_half cutoff m = gm_drop (\<lambda>_ e. e_AcceptedAt e < cutoff) m"

section \<open>Operations of the store\<close>

definition AcceptLocal :: "ReportOrigin \<Rightarrow> LocalHealth \<Rightarrow> int \<Rightarrow> HealthStore \<Rightarrow> HealthStore \<times> go_error option" where
  "AcceptLocal og r now s =
     (if \<not> currentLocked s og then (s, Some ErrStaleInstance)
      else if \<not> in_order (gm_get (hs_local s) (lh_AttachmentID r)) og then (s, Some ErrOutOfOrder)
      else (s\<lparr>hs_local := gm_put (lh_AttachmentID r) (new_entry og now r) (hs_local s)\<rparr>, None))"

definition AcceptPath :: "ReportOrigin \<Rightarrow> PathHealth \<Rightarrow> int \<Rightarrow> HealthStore \<Rightarrow> HealthStore \<times> go_error option" where
  "AcceptPath og r now s =
     (if \<not> currentLocked s og then (s, Some ErrStaleInstance)
      else if \<not> in_order (gm_get (hs_path s) (ph_ScopeID r)) og then (s, Some ErrOutOfOrder)
      else (s\<lparr>hs_path := gm_put (ph_ScopeID r) (new_entry og now r) (hs_path s)\<rparr>, None))"

definition ApplySnapshot ::
  "ReportOrigin \<Rightarrow> LocalHealth list \<Rightarrow> PathHealth list \<Rightarrow> int \<Rightarrow> HealthStore \<Rightarrow> HealthStore \<times> go_error option" where
  "ApplySnapshot og locals paths now s =
     (if \<not> currentLocked s og then (s, Some ErrStaleInstance)
      else (s\<lparr>hs_local := snapshot_half lh_AttachmentID lh_NodeName og now locals (hs_local s),
              hs_path := snapshot_half ph_ScopeID ph_NodeName og now paths (hs_path s)\<rparr>, None))"

definition Local :: "HealthStore \<Rightarrow> int \<Rightarrow> string \<Rightarrow> LocalHealth \<times> bool" where
  "Local s now i = (case gm_get (hs_local s) i of
      None \<Rightarrow> (zero_LocalHealth, False)
    | Some e \<Rightarrow> (e_Report e, time_sub now (e_AcceptedAt e) \<le> hs_ttl s))"

definition Path :: "HealthStore \<Rightarrow> int \<Rightarrow> string \<Rightarrow> PathHealth \<times> bool" where
  "Path s now i = (case gm_get (hs_path s) i of
      None \<Rightarrow> (zero_PathHealth, False)
    | Some e \<Rightarrow> (e_Report e, time_sub now (e_AcceptedAt e) \<le> hs_ttl s))"

definition LocalState :: "HealthStore \<Rightarrow> int \<Rightarrow> string \<Rightarrow> State" where
  "LocalState s now i = (case Local s now i of (r, fresh) \<Rightarrow>
     if \<not> fresh then StateUnknown else if lh_Ready r then StateHealthy else StateUnhealthy)"

definition PathState :: "HealthStore \<Rightarrow> int \<Rightarrow> string \<Rightarrow> State" where
  "PathState s now i = (case Path s now i of (r, fresh) \<Rightarrow>
     if \<not> fresh then StateUnknown else if ph_PathReady r then StateHealthy else StateUnhealthy)"

definition ForgetLocal :: "string \<Rightarrow> HealthStore \<Rightarrow> HealthStore" where
  "ForgetLocal i s = s\<lparr>hs_local := gm_del i (hs_local s)\<rparr>"

definition SweepExpired :: "int \<Rightarrow> HealthStore \<Rightarrow> HealthStore \<times> Expired list" where
  "SweepExpired now s = (case sweep_half ''local'' lh_NodeName (hs_ttl s) now (hs_local s) of (l, xl) \<Rightarrow>
     case sweep_half ''path'' ph_NodeName (hs_ttl s) now (hs_path s) of (p, xp) \<Rightarrow>
       (s\<lparr>hs_local := l, hs_path := p\<rparr>, xl @ xp))"

definition Prune :: "int \<Rightarrow> HealthStore \<Rightarrow> HealthStore \<times> nat \<times> nat" where
  "Prune now s = (let cutoff = now + dur_mul (- 2) (hs_ttl s);
       l = prune_half cutoff (hs_local s); p = prune_half cutoff (hs_path s) in
     (s\<lparr>hs_local := l, hs_path := p\<rparr>, length (hs_local s) - length l, length (hs_path s) - length p))"

definition hs_Len :: "HealthStore \<Rightarrow> nat \<times> nat" where
  "hs_Len s = (length (hs_local s), length (hs_path s))"

section \<open>The invariant\<close>

definition half_ok :: "('r \<Rightarrow> string) \<Rightarrow> (string, 'r health_entry) gomap \<Rightarrow> bool" where
  "half_ok key m \<longleftrightarrow> gm_wf m \<and> (\<forall>(i, e) \<in> set m. key (e_Report e) = i)"

definition hs_ok :: "HealthStore \<Rightarrow> bool" where
  "hs_ok s \<longleftrightarrow> half_ok lh_AttachmentID (hs_local s) \<and> half_ok ph_ScopeID (hs_path s) \<and>
     gm_wf (hs_nodeInstance s)"

lemma half_ok_alt: "half_ok key m \<longleftrightarrow> gm_wf m \<and> (\<forall>i e. gm_get m i = Some e \<longrightarrow> key (e_Report e) = i)"
  unfolding half_ok_def using gm_mem_iff [of m] by fastforce

lemma half_ok_Nil [simp]: "half_ok key []"
  by (simp add: half_ok_def)

lemma half_ok_put [simp, goinv]: "half_ok key m \<Longrightarrow> key r = i \<Longrightarrow> half_ok key (gm_put i (new_entry og now r) m)"
  by (simp add: half_ok_alt new_entry_def)

lemma half_ok_del [simp, goinv]: "half_ok key m \<Longrightarrow> half_ok key (gm_del i m)"
  by (simp add: half_ok_alt)

lemma half_ok_drop [simp, goinv]: "half_ok key m \<Longrightarrow> half_ok key (gm_drop p m)"
  by (auto simp: half_ok_alt gm_get_drop split: option.splits if_splits)

lemma half_ok_put_all [simp, goinv]: "half_ok key m \<Longrightarrow> half_ok key (gm_put_all key (new_entry og now) rs m)"
  by (induction rs arbitrary: m) auto

lemma half_ok_snapshot [simp, goinv]: "half_ok key m \<Longrightarrow> half_ok key (snapshot_half key node og now rs m)"
  by (simp add: snapshot_half_def)

lemma half_ok_prune [simp, goinv]: "half_ok key m \<Longrightarrow> half_ok key (prune_half cutoff m)"
  by (simp add: prune_half_def)

lemma sweep_keys [simp]: "map fst (fst (sweep_half kind node ttl now m)) = map fst m"
  by (simp add: sweep_half_def case_prod_beta')

lemma sweep_get:
  "gm_get (fst (sweep_half kind node ttl now m)) i
     = map_option (\<lambda>e. if \<not> e_expired e \<and> stale ttl now e then e\<lparr>e_expired := True\<rparr> else e) (gm_get m i)"
  unfolding sweep_half_def gm_get_def by (induction m) auto

lemma half_ok_sweep [simp, goinv]: "half_ok key m \<Longrightarrow> half_ok key (fst (sweep_half kind node ttl now m))"
  by (auto simp: half_ok_alt sweep_get gm_wf_def split: if_splits)

lemma hs_ok_New [simp, goinv]: "hs_ok (NewHealthStore ttl)"
  by (simp add: hs_ok_def NewHealthStore_def)

lemma hs_ok_Adopt [simp, goinv]: "hs_ok s \<Longrightarrow> hs_ok (fst (AdoptInstance node inst s))"
  by (simp add: hs_ok_def AdoptInstance_def)

lemma hs_ok_AcceptLocal [simp, goinv]: "hs_ok s \<Longrightarrow> hs_ok (fst (AcceptLocal og r now s))"
  by (simp add: hs_ok_def AcceptLocal_def)

lemma hs_ok_AcceptPath [simp, goinv]: "hs_ok s \<Longrightarrow> hs_ok (fst (AcceptPath og r now s))"
  by (simp add: hs_ok_def AcceptPath_def)

lemma hs_ok_ApplySnapshot [simp, goinv]: "hs_ok s \<Longrightarrow> hs_ok (fst (ApplySnapshot og ls ps now s))"
  by (simp add: hs_ok_def ApplySnapshot_def)

lemma hs_ok_Forget [simp, goinv]: "hs_ok s \<Longrightarrow> hs_ok (ForgetLocal i s)"
  by (simp add: hs_ok_def ForgetLocal_def)

lemma SweepExpired_fst:
  "fst (SweepExpired now s) = s\<lparr>hs_local := fst (sweep_half ''local'' lh_NodeName (hs_ttl s) now (hs_local s)),
     hs_path := fst (sweep_half ''path'' ph_NodeName (hs_ttl s) now (hs_path s))\<rparr>"
  by (simp add: SweepExpired_def case_prod_beta')

lemma SweepExpired_snd:
  "snd (SweepExpired now s) = snd (sweep_half ''local'' lh_NodeName (hs_ttl s) now (hs_local s)) @
     snd (sweep_half ''path'' ph_NodeName (hs_ttl s) now (hs_path s))"
  by (simp add: SweepExpired_def case_prod_beta')

lemma hs_ok_Sweep [simp, goinv]: "hs_ok s \<Longrightarrow> hs_ok (fst (SweepExpired now s))"
  by (simp add: hs_ok_def SweepExpired_fst)

lemma hs_ok_Prune [simp, goinv]: "hs_ok s \<Longrightarrow> hs_ok (fst (Prune now s))"
  by (simp add: hs_ok_def Prune_def Let_def)


section \<open>What each operation leaves behind\<close>

lemma snapshot_get:
  assumes "gm_wf m"
  shows "gm_get (snapshot_half key node og now rs m) i
     = (case find (\<lambda>r. key r = i) (rev rs) of
          Some r \<Rightarrow> Some (new_entry og now r)
        | None \<Rightarrow> (case gm_get m i of None \<Rightarrow> None
                    | Some e \<Rightarrow> if node (e_Report e) = or_NodeName og then None else Some e))"
  using assms by (auto simp: snapshot_half_def gm_get_put_all gm_get_drop split: option.splits)

lemma prune_get:
  "gm_wf m \<Longrightarrow> gm_get (prune_half cutoff m) i
     = (case gm_get m i of None \<Rightarrow> None | Some e \<Rightarrow> if e_AcceptedAt e < cutoff then None else Some e)"
  by (simp add: prune_half_def gm_get_drop)

lemma sweep_reports:
  "gm_wf m \<Longrightarrow> x \<in> set (snd (sweep_half kind node ttl now m)) \<longleftrightarrow>
     (\<exists>i e. gm_get m i = Some e \<and> \<not> e_expired e \<and> stale ttl now e \<and> x = Expired kind i (node (e_Report e)))"
  unfolding sweep_half_def by (auto simp: gm_mem_iff)

lemma sweep_distinct: "gm_wf m \<Longrightarrow> distinct (map x_ID (snd (sweep_half kind node ttl now m)))"
  unfolding sweep_half_def gm_wf_def
  by (simp add: case_prod_beta' comp_def distinct_map_filter)

lemma stale_mono: "stale ttl now e \<Longrightarrow> now \<le> now' \<Longrightarrow> stale ttl now' e"
  using time_sub_mono [of now now' "e_AcceptedAt e"] by (simp add: stale_def)

lemma stale_sweep [simp]: "stale ttl now (e\<lparr>e_expired := b\<rparr>) \<longleftrightarrow> stale ttl now e"
  by (simp add: stale_def)

text \<open>The accepted report and its instant, the part of an entry readers depend on.\<close>

definition held :: "(string, 'r health_entry) gomap \<Rightarrow> string \<Rightarrow> ('r \<times> int) option" where
  "held m i = map_option (\<lambda>e. (e_Report e, e_AcceptedAt e)) (gm_get m i)"

lemma held_sweep [simp]: "held (fst (sweep_half kind node ttl now m)) i = held m i"
  by (auto simp: held_def sweep_get option.map_comp comp_def intro: option.map_cong)

lemma held_prune:
  assumes "gm_wf m"
  shows "held (prune_half cutoff m) i
     = (case held m i of None \<Rightarrow> None | Some (r, t) \<Rightarrow> if t < cutoff then None else Some (r, t))"
  using assms by (auto simp: held_def prune_get split: option.splits)

lemma held_put [simp]: "held (gm_put j (new_entry og now r) m) i = (if i = j then Some (r, now) else held m i)"
  by (simp add: held_def new_entry_def)

lemma held_del [simp]: "held (gm_del j m) i = (if i = j then None else held m i)"
  by (simp add: held_def)

lemma held_snapshot:
  assumes "gm_wf m"
  shows "held (snapshot_half key node og now rs m) i
     = (case find (\<lambda>r. key r = i) (rev rs) of
          Some r \<Rightarrow> Some (r, now)
        | None \<Rightarrow> (case held m i of None \<Rightarrow> None
                    | Some (r, t) \<Rightarrow> if node r = or_NodeName og then None else Some (r, t)))"
  by (auto simp: held_def snapshot_get [OF assms] new_entry_def split: option.splits)

text \<open>The tri-state views, in terms of what is held.\<close>

definition verdict :: "('r \<Rightarrow> bool) \<Rightarrow> int \<Rightarrow> int \<Rightarrow> ('r \<times> int) option \<Rightarrow> State" where
  "verdict ready ttl now h = (case h of
      None \<Rightarrow> StateUnknown
    | Some (r, t) \<Rightarrow> if time_sub now t \<le> ttl then (if ready r then StateHealthy else StateUnhealthy) else StateUnknown)"

lemma LocalState_held: "LocalState s now i = verdict lh_Ready (hs_ttl s) now (held (hs_local s) i)"
  by (auto simp: LocalState_def Local_def verdict_def held_def split: option.splits)

lemma PathState_held: "PathState s now i = verdict ph_PathReady (hs_ttl s) now (held (hs_path s) i)"
  by (auto simp: PathState_def Path_def verdict_def held_def split: option.splits)

text \<open>The window the code assumes of its configuration.\<close>

definition ttl_ok :: "int \<Rightarrow> bool" where
  "ttl_ok ttl \<longleftrightarrow> 0 \<le> ttl \<and> 2 * ttl < 2 ^ 63"

lemma ttl_ok_mul: "ttl_ok ttl \<Longrightarrow> dur_mul (- 2) ttl = - 2 * ttl"
  unfolding ttl_ok_def dur_mul_def by (subst int64_wrap_id) auto

lemma stale_iff: "ttl_ok ttl \<Longrightarrow> stale ttl now e \<longleftrightarrow> ttl < now - e_AcceptedAt e"
  using time_sub_le [of ttl now "e_AcceptedAt e"] by (auto simp: stale_def ttl_ok_def)

lemma verdict_prune:
  assumes "gm_wf m" and "ttl_ok ttl" and "now0 \<le> now"
  shows "verdict ready ttl now (held (prune_half (now0 + dur_mul (- 2) ttl) m) i) = verdict ready ttl now (held m i)"
proof -
  have "time_sub now t \<le> ttl \<Longrightarrow> \<not> t < now0 + - 2 * ttl" for t
    using assms(2,3) by (auto simp: time_sub_def ttl_ok_def)
  then show ?thesis
    using assms(1,2)
    by (cases "held m i") (auto simp: held_prune verdict_def ttl_ok_mul split: option.split_asm if_split_asm)
qed

section \<open>A lease: what is held was granted\<close>

locale lease =
  fixes run :: "'op \<Rightarrow> 's \<Rightarrow> 's"
    and holds :: "'s \<Rightarrow> string \<Rightarrow> ('v \<times> int) option"
    and grants :: "'s \<Rightarrow> 'op \<Rightarrow> string \<Rightarrow> 'v \<Rightarrow> int \<Rightarrow> bool"
    and inv :: "'s \<Rightarrow> bool"
  assumes inv_run: "inv s \<Longrightarrow> inv (run op s)"
    and no_gift: "inv s \<Longrightarrow> holds (run op s) k = Some (v, t) \<Longrightarrow> grants s op k v t \<or> holds s k = Some (v, t)"
begin

lemma inv_runs: "inv s \<Longrightarrow> inv (fold run ops s)"
  by (induction ops arbitrary: s) (auto intro: inv_run)

lemma granted_before:
  assumes "inv s" and "holds (fold run ops s) k = Some (v, t)" and "holds s k = None"
  shows "\<exists>pre op post. ops = pre @ op # post \<and> grants (fold run pre s) op k v t"
  using assms(2)
proof (induction ops rule: rev_induct)
  case Nil
  then show ?case using assms(3) by simp
next
  case (snoc op ops)
  show ?case
  proof (cases "grants (fold run ops s) op k v t")
    case True
    then show ?thesis by blast
  next
    case False
    with snoc.prems have "holds (fold run ops s) k = Some (v, t)"
      using no_gift [OF inv_runs [OF assms(1)]] by fastforce
    from snoc.IH [OF this] obtain pre op' post
      where "ops = pre @ op' # post" and g: "grants (fold run pre s) op' k v t"
      by blast
    then have "ops @ [op] = pre @ op' # (post @ [op])" by simp
    with g show ?thesis by blast
  qed
qed

end

text \<open>A lease that expires: a reader sees it for \<open>ttl\<close> and no longer.\<close>

locale timed_lease = lease run holds grants inv
  for run :: "'op \<Rightarrow> 's \<Rightarrow> 's" and holds :: "'s \<Rightarrow> string \<Rightarrow> ('v \<times> int) option"
    and grants :: "'s \<Rightarrow> 'op \<Rightarrow> string \<Rightarrow> 'v \<Rightarrow> int \<Rightarrow> bool" and inv :: "'s \<Rightarrow> bool" +
  fixes window :: "'s \<Rightarrow> int"
    and state :: "'s \<Rightarrow> int \<Rightarrow> string \<Rightarrow> State"
    and good :: "'v \<Rightarrow> bool"
  assumes window_run: "window (run op s) = window s"
    and state: "state s now k = verdict good (window s) now (holds s k)"
begin

lemma window_runs: "window (fold run ops s) = window s"
  by (induction ops arbitrary: s) (auto simp: window_run)

text \<open>Health only decays: with no new report, a known state stays or becomes unknown.\<close>

lemma decay:
  assumes "now \<le> now'" and "state s now' k \<noteq> StateUnknown"
  shows "state s now k = state s now' k"
proof -
  have "time_sub now t \<le> time_sub now' t" for t by (rule time_sub_mono [OF assms(1)])
  then have "time_sub now t \<le> w" if "time_sub now' t \<le> w" for t w using that order_trans by blast
  then show ?thesis
    using assms(2) unfolding state verdict_def by (auto split: option.splits if_splits)
qed

text \<open>Healthy is earned: a good report was accepted, in this history, at most \<open>ttl\<close> ago.\<close>

lemma earned:
  assumes "inv s" and "holds s k = None" and "ttl_ok (window s)"
    and "state (fold run ops s) now k = StateHealthy"
  shows "\<exists>pre op post v t. ops = pre @ op # post \<and> grants (fold run pre s) op k v t \<and> good v \<and> now - t \<le> window s"
proof -
  from assms(4) obtain v t where h: "holds (fold run ops s) k = Some (v, t)"
    and t: "time_sub now t \<le> window s" and "good v"
    by (auto simp: state verdict_def window_runs split: option.splits if_splits)
  moreover have "now - t \<le> window s"
    using t assms(3) time_sub_le [of "window s" now t] by (auto simp: ttl_ok_def)
  ultimately show ?thesis using granted_before [OF assms(1) h assms(2)] by blast
qed

end

section \<open>Histories of the store\<close>

datatype store_op =
    OpAdopt string string
  | OpLocal ReportOrigin LocalHealth int
  | OpPath ReportOrigin PathHealth int
  | OpSnapshot ReportOrigin "LocalHealth list" "PathHealth list" int
  | OpForget string
  | OpSweep int
  | OpPrune int

fun store_run :: "store_op \<Rightarrow> HealthStore \<Rightarrow> HealthStore" where
  "store_run (OpAdopt node inst) s = fst (AdoptInstance node inst s)"
| "store_run (OpLocal og r now) s = fst (AcceptLocal og r now s)"
| "store_run (OpPath og r now) s = fst (AcceptPath og r now s)"
| "store_run (OpSnapshot og ls ps now) s = fst (ApplySnapshot og ls ps now s)"
| "store_run (OpForget i) s = ForgetLocal i s"
| "store_run (OpSweep now) s = fst (SweepExpired now s)"
| "store_run (OpPrune now) s = fst (Prune now s)"

text \<open>An operation grants a local lease when it comes from the node's current agent process.\<close>

fun grants_local :: "HealthStore \<Rightarrow> store_op \<Rightarrow> string \<Rightarrow> LocalHealth \<Rightarrow> int \<Rightarrow> bool" where
  "grants_local s (OpLocal og r now) i v t \<longleftrightarrow>
     currentLocked s og \<and> i = lh_AttachmentID r \<and> v = r \<and> t = now"
| "grants_local s (OpSnapshot og ls ps now) i v t \<longleftrightarrow>
     currentLocked s og \<and> v \<in> set ls \<and> i = lh_AttachmentID v \<and> t = now"
| "grants_local s _ i v t \<longleftrightarrow> False"

fun grants_path :: "HealthStore \<Rightarrow> store_op \<Rightarrow> string \<Rightarrow> PathHealth \<Rightarrow> int \<Rightarrow> bool" where
  "grants_path s (OpPath og r now) i v t \<longleftrightarrow>
     currentLocked s og \<and> i = ph_ScopeID r \<and> v = r \<and> t = now"
| "grants_path s (OpSnapshot og ls ps now) i v t \<longleftrightarrow>
     currentLocked s og \<and> v \<in> set ps \<and> i = ph_ScopeID v \<and> t = now"
| "grants_path s _ i v t \<longleftrightarrow> False"

lemma hs_ok_run [simp, goinv]: "hs_ok s \<Longrightarrow> hs_ok (store_run op s)"
  by (cases op) auto

lemma ttl_run [simp]: "hs_ttl (store_run op s) = hs_ttl s"
  by (cases op) (auto simp: AdoptInstance_def AcceptLocal_def AcceptPath_def ApplySnapshot_def ForgetLocal_def
      SweepExpired_fst Prune_def Let_def)

lemma hs_ok_wf: "hs_ok s \<Longrightarrow> gm_wf (hs_local s)" "hs_ok s \<Longrightarrow> gm_wf (hs_path s)"
  by (auto simp: hs_ok_def half_ok_def)

lemma find_rev_mem: "find P (rev xs) = Some x \<Longrightarrow> x \<in> set xs \<and> P x"
  using find_Some_iff [of P "rev xs" x] nth_mem [of _ "rev xs"] by auto

lemma grants_local_sound:
  assumes "hs_ok s" and "held (hs_local (store_run op s)) k = Some (v, t)"
  shows "grants_local s op k v t \<or> held (hs_local s) k = Some (v, t)"
  using assms hs_ok_wf(1) [OF assms(1)]
  by (cases op)
     (auto simp: AdoptInstance_def AcceptLocal_def AcceptPath_def ApplySnapshot_def ForgetLocal_def
       SweepExpired_fst Prune_def Let_def held_snapshot held_prune
       split: if_splits option.splits dest: find_rev_mem)

lemma grants_path_sound:
  assumes "hs_ok s" and "held (hs_path (store_run op s)) k = Some (v, t)"
  shows "grants_path s op k v t \<or> held (hs_path s) k = Some (v, t)"
  using assms hs_ok_wf(2) [OF assms(1)]
  by (cases op)
     (auto simp: AdoptInstance_def AcceptLocal_def AcceptPath_def ApplySnapshot_def ForgetLocal_def
       SweepExpired_fst Prune_def Let_def held_snapshot held_prune
       split: if_splits option.splits dest: find_rev_mem)

interpretation local_lease: timed_lease store_run "\<lambda>s. held (hs_local s)" grants_local hs_ok hs_ttl LocalState lh_Ready
  by unfold_locales (use grants_local_sound LocalState_held in \<open>auto simp del: store_run.simps\<close>)

interpretation path_lease: timed_lease store_run "\<lambda>s. held (hs_path s)" grants_path hs_ok hs_ttl PathState ph_PathReady
  by unfold_locales (use grants_path_sound PathState_held in \<open>auto simp del: store_run.simps\<close>)

section \<open>Properties\<close>

text \<open>
  A snapshot from the node's current agent process replaces, in one step, exactly what the store
  held for that node: afterwards an id has the last report of the snapshot that names it, or else
  what it had before unless that was a report of this node. The authority map is untouched.
\<close>

theorem snapshot_replaces_node:
  assumes "hs_ok s" and "currentLocked s og"
  shows "snd (ApplySnapshot og ls ps now s) = None \<and>
    hs_nodeInstance (fst (ApplySnapshot og ls ps now s)) = hs_nodeInstance s \<and>
    gm_get (hs_local (fst (ApplySnapshot og ls ps now s))) i =
      (case find (\<lambda>r. lh_AttachmentID r = i) (rev ls) of
         Some r \<Rightarrow> Some (new_entry og now r)
       | None \<Rightarrow> (case gm_get (hs_local s) i of None \<Rightarrow> None
                   | Some e \<Rightarrow> if lh_NodeName (e_Report e) = or_NodeName og then None else Some e)) \<and>
    gm_get (hs_path (fst (ApplySnapshot og ls ps now s))) i =
      (case find (\<lambda>r. ph_ScopeID r = i) (rev ps) of
         Some r \<Rightarrow> Some (new_entry og now r)
       | None \<Rightarrow> (case gm_get (hs_path s) i of None \<Rightarrow> None
                   | Some e \<Rightarrow> if ph_NodeName (e_Report e) = or_NodeName og then None else Some e))"
  using assms(2) hs_ok_wf [OF assms(1)] by (simp add: ApplySnapshot_def snapshot_get)

text \<open>
  Once a newer process has been adopted for a node, nothing the older one sends changes the
  store: every report and snapshot is refused as stale.
\<close>

theorem superseded_instance_refused:
  assumes "or_NodeName og = node" and "or_AgentInstance og \<noteq> inst"
  shows "let s' = fst (AdoptInstance node inst s) in
    AcceptLocal og l now s' = (s', Some ErrStaleInstance) \<and>
    AcceptPath og p now s' = (s', Some ErrStaleInstance) \<and>
    ApplySnapshot og ls ps now s' = (s', Some ErrStaleInstance)"
  using assms by (simp add: AdoptInstance_def AcceptLocal_def AcceptPath_def ApplySnapshot_def currentLocked_def)

definition example_origin :: ReportOrigin where
  "example_origin = \<lparr>or_NodeName = ''n1'', or_AgentInstance = ''i1'', or_Sequence = 7\<rparr>"

definition example_local :: LocalHealth where
  "example_local = zero_LocalHealth\<lparr>lh_AttachmentID := ''a'', lh_NodeName := ''n1'', lh_InterfaceExists := True,
     lh_AddressPresent := True, lh_LinkUsable := True\<rparr>"

definition example_path :: PathHealth where
  "example_path = zero_PathHealth\<lparr>ph_ScopeID := ''a'', ph_NodeName := ''n1'', ph_PathReady := True\<rparr>"

definition example_store :: HealthStore where
  "example_store = fst (AcceptPath example_origin example_path 0
     (fst (AcceptLocal example_origin example_local 0
       (fst (AdoptInstance ''n1'' ''i1'' (NewHealthStore (10 * time_Second)))))))"

lemma example_ok: "hs_ok example_store" "currentLocked example_store example_origin"
  by (simp_all add: example_store_def)
     (simp add: AcceptPath_def AcceptLocal_def AdoptInstance_def currentLocked_def example_origin_def in_order_def
        NewHealthStore_def)

lemma snapshot_replaces_node_witness:
  "gm_get (hs_local (fst (ApplySnapshot example_origin [] [] 5 example_store))) ''a'' = None"
  using snapshot_replaces_node [OF example_ok, of "[]" "[]" 5 "''a''"]
  by (simp add: example_store_def AcceptPath_def AcceptLocal_def AdoptInstance_def currentLocked_def
      example_origin_def example_local_def example_path_def in_order_def new_entry_def NewHealthStore_def zero_LocalHealth_def
      zero_PathHealth_def)

lemma superseded_instance_refused_witness:
  "snd (AcceptLocal example_origin example_local 9 (fst (AdoptInstance ''n1'' ''i2'' example_store))) = Some ErrStaleInstance"
  using superseded_instance_refused [of example_origin "''n1''" "''i2''"]
  by (simp add: example_origin_def Let_def)

text \<open>
  A delta is accepted only when its sequence number advances over the one held from the same
  process, in both halves of the store; a repeated or older one is refused and changes nothing.
\<close>

theorem sequence_must_advance:
  assumes "currentLocked s og"
  shows "(case gm_get (hs_local s) (lh_AttachmentID l) of
      Some e \<Rightarrow> or_AgentInstance (e_Origin e) = or_AgentInstance og \<and> or_Sequence og \<le> or_Sequence (e_Origin e)
    | None \<Rightarrow> False) = (AcceptLocal og l now s = (s, Some ErrOutOfOrder)) \<and>
    (AcceptLocal og l now s \<noteq> (s, Some ErrOutOfOrder)) = (snd (AcceptLocal og l now s) = None \<and>
       gm_get (hs_local (fst (AcceptLocal og l now s))) (lh_AttachmentID l) = Some (new_entry og now l)) \<and>
    (case gm_get (hs_path s) (ph_ScopeID p) of
      Some e \<Rightarrow> or_AgentInstance (e_Origin e) = or_AgentInstance og \<and> or_Sequence og \<le> or_Sequence (e_Origin e)
    | None \<Rightarrow> False) = (AcceptPath og p now s = (s, Some ErrOutOfOrder)) \<and>
    (AcceptPath og p now s \<noteq> (s, Some ErrOutOfOrder)) = (snd (AcceptPath og p now s) = None \<and>
       gm_get (hs_path (fst (AcceptPath og p now s))) (ph_ScopeID p) = Some (new_entry og now p))"
  using assms by (simp add: AcceptLocal_def AcceptPath_def in_order_def split: option.split)

lemma sequence_must_advance_witness:
  "AcceptLocal example_origin example_local 3 example_store = (example_store, Some ErrOutOfOrder)"
  using sequence_must_advance [OF example_ok(2), of example_local 3 example_path]
  by (simp add: example_store_def AcceptPath_def AcceptLocal_def AdoptInstance_def currentLocked_def
      example_origin_def example_local_def example_path_def in_order_def new_entry_def NewHealthStore_def zero_LocalHealth_def
      zero_PathHealth_def)

lemma sweep_again:
  assumes "gm_wf m" and "now \<le> now'"
  shows "set (snd (sweep_half kind node ttl now' (fst (sweep_half kind node ttl now m))))
      = set (snd (sweep_half kind node ttl now' m)) - set (snd (sweep_half kind node ttl now m))"
    and "set (snd (sweep_half kind node ttl now m)) \<subseteq> set (snd (sweep_half kind node ttl now' m))"
proof -
  let ?m = "fst (sweep_half kind node ttl now m)"
  have wf: "gm_wf ?m" using assms(1) by (simp add: gm_wf_def)
  have mono: "stale ttl now e \<Longrightarrow> stale ttl now' e" for e :: "'a health_entry"
    using stale_mono assms(2) by blast
  show "set (snd (sweep_half kind node ttl now m)) \<subseteq> set (snd (sweep_half kind node ttl now' m))"
    using mono by (auto simp: sweep_reports [OF assms(1)])
  have key: "(\<exists>e. gm_get ?m i = Some e \<and> \<not> e_expired e \<and> stale ttl now' e \<and> x = Expired kind i (node (e_Report e))) \<longleftrightarrow>
      (\<exists>e. gm_get m i = Some e \<and> \<not> e_expired e \<and> \<not> stale ttl now e \<and> stale ttl now' e \<and> x = Expired kind i (node (e_Report e)))"
    for i x
    by (cases "gm_get m i") (auto simp: sweep_get)
  show "set (snd (sweep_half kind node ttl now' ?m))
      = set (snd (sweep_half kind node ttl now' m)) - set (snd (sweep_half kind node ttl now m))"
    by (rule set_eqI) (auto simp: sweep_reports [OF assms(1)] sweep_reports [OF wf] key)
qed

text \<open>
  A sweep changes no verdict, and reports each expiry once: a later sweep, with no report in
  between, reports exactly the entries that have gone stale since.
\<close>

theorem sweep_reports_once:
  assumes "hs_ok s" and "now \<le> now'"
  shows "LocalState (fst (SweepExpired now s)) t i = LocalState s t i \<and>
    PathState (fst (SweepExpired now s)) t i = PathState s t i \<and>
    set (snd (SweepExpired now' (fst (SweepExpired now s)))) =
      {x \<in> set (snd (SweepExpired now' s)). x \<notin> set (snd (SweepExpired now s))} \<and>
    set (snd (SweepExpired now s)) \<subseteq> set (snd (SweepExpired now' s))"
proof -
  let ?l = "\<lambda>u m. snd (sweep_half ''local'' lh_NodeName (hs_ttl s) u m)"
    and ?p = "\<lambda>u m. snd (sweep_half ''path'' ph_NodeName (hs_ttl s) u m)"
  note wf = hs_ok_wf [OF assms(1)]
  note L = sweep_again [OF wf(1) assms(2)] and P = sweep_again [OF wf(2) assms(2)]
  have disj: "set (?l u (hs_local s)) \<inter> set (?p u' (hs_path s)) = {}" for u u'
    by (auto simp: sweep_reports [OF wf(1)] sweep_reports [OF wf(2)])
  have "set (snd (SweepExpired now' (fst (SweepExpired now s))))
      = (set (?l now' (hs_local s)) - set (?l now (hs_local s))) \<union> (set (?p now' (hs_path s)) - set (?p now (hs_path s)))"
    by (simp add: SweepExpired_fst SweepExpired_snd L(1) P(1))
  moreover have "\<dots> = {x \<in> set (snd (SweepExpired now' s)). x \<notin> set (snd (SweepExpired now s))}"
    using disj [of now' now] disj [of now now'] by (simp add: SweepExpired_snd) blast
  moreover have "set (snd (SweepExpired now s)) \<subseteq> set (snd (SweepExpired now' s))"
    using L(2) P(2) by (simp add: SweepExpired_snd) blast
  ultimately show ?thesis by (simp add: LocalState_held PathState_held SweepExpired_fst)
qed


lemma sweep_reports_once_witness:
  "snd (SweepExpired (12 * time_Second) (fst (SweepExpired (11 * time_Second) example_store))) = []"
proof -
  have "set (snd (SweepExpired (12 * time_Second) example_store)) \<subseteq> set (snd (SweepExpired (11 * time_Second) example_store))"
    by (simp add: example_store_def AcceptPath_def AcceptLocal_def AdoptInstance_def currentLocked_def
      example_origin_def example_local_def example_path_def in_order_def new_entry_def NewHealthStore_def zero_LocalHealth_def
      zero_PathHealth_def SweepExpired_def sweep_half_def stale_def time_sub_def gm_put_def)
  then have "set (snd (SweepExpired (12 * time_Second) (fst (SweepExpired (11 * time_Second) example_store)))) = {}"
    using sweep_reports_once [OF example_ok(1), of "11 * time_Second" "12 * time_Second"] by auto
  then show ?thesis by simp
qed

lemma prune_stale:
  "ttl_ok ttl \<Longrightarrow> e_AcceptedAt e < now - 2 * ttl \<Longrightarrow> now - now0 \<le> ttl \<Longrightarrow> stale ttl now0 e"
  by (simp add: stale_iff)

text \<open>
  Pruning is invisible: from the moment of the prune on, every verdict is what it would have been
  without it. And when a sweep ran at most one window earlier, everything pruned had been reported.
\<close>

theorem prune_is_invisible:
  assumes "hs_ok s" and "ttl_ok (hs_ttl s)" and "now \<le> t"
  shows "LocalState (fst (Prune now s)) t i = LocalState s t i \<and>
    PathState (fst (Prune now s)) t i = PathState s t i \<and>
    (gm_get (hs_local s) i = Some e \<and> gm_get (hs_local (fst (Prune now s))) i = None \<and> now - now0 \<le> hs_ttl s
      \<longrightarrow> stale (hs_ttl s) now0 e) \<and>
    (gm_get (hs_path s) i = Some f \<and> gm_get (hs_path (fst (Prune now s))) i = None \<and> now - now0 \<le> hs_ttl s
      \<longrightarrow> stale (hs_ttl s) now0 f)"
proof -
  have "LocalState (fst (Prune now s)) t i = LocalState s t i" "PathState (fst (Prune now s)) t i = PathState s t i"
    using hs_ok_wf [OF assms(1)] assms(2,3)
    by (simp_all add: Prune_def Let_def LocalState_held PathState_held verdict_prune)
  moreover have "gm_get (hs_local s) i = Some e \<and> gm_get (hs_local (fst (Prune now s))) i = None \<and> now - now0 \<le> hs_ttl s
      \<longrightarrow> stale (hs_ttl s) now0 e"
    using hs_ok_wf [OF assms(1)] assms(2) prune_stale [OF assms(2), of e now now0]
    by (auto simp: Prune_def Let_def prune_get ttl_ok_mul split: if_splits)
  moreover have "gm_get (hs_path s) i = Some f \<and> gm_get (hs_path (fst (Prune now s))) i = None \<and> now - now0 \<le> hs_ttl s
      \<longrightarrow> stale (hs_ttl s) now0 f"
    using hs_ok_wf [OF assms(1)] assms(2) prune_stale [OF assms(2), of f now now0]
    by (auto simp: Prune_def Let_def prune_get ttl_ok_mul split: if_splits)
  ultimately show ?thesis by blast
qed

lemma prune_is_invisible_witness:
  "LocalState (fst (Prune (25 * time_Second) example_store)) (26 * time_Second) ''a'' = StateUnknown"
  using prune_is_invisible [OF example_ok(1), of "25 * time_Second" "26 * time_Second" "''a''"]
  by (simp add: example_store_def AcceptPath_def AcceptLocal_def AdoptInstance_def currentLocked_def
      example_origin_def example_local_def example_path_def in_order_def new_entry_def NewHealthStore_def zero_LocalHealth_def
      zero_PathHealth_def ttl_ok_def LocalState_def Local_def time_sub_def)

text \<open>
  With no new report, health only decays: a state that is known later was already known, with the
  same value, earlier. So a silent agent can only drive its attachments to unknown.
\<close>

theorem health_only_decays:
  assumes "now \<le> now'"
  shows "(LocalState s now' i \<noteq> StateUnknown \<longrightarrow> LocalState s now i = LocalState s now' i) \<and>
    (PathState s now' i \<noteq> StateUnknown \<longrightarrow> PathState s now i = PathState s now' i)"
  using local_lease.decay [OF assms] path_lease.decay [OF assms] by blast

lemma health_only_decays_witness:
  "LocalState example_store (4 * time_Second) ''a'' = StateHealthy"
  using health_only_decays [of "4 * time_Second" "9 * time_Second" example_store "''a''"]
  by (simp add: example_store_def AcceptPath_def AcceptLocal_def AdoptInstance_def currentLocked_def
      example_origin_def example_local_def example_path_def in_order_def new_entry_def NewHealthStore_def zero_LocalHealth_def
      zero_PathHealth_def LocalState_def Local_def time_sub_def lh_Ready_def)

end
