(* ===== verification/Readiness.thy ===== *)
theory Readiness
  imports Health_Store
begin

text \<open>
  \<^verbatim>\<open>internal/controller/readiness.go\<close>. \<open>ComputeReady\<close> takes the store's lock four times, so
  reports may land and time may pass between its accesses: a \<open>store_view\<close> gives, for the
  n-th access, the store and the clock it meets. A single moment is the constant view.
\<close>

type_synonym store_view = "nat \<Rightarrow> HealthStore \<times> int"

definition frozen :: "HealthStore \<Rightarrow> int \<Rightarrow> store_view" where
  "frozen hs now = (\<lambda>_. (hs, now))"

record Readiness =
  rd_AttachmentID :: string
  rd_Ready :: bool
  rd_Reason :: string
  rd_Local :: State
  rd_Path :: State

text \<open>The reason for a fresh local report that is not ready: its switch.\<close>

definition local_fault :: "LocalHealth \<Rightarrow> string" where
  "local_fault l =
     (if \<not> lh_InterfaceExists l then ''InterfaceMissing''
      else if \<not> lh_LinkUsable l then ''LinkDown''
      else ''AddressMissing'')"

definition ComputeReady :: "Attachment \<Rightarrow> ProbeScope \<Rightarrow> store_view \<Rightarrow> Readiness" where
  "ComputeReady a scope v = (let pathKey = PathKey a scope;
       r = \<lparr>rd_AttachmentID = ID a, rd_Ready = False, rd_Reason = [],
            rd_Local = LocalState (fst (v 0)) (snd (v 0)) (ID a),
            rd_Path = PathState (fst (v 1)) (snd (v 1)) pathKey\<rparr> in
     if \<not> att_PodReady a then r\<lparr>rd_Reason := ''PodNotReady''\<rparr>
     else case Local (fst (v 2)) (snd (v 2)) (ID a) of (loc, fresh) \<Rightarrow>
       if \<not> fresh then r\<lparr>rd_Reason := if lh_AttachmentID loc = [] then ''NoLocalReport'' else ''LocalReportStale''\<rparr>
       else if \<not> lh_Ready loc then r\<lparr>rd_Reason := local_fault loc\<rparr>
       else case Path (fst (v 3)) (snd (v 3)) pathKey of (path, fresh) \<Rightarrow>
         if \<not> fresh then r\<lparr>rd_Reason := if ph_ScopeID path = [] then ''NoPathReport'' else ''PathReportStale''\<rparr>
         else if \<not> ph_PathReady path then r\<lparr>rd_Reason := ''PathNotReady''\<rparr>
         else r\<lparr>rd_Ready := True, rd_Reason := ''Healthy''\<rparr>)"

section \<open>Lemmas\<close>

lemma LocalState_iff:
  "LocalState s now i = StateHealthy \<longleftrightarrow> snd (Local s now i) \<and> lh_Ready (fst (Local s now i))"
  "LocalState s now i = StateUnhealthy \<longleftrightarrow> snd (Local s now i) \<and> \<not> lh_Ready (fst (Local s now i))"
  "LocalState s now i = StateUnknown \<longleftrightarrow> \<not> snd (Local s now i)"
  by (auto simp: LocalState_def split: prod.splits)

lemma PathState_iff:
  "PathState s now i = StateHealthy \<longleftrightarrow> snd (Path s now i) \<and> ph_PathReady (fst (Path s now i))"
  "PathState s now i = StateUnhealthy \<longleftrightarrow> snd (Path s now i) \<and> \<not> ph_PathReady (fst (Path s now i))"
  "PathState s now i = StateUnknown \<longleftrightarrow> \<not> snd (Path s now i)"
  by (auto simp: PathState_def split: prod.splits)

lemmas state_iffs = LocalState_iff PathState_iff

lemma rd_AttachmentID_ComputeReady [simp]: "rd_AttachmentID (ComputeReady a sc v) = ID a"
  by (simp add: ComputeReady_def Let_def split: prod.split)

lemma ready_iff:
  "rd_Ready (ComputeReady a sc v) \<longleftrightarrow>
     att_PodReady a \<and> LocalState (fst (v 2)) (snd (v 2)) (ID a) = StateHealthy \<and>
     PathState (fst (v 3)) (snd (v 3)) (PathKey a sc) = StateHealthy"
  by (simp add: ComputeReady_def Let_def state_iffs split: prod.split)

lemma reason_Healthy_iff: "rd_Reason (ComputeReady a sc v) = ''Healthy'' \<longleftrightarrow> rd_Ready (ComputeReady a sc v)"
  by (simp add: ComputeReady_def Let_def local_fault_def split: prod.split)

text \<open>At a single moment the verdict is a function of the three views alone.\<close>

lemma ready_frozen:
  "rd_Ready (ComputeReady a sc (frozen hs now)) \<longleftrightarrow>
     att_PodReady a \<and> LocalState hs now (ID a) = StateHealthy \<and> PathState hs now (PathKey a sc) = StateHealthy"
  by (simp add: ready_iff frozen_def)

text \<open>The reason names the first term of the conjunction that fails.\<close>

lemma half_ok_key: "half_ok key m \<Longrightarrow> gm_get m i = Some e \<Longrightarrow> key (e_Report e) = i"
  by (auto simp: half_ok_alt)

lemma Local_id:
  assumes "hs_ok s" and "i \<noteq> []"
  shows "lh_AttachmentID (fst (Local s now i)) = [] \<longleftrightarrow> gm_get (hs_local s) i = None"
  using assms by (auto simp: Local_def zero_LocalHealth_def hs_ok_def dest: half_ok_key split: option.splits)

lemma Path_id:
  assumes "hs_ok s" and "i \<noteq> []"
  shows "ph_ScopeID (fst (Path s now i)) = [] \<longleftrightarrow> gm_get (hs_path s) i = None"
  using assms by (auto simp: Path_def zero_PathHealth_def hs_ok_def dest: half_ok_key split: option.splits)

definition reason_spec :: "Attachment \<Rightarrow> ProbeScope \<Rightarrow> HealthStore \<Rightarrow> int \<Rightarrow> string" where
  "reason_spec a sc hs now =
     (if \<not> att_PodReady a then ''PodNotReady''
      else case held (hs_local hs) (ID a) of None \<Rightarrow> ''NoLocalReport''
      | Some (l, t) \<Rightarrow> if time_sub now t > hs_ttl hs then ''LocalReportStale''
        else if \<not> lh_InterfaceExists l then ''InterfaceMissing''
        else if \<not> lh_LinkUsable l then ''LinkDown''
        else if \<not> lh_AddressPresent l then ''AddressMissing''
        else case held (hs_path hs) (PathKey a sc) of None \<Rightarrow> ''NoPathReport''
        | Some (p, u) \<Rightarrow> if time_sub now u > hs_ttl hs then ''PathReportStale''
          else if \<not> ph_PathReady p then ''PathNotReady'' else ''Healthy'')"

lemma reason_frozen:
  assumes "hs_ok hs"
  shows "rd_Reason (ComputeReady a sc (frozen hs now)) = reason_spec a sc hs now"
proof (cases "gm_get (hs_local hs) (ID a)")
  case None
  then show ?thesis
    by (simp add: ComputeReady_def Let_def frozen_def reason_spec_def Local_def held_def zero_LocalHealth_def)
next
  case (Some l)
  have l: "lh_AttachmentID (e_Report l) \<noteq> []"
    using assms Some by (auto simp: hs_ok_def dest: half_ok_key)
  show ?thesis
  proof (cases "gm_get (hs_path hs) (PathKey a sc)")
    case None
    with Some l show ?thesis
      by (simp add: ComputeReady_def Let_def frozen_def reason_spec_def Local_def Path_def held_def
          zero_PathHealth_def local_fault_def lh_Ready_def)
  next
    case (Some p)
    have "ph_ScopeID (e_Report p) \<noteq> []"
      using assms Some by (auto simp: hs_ok_def dest: half_ok_key)
    with Some l \<open>gm_get (hs_local hs) (ID a) = Some l\<close> show ?thesis
      by (simp add: ComputeReady_def Let_def frozen_def reason_spec_def Local_def Path_def held_def
          local_fault_def lh_Ready_def)
  qed
qed

section \<open>Properties\<close>

text \<open>
  An attachment is ready exactly when its Pod is ready, its local report is fresh and good, and
  the path report under its scope's key is fresh and good, each as the store was when it was read;
  the reason is Healthy exactly then.
\<close>

theorem ready_is_conjunction:
  "(rd_Ready (ComputeReady a sc v) \<longleftrightarrow> att_PodReady a \<and>
      (case v 2 of (hs, now) \<Rightarrow> case held (hs_local hs) (ID a) of None \<Rightarrow> False
         | Some (l, t) \<Rightarrow> time_sub now t \<le> hs_ttl hs \<and> lh_InterfaceExists l \<and> lh_AddressPresent l \<and> lh_LinkUsable l) \<and>
      (case v 3 of (hs, now) \<Rightarrow> case held (hs_path hs) (PathKey a sc) of None \<Rightarrow> False
         | Some (p, t) \<Rightarrow> time_sub now t \<le> hs_ttl hs \<and> ph_PathReady p)) \<and>
   (rd_Reason (ComputeReady a sc v) = ''Healthy'' \<longleftrightarrow> rd_Ready (ComputeReady a sc v))"
  by (auto simp: reason_Healthy_iff ready_iff LocalState_held PathState_held verdict_def lh_Ready_def
      split: option.split prod.split)

text \<open>
  At a single moment the reason names the first failing term of the conjunction, in the order Pod,
  local report, interface, link, address, path report, path.
\<close>

theorem reason_is_first_failure:
  assumes "hs_ok hs"
  shows "rd_Reason (ComputeReady a sc (frozen hs now)) = reason_spec a sc hs now"
  by (rule reason_frozen [OF assms])

lemma reason_is_first_failure_witness:
  "rd_Reason (ComputeReady (zero_Attachment\<lparr>att_PodReady := True\<rparr>) ScopeEndpoint (frozen (NewHealthStore time_Second) 5)) = ''NoLocalReport''"
  using reason_is_first_failure [OF hs_ok_New, of "zero_Attachment\<lparr>att_PodReady := True\<rparr>" ScopeEndpoint time_Second 5]
  by (simp add: reason_spec_def NewHealthStore_def held_def)

text \<open>
  C16. Readiness is earned. In every history of the store, an attachment found ready had, at most one
  window before, a good local report under its id and a good path report under its key, each granted
  by an operation whose sender was at that moment the current agent process of the node it named.
\<close>

theorem ready_is_earned:
  assumes "ttl_ok ttl"
    and "rd_Ready (ComputeReady a sc (frozen (fold store_run ops (NewHealthStore ttl)) now))"
  shows "(\<exists>pre op post l t. ops = pre @ op # post \<and> grants_local (fold store_run pre (NewHealthStore ttl)) op (ID a) l t \<and>
      lh_Ready l \<and> now - t \<le> ttl) \<and>
    (\<exists>pre op post p t. ops = pre @ op # post \<and> grants_path (fold store_run pre (NewHealthStore ttl)) op (PathKey a sc) p t \<and>
      ph_PathReady p \<and> now - t \<le> ttl)"
proof -
  have new: "hs_ttl (NewHealthStore ttl) = ttl" "hs_local (NewHealthStore ttl) = []" "hs_path (NewHealthStore ttl) = []"
    by (simp_all add: NewHealthStore_def)
  show ?thesis
    using assms local_lease.earned [of "NewHealthStore ttl" "ID a" ops now]
      path_lease.earned [of "NewHealthStore ttl" "PathKey a sc" ops now]
    unfolding ready_frozen by (simp add: new held_def)
qed

definition ready_history :: "Attachment \<Rightarrow> store_op list" where
  "ready_history a = [OpAdopt ''n1'' ''i1'',
     OpLocal \<lparr>or_NodeName = ''n1'', or_AgentInstance = ''i1'', or_Sequence = 1\<rparr> (example_local\<lparr>lh_AttachmentID := ID a\<rparr>) 3,
     OpPath \<lparr>or_NodeName = ''n1'', or_AgentInstance = ''i1'', or_Sequence = 2\<rparr> (example_path\<lparr>ph_ScopeID := ID a\<rparr>) 4]"

lemma ready_is_earned_witness:
  "\<exists>op l t. op \<in> set (ready_history (zero_Attachment\<lparr>att_PodReady := True\<rparr>)) \<and>
     grants_local (fold store_run [OpAdopt ''n1'' ''i1''] (NewHealthStore time_Second)) op
       (ID (zero_Attachment\<lparr>att_PodReady := True\<rparr>)) l t"
proof -
  let ?a = "zero_Attachment\<lparr>att_PodReady := True\<rparr>"
  have "rd_Ready (ComputeReady ?a ScopeEndpoint (frozen (fold store_run (ready_history ?a) (NewHealthStore time_Second)) 9))"
    by (simp add: ready_frozen ready_history_def AdoptInstance_def AcceptLocal_def AcceptPath_def currentLocked_def
        NewHealthStore_def in_order_def example_local_def example_path_def LocalState_held PathState_held verdict_def
        held_def new_entry_def time_sub_def lh_Ready_def zero_LocalHealth_def zero_PathHealth_def)
  from ready_is_earned [OF _ this] obtain pre op post l t where
    h: "ready_history ?a = pre @ op # post" "grants_local (fold store_run pre (NewHealthStore time_Second)) op (ID ?a) l t"
    by (auto simp: ttl_ok_def)
  then have "op \<in> set (ready_history ?a)" by simp
  moreover from this h(2) have "grants_local (fold store_run [OpAdopt ''n1'' ''i1''] (NewHealthStore time_Second)) op (ID ?a) l t"
    by (auto simp: ready_history_def AdoptInstance_def NewHealthStore_def currentLocked_def)
  ultimately show ?thesis by blast
qed

end
