(* ===== verification/Health_Server.thy ===== *)
theory Health_Server
  imports Auth Readiness
begin

text \<open>
  \<^verbatim>\<open>internal/controller/health_server.go\<close>: one agent's stream as a state (\<open>Stream\<close>, the local
  variables of \<^verbatim>\<open>Sync\<close>) and one handler per message. A handler returns the new stream state
  and store, what it sends, records and notifies in order, and how the loop goes on. \<open>send i\<close>
  is the outcome of the i-th send of the message (0 on adoption, 1 in the payload's branch, 2
  the periodic one). Messages of different streams interleave in \<open>Control_Plane\<close>; within one
  message the clock and the registry do not move.
\<close>

section \<open>Messages\<close>

datatype PbScope = PROBE_SCOPE_UNSPECIFIED | PROBE_SCOPE_ENDPOINT | PROBE_SCOPE_NODE

record PbLocalHealth =
  pbl_AttachmentId :: string
  pbl_PodUid :: string
  pbl_Namespace :: string
  pbl_PodName :: string
  pbl_Nad :: string
  pbl_InterfaceName :: string
  pbl_Ip :: string
  pbl_LocalReady :: bool
  pbl_InterfaceExists :: bool
  pbl_AddressPresent :: bool
  pbl_LinkUsable :: bool
  pbl_ObservedAtUnixNano :: int

record PbPathHealth =
  pbp_Scope :: PbScope
  pbp_ScopeId :: string
  pbp_Nad :: string
  pbp_Target :: string
  pbp_PathReady :: bool
  pbp_ObservedAtUnixNano :: int

datatype Payload =
    PSnapshotBegin "64 word" "32 word" "32 word"
  | PSnapshotEnd "64 word"
  | PLocal PbLocalHealth
  | PPath PbPathHealth
  | PRetired string

text \<open>A payload of no known kind is \<open>None\<close>.\<close>

record Envelope =
  env_NodeName :: string
  env_AgentInstanceId :: string
  env_Sequence :: "64 word"
  env_Payload :: "Payload option"

record HealthAck =
  ack_AcceptedSequence :: "64 word"
  ack_ResyncRequired :: bool
  ack_Reason :: string

section \<open>The stream\<close>

record Stream =
  st_agent :: "AuthenticatedAgent option"
  st_node :: string
  st_instance :: string
  st_adopted :: bool
  st_inSnapshot :: bool
  st_epoch :: "64 word"
  st_bufLocal :: "LocalHealth list"
  st_bufPath :: "PathHealth list"
  st_since :: nat
  st_lastSeq :: "64 word"

definition new_Stream :: "AuthenticatedAgent option \<Rightarrow> Stream" where
  "new_Stream agent = \<lparr>st_agent = agent, st_node = (case agent of None \<Rightarrow> [] | Some a \<Rightarrow> aa_NodeName a),
     st_instance = [], st_adopted = False, st_inSnapshot = False, st_epoch = 0, st_bufLocal = [], st_bufPath = [],
     st_since = 0, st_lastSeq = 0\<rparr>"

definition ackEvery :: nat where "ackEvery = 32"

datatype srv_out = OAck HealthAck | OEmit event | ONotify nsname

text \<open>How the loop body ends: at its last statement, with \<^verbatim>\<open>continue\<close>, a return, or a panic.\<close>

datatype flow = Fall | Skip | Ret "go_error option" | Panic

text \<open>What every handler reads: the registry, whether \<^verbatim>\<open>Notify\<close> is set, the clock, the sends.\<close>

record server_env =
  sv_Registry :: Registry
  sv_Notify :: bool
  sv_now :: int
  sv_send :: "nat \<Rightarrow> go_error option"

section \<open>Helpers\<close>

definition mk_ack :: "Stream \<Rightarrow> bool \<Rightarrow> string \<Rightarrow> srv_out" where
  "mk_ack st resync reason = OAck \<lparr>ack_AcceptedSequence = st_lastSeq st, ack_ResyncRequired = resync, ack_Reason = reason\<rparr>"

definition acked :: "Stream \<Rightarrow> Stream" where
  "acked st = st\<lparr>st_since := 0\<rparr>"

text \<open>\<^verbatim>\<open>if err := ack(...); err != nil { return err }\<close>, then \<open>fl\<close>.\<close>

definition sent :: "server_env \<Rightarrow> nat \<Rightarrow> flow \<Rightarrow> flow" where
  "sent sv i fl = (case sv_send sv i of Some e \<Rightarrow> Ret (Some e) | None \<Rightarrow> fl)"

definition srv_reject :: "Envelope \<Rightarrow> string \<Rightarrow> srv_out" where
  "srv_reject env reason = OEmit (Event ''health_report_rejected'' [(''node'', VStr (env_NodeName env)),
     (''agent_instance'', VStr (env_AgentInstanceId env)), (''sequence'', VSeq (env_Sequence env)), (''reason'', VStr reason)])"

definition rejectReport :: "string \<Rightarrow> string \<Rightarrow> 64 word \<Rightarrow> go_error \<Rightarrow> srv_out" where
  "rejectReport i node seq err = OEmit (Event ''health_report_rejected'' [(''id'', VStr i), (''node'', VStr node),
     (''sequence'', VSeq seq), (''reason'', VStr (err_text err))])"

definition srv_notify :: "server_env \<Rightarrow> nsname list \<Rightarrow> srv_out list" where
  "srv_notify sv owners = (if \<not> sv_Notify sv then [] else map ONotify owners)"

definition owners_of :: "nsname list \<times> bool \<Rightarrow> nsname list" where
  "owners_of p = (if snd p then fst p else [])"

text \<open>
  The set \<^verbatim>\<open>seen\<close> as a list in first-seen order; the code visits it in any order. \<^verbatim>\<open>s.Notify\<close> is
  called without the nil check of \<open>srv_notify\<close>.
\<close>

definition seen_owners :: "Registry \<Rightarrow> LocalHealth list \<Rightarrow> PathHealth list \<Rightarrow> nsname list" where
  "seen_owners r locals paths = remdups
     (concat (map (\<lambda>l. owners_of (snd (reg_Attachment r (lh_AttachmentID l)))) locals) @
      concat (map (\<lambda>p. owners_of (reg_PathKey r (ph_ScopeID p))) paths))"

definition localFrom :: "Registry \<Rightarrow> string \<Rightarrow> PbLocalHealth \<Rightarrow> (LocalHealth \<times> nsname list) option" where
  "localFrom r node m = (case reg_Attachment r (pbl_AttachmentId m) of (att, owners, ok) \<Rightarrow>
     if \<not> ok then None
     else if att_IP att \<noteq> pbl_Ip m \<or> att_Interface att \<noteq> pbl_InterfaceName m \<or> att_NAD att \<noteq> pbl_Nad m then None
     else if att_NodeName att \<noteq> [] \<and> att_NodeName att \<noteq> node then None
     else Some (\<lparr>lh_AttachmentID = pbl_AttachmentId m, lh_PodUID = pbl_PodUid m, lh_Namespace = pbl_Namespace m,
                 lh_PodName = pbl_PodName m, lh_NAD = pbl_Nad m, lh_Interface = pbl_InterfaceName m, lh_IP = pbl_Ip m,
                 lh_NodeName = node, lh_InterfaceExists = pbl_InterfaceExists m, lh_AddressPresent = pbl_AddressPresent m,
                 lh_LinkUsable = pbl_LinkUsable m, lh_ObservedAt = pbl_ObservedAtUnixNano m\<rparr>, owners))"

definition pathFrom :: "Registry \<Rightarrow> string \<Rightarrow> PbPathHealth \<Rightarrow> (PathHealth \<times> nsname list) option" where
  "pathFrom r node m = (case reg_PathKey r (pbp_ScopeId m) of (owners, ok) \<Rightarrow>
     if \<not> ok then None
     else if \<not> reg_PathKeyOnNode r (pbp_ScopeId m) node then None
     else Some (\<lparr>ph_Scope = (if pbp_Scope m = PROBE_SCOPE_NODE then ScopeNode else ScopeEndpoint),
                 ph_ScopeID = pbp_ScopeId m, ph_NodeName = node, ph_NAD = pbp_Nad m, ph_Target = pbp_Target m,
                 ph_PathReady = pbp_PathReady m, ph_ObservedAt = pbp_ObservedAtUnixNano m\<rparr>, owners))"

definition stream_origin :: "Stream \<Rightarrow> Envelope \<Rightarrow> ReportOrigin" where
  "stream_origin st env = \<lparr>or_NodeName = st_node st, or_AgentInstance = st_instance st, or_Sequence = env_Sequence env\<rparr>"

section \<open>The payload handlers\<close>

type_synonym handled = "Stream \<times> HealthStore \<times> srv_out list \<times> flow"

definition on_begin :: "64 word \<Rightarrow> Stream \<Rightarrow> HealthStore \<Rightarrow> handled" where
  "on_begin epoch st s = (st\<lparr>st_inSnapshot := True, st_epoch := epoch, st_bufLocal := [], st_bufPath := []\<rparr>, s, [], Fall)"

definition snapshot_moved :: "HealthStore \<Rightarrow> int \<Rightarrow> LocalHealth list \<Rightarrow> LocalHealth list" where
  "snapshot_moved s now locals = filter (\<lambda>r. case Local s now (lh_AttachmentID r) of (cur, fresh) \<Rightarrow>
     \<not> fresh \<or> lh_Ready cur \<noteq> lh_Ready r) locals"

definition on_end :: "server_env \<Rightarrow> Envelope \<Rightarrow> 64 word \<Rightarrow> Stream \<Rightarrow> HealthStore \<Rightarrow> handled" where
  "on_end sv env epoch st s =
     (if \<not> st_inSnapshot st \<or> epoch \<noteq> st_epoch st then
        (let st1 = st\<lparr>st_inSnapshot := False\<rparr> in
         (acked st1, s, [srv_reject env ''snapshot end without a matching begin'', mk_ack st1 True ''snapshot mismatch''],
          sent sv 1 Skip))
      else let st1 = st\<lparr>st_inSnapshot := False\<rparr>; moved = snapshot_moved s (sv_now sv) (st_bufLocal st) in
        case ApplySnapshot (stream_origin st env) (st_bufLocal st) (st_bufPath st) (sv_now sv) s of
          (s', Some err) \<Rightarrow>
            if err = ErrStaleInstance then
              (acked st1, s', [srv_reject env (err_text err), mk_ack st1 True (err_text err)], Ret (Some err))
            else (acked st1, s', [srv_reject env (err_text err), mk_ack st1 True (err_text err)], sent sv 1 Skip)
        | (s', None) \<Rightarrow>
            let emits = OEmit (Event ''health_snapshot_applied'' [(''node'', VStr (st_node st)),
                    (''agent_instance'', VStr (st_instance st)), (''epoch'', VSeq (st_epoch st)),
                    (''local'', VInt (int (length (st_bufLocal st)))), (''path'', VInt (int (length (st_bufPath st)))),
                    (''moved'', VInt (int (length moved)))]) #
                  map (\<lambda>r. OEmit (Event ''health_report_applied'' [(''agent_instance'', VStr (st_instance st)),
                    (''attachment_id'', VStr (lh_AttachmentID r)), (''kind'', VStr ''local''), (''via'', VStr ''snapshot''),
                    (''local_ready'', VBool (lh_Ready r))])) moved;
                seen = seen_owners (sv_Registry sv) (st_bufLocal st) (st_bufPath st) in
            if seen \<noteq> [] \<and> \<not> sv_Notify sv then (st1, s', emits, Panic)
            else (acked st1, s', emits @ map ONotify seen @ [mk_ack st1 False []], sent sv 1 Fall))"

definition on_local :: "server_env \<Rightarrow> Envelope \<Rightarrow> PbLocalHealth \<Rightarrow> Stream \<Rightarrow> HealthStore \<Rightarrow> handled" where
  "on_local sv env m st s = (case localFrom (sv_Registry sv) (st_node st) m of
      None \<Rightarrow> (acked st, s, [srv_reject env ''unknown attachment'', mk_ack st False ''unknown attachment''], sent sv 1 Skip)
    | Some (r, owners) \<Rightarrow>
        let received = OEmit (Event ''health_report_received'' [(''attachment_id'', VStr (lh_AttachmentID r)),
              (''node'', VStr (st_node st)), (''sequence'', VSeq (env_Sequence env)), (''local_ready'', VBool (lh_Ready r)),
              (''snapshot'', VBool (st_inSnapshot st))]) in
        if st_inSnapshot st then (st\<lparr>st_bufLocal := st_bufLocal st @ [r]\<rparr>, s, [received], Skip)
        else case AcceptLocal (stream_origin st env) r (sv_now sv) s of
          (s', Some err) \<Rightarrow>
            let rej = rejectReport (lh_AttachmentID r) (st_node st) (env_Sequence env) err in
            if err = ErrStaleInstance then (acked st, s', [received, rej, mk_ack st True (err_text err)], Ret (Some err))
            else (st, s', [received, rej], Skip)
        | (s', None) \<Rightarrow>
            (st, s', [received, OEmit (Event ''health_report_applied'' [(''agent_instance'', VStr (st_instance st)),
                (''attachment_id'', VStr (lh_AttachmentID r)), (''kind'', VStr ''local''), (''via'', VStr ''delta''),
                (''local_ready'', VBool (lh_Ready r))])] @ srv_notify sv owners, Fall))"

definition scope_string :: "ProbeScope \<Rightarrow> string" where
  "scope_string sc = (case sc of ScopeEndpoint \<Rightarrow> ''Endpoint'' | ScopeNode \<Rightarrow> ''Node'' | ScopeUnset \<Rightarrow> [])"

definition on_path :: "server_env \<Rightarrow> Envelope \<Rightarrow> PbPathHealth \<Rightarrow> Stream \<Rightarrow> HealthStore \<Rightarrow> handled" where
  "on_path sv env m st s = (case pathFrom (sv_Registry sv) (st_node st) m of
      None \<Rightarrow> (acked st, s, [srv_reject env ''unknown path key'', mk_ack st False ''unknown path key''], sent sv 1 Skip)
    | Some (r, owners) \<Rightarrow>
        let received = OEmit (Event ''health_report_received'' [(''scope_id'', VStr (ph_ScopeID r)),
              (''node'', VStr (st_node st)), (''scope'', VStr (scope_string (ph_Scope r))), (''sequence'', VSeq (env_Sequence env)),
              (''path_ready'', VBool (ph_PathReady r)), (''snapshot'', VBool (st_inSnapshot st))]) in
        if st_inSnapshot st then (st\<lparr>st_bufPath := st_bufPath st @ [r]\<rparr>, s, [received], Skip)
        else case AcceptPath (stream_origin st env) r (sv_now sv) s of
          (s', Some err) \<Rightarrow>
            let rej = rejectReport (ph_ScopeID r) (st_node st) (env_Sequence env) err in
            if err = ErrStaleInstance then (acked st, s', [received, rej, mk_ack st True (err_text err)], Ret (Some err))
            else (st, s', [received, rej], Skip)
        | (s', None) \<Rightarrow>
            (st, s', [received, OEmit (Event ''health_report_applied'' [(''agent_instance'', VStr (st_instance st)),
                (''scope_id'', VStr (ph_ScopeID r)), (''kind'', VStr ''path''), (''path_ready'', VBool (ph_PathReady r))])]
              @ srv_notify sv owners, Fall))"

definition on_retired :: "server_env \<Rightarrow> string \<Rightarrow> Stream \<Rightarrow> HealthStore \<Rightarrow> handled" where
  "on_retired sv i st s =
     (st, ForgetLocal i s,
      [OEmit (Event ''health_report_applied'' [(''agent_instance'', VStr (st_instance st)), (''attachment_id'', VStr i), (''kind'', VStr ''retired'')])]
      @ (case reg_Attachment (sv_Registry sv) i of (_, owners, ok) \<Rightarrow> if ok then srv_notify sv owners else []), Fall)"

definition on_payload :: "server_env \<Rightarrow> Envelope \<Rightarrow> Stream \<Rightarrow> HealthStore \<Rightarrow> handled" where
  "on_payload sv env st s = (case env_Payload env of
      None \<Rightarrow> (st, s, [], Fall)
    | Some (PSnapshotBegin epoch _ _) \<Rightarrow> on_begin epoch st s
    | Some (PSnapshotEnd epoch) \<Rightarrow> on_end sv env epoch st s
    | Some (PLocal m) \<Rightarrow> on_local sv env m st s
    | Some (PPath m) \<Rightarrow> on_path sv env m st s
    | Some (PRetired i) \<Rightarrow> on_retired sv i st s)"

section \<open>One message\<close>

text \<open>The first message: adoption. The flow is \<open>Fall\<close> when the message is to be handled.\<close>

definition adopt :: "server_env \<Rightarrow> Envelope \<Rightarrow> Stream \<Rightarrow> HealthStore \<Rightarrow> handled" where
  "adopt sv env st s =
     (if st_adopted st then (st, s, [], Fall)
      else let st0 = st\<lparr>st_instance := env_AgentInstanceId env\<rparr> in
        if st_instance st0 = [] then (st0, s, [], Ret (Some (ErrInvalidArgument ''envelope must carry agent_instance_id'')))
        else if st_agent st = None \<and> env_NodeName env = [] then
          (st0, s, [], Ret (Some (ErrInvalidArgument ''envelope must carry node_name'')))
        else let st1 = (if st_agent st = None then st0\<lparr>st_node := env_NodeName env\<rparr> else st0) in
          case AdoptInstance (st_node st1) (st_instance st1) s of (s', prev) \<Rightarrow>
            let st2 = st1\<lparr>st_adopted := True\<rparr> in
            (acked st2, s', [OEmit (Event ''agent_connected'' [(''node'', VStr (st_node st2)),
                (''agent_instance'', VStr (st_instance st2)), (''superseded'', VStr prev)]), mk_ack st2 True ''new stream''],
             sent sv 0 Fall))"

definition mismatch :: "Envelope \<Rightarrow> Stream \<Rightarrow> srv_out list" where
  "mismatch env st = (case st_agent st of
      None \<Rightarrow> []
    | Some ag \<Rightarrow> if env_NodeName env \<noteq> [] \<and> env_NodeName env \<noteq> st_node st
        then [OEmit (Event ''envelope_node_mismatch'' [(''authenticated_node'', VStr (st_node st)),
                (''claimed_node'', VStr (env_NodeName env)), (''pod_uid'', VStr (aa_PodUID ag))])]
        else [])"

text \<open>After adoption: the instance check, the payload and the periodic acknowledgement.\<close>

definition sync_body :: "server_env \<Rightarrow> Envelope \<Rightarrow> Stream \<Rightarrow> HealthStore \<Rightarrow> handled" where
  "sync_body sv env st s =
     (if env_AgentInstanceId env \<noteq> st_instance st then
        (st, s, mismatch env st @ [srv_reject env ''instance changed mid-stream''], Skip)
      else let st1 = st\<lparr>st_lastSeq := env_Sequence env, st_since := st_since st + 1\<rparr> in
        case on_payload sv env st1 s of (st2, s', outs, fl) \<Rightarrow>
          if fl = Fall \<and> ackEvery \<le> st_since st2
          then (acked st2, s', mismatch env st @ outs @ [mk_ack st2 False []], sent sv 2 Fall)
          else (st2, s', mismatch env st @ outs, fl))"

definition sync_msg :: "server_env \<Rightarrow> Envelope \<Rightarrow> Stream \<Rightarrow> HealthStore \<Rightarrow> handled" where
  "sync_msg sv env st s = (case adopt sv env st s of (st1, s1, outs1, fl1) \<Rightarrow>
     if fl1 \<noteq> Fall then (st1, s1, outs1, fl1)
     else case sync_body sv env st1 s1 of (st2, s2, outs2, fl2) \<Rightarrow> (st2, s2, outs1 @ outs2, fl2))"

text \<open>The other two arms of the select.\<close>

definition on_done :: "Stream \<Rightarrow> srv_out list \<times> flow" where
  "on_done st = ([OEmit (Event ''stream_revoked'' [(''node'', VStr (st_node st)),
       (''pod_uid'', VStr (case st_agent st of None \<Rightarrow> [] | Some a \<Rightarrow> aa_PodUID a))])], Ret (Some ErrSessionRevoked))"

text \<open>\<open>None\<close> is end of file.\<close>

definition on_recv_error :: "go_error option \<Rightarrow> flow" where
  "on_recv_error e = Ret e"

text \<open>The prologue: who the stream speaks for. \<open>Inl\<close> is the status returned.\<close>

definition sync_start ::
  "bool \<Rightarrow> Authenticator \<Rightarrow> auth_api \<Rightarrow> AgentRegistry \<Rightarrow> string option \<Rightarrow> (go_error \<times> srv_out list) + (Stream \<times> srv_out list)" where
  "sync_start requireAuth auth api agents md = (case authenticate requireAuth auth api agents md of
      Inl e \<Rightarrow> Inl (e, [OEmit (Event ''stream_rejected'' [(''reason'', VErr e)])])
    | Inr None \<Rightarrow> Inr (new_Stream None, [])
    | Inr (Some ag) \<Rightarrow> Inr (new_Stream (Some ag), [OEmit (Event ''agent_authenticated'' [(''pod'', VStr (aa_PodName ag)),
        (''namespace'', VStr (aa_Namespace ag)), (''service_account'', VStr (aa_ServiceAccount ag)),
        (''node'', VStr (aa_NodeName ag)), (''pod_uid'', VStr (aa_PodUID ag))])]))"


section \<open>What a message does to the store\<close>

lemma currentLocked_or: "currentLocked s \<lparr>or_NodeName = n, or_AgentInstance = i, or_Sequence = q\<rparr>
    \<longleftrightarrow> gm_get (hs_nodeInstance s) n = Some i"
  by (simp add: currentLocked_def)

lemma localFrom_Some:
  "localFrom R node m = Some (r, owners) \<Longrightarrow>
     \<exists>att. reg_Attachment R (pbl_AttachmentId m) = (att, owners, True) \<and> att_IP att = lh_IP r \<and>
       att_Interface att = lh_Interface r \<and> att_NAD att = lh_NAD r \<and> (att_NodeName att = [] \<or> att_NodeName att = node) \<and>
       lh_AttachmentID r = pbl_AttachmentId m \<and> lh_NodeName r = node \<and>
       lh_Ready r = (pbl_InterfaceExists m \<and> pbl_AddressPresent m \<and> pbl_LinkUsable m)"
  by (auto simp: localFrom_def lh_Ready_def split: prod.splits if_splits)

lemma pathFrom_Some:
  "pathFrom R node m = Some (r, owners) \<Longrightarrow>
     reg_PathKey R (ph_ScopeID r) = (owners, True) \<and> reg_PathKeyOnNode R (ph_ScopeID r) node \<and>
     ph_ScopeID r = pbp_ScopeId m \<and> ph_NodeName r = node \<and> ph_PathReady r = pbp_PathReady m"
  by (auto simp: pathFrom_def split: prod.splits if_splits)

text \<open>The operations of the store a message amounts to.\<close>

definition adopt_ops :: "Envelope \<Rightarrow> Stream \<Rightarrow> store_op list" where
  "adopt_ops env st =
     (if st_adopted st \<or> env_AgentInstanceId env = [] \<or> st_agent st = None \<and> env_NodeName env = [] then []
      else [OpAdopt (if st_agent st = None then env_NodeName env else st_node st) (env_AgentInstanceId env)])"

definition payload_ops :: "server_env \<Rightarrow> Envelope \<Rightarrow> Stream \<Rightarrow> store_op list" where
  "payload_ops sv env st = (case env_Payload env of
      Some (PSnapshotEnd epoch) \<Rightarrow>
        if st_inSnapshot st \<and> epoch = st_epoch st
        then [OpSnapshot (stream_origin st env) (st_bufLocal st) (st_bufPath st) (sv_now sv)] else []
    | Some (PLocal m) \<Rightarrow> (case localFrom (sv_Registry sv) (st_node st) m of
        Some (r, _) \<Rightarrow> if st_inSnapshot st then [] else [OpLocal (stream_origin st env) r (sv_now sv)] | None \<Rightarrow> [])
    | Some (PPath m) \<Rightarrow> (case pathFrom (sv_Registry sv) (st_node st) m of
        Some (r, _) \<Rightarrow> if st_inSnapshot st then [] else [OpPath (stream_origin st env) r (sv_now sv)] | None \<Rightarrow> [])
    | Some (PRetired i) \<Rightarrow> [OpForget i]
    | _ \<Rightarrow> [])"

lemma adopt_store: "fst (snd (adopt sv env st s)) = fold store_run (adopt_ops env st) s"
  by (auto simp: adopt_def adopt_ops_def Let_def split: prod.split)

lemma end_store: "fst (snd (on_end sv env epoch st s)) = (if st_inSnapshot st \<and> epoch = st_epoch st
    then fst (ApplySnapshot (stream_origin st env) (st_bufLocal st) (st_bufPath st) (sv_now sv) s) else s)"
  by (simp add: on_end_def Let_def split: prod.split option.split)

lemma local_store: "fst (snd (on_local sv env m st s)) = (case localFrom (sv_Registry sv) (st_node st) m of
    None \<Rightarrow> s | Some (r, _) \<Rightarrow> if st_inSnapshot st then s else fst (AcceptLocal (stream_origin st env) r (sv_now sv) s))"
  by (simp add: on_local_def Let_def split: prod.split option.split)

lemma path_store: "fst (snd (on_path sv env m st s)) = (case pathFrom (sv_Registry sv) (st_node st) m of
    None \<Rightarrow> s | Some (r, _) \<Rightarrow> if st_inSnapshot st then s else fst (AcceptPath (stream_origin st env) r (sv_now sv) s))"
  by (simp add: on_path_def Let_def split: prod.split option.split)

lemma payload_store: "fst (snd (on_payload sv env st s)) = fold store_run (payload_ops sv env st) s"
proof (cases "env_Payload env")
  case None
  then show ?thesis by (simp add: on_payload_def payload_ops_def)
next
  case (Some p)
  then show ?thesis
    by (cases p) (simp_all add: on_payload_def payload_ops_def on_begin_def end_store local_store path_store
        on_retired_def split: option.split prod.split)
qed

lemma body_store:
  "fst (snd (sync_body sv env st s)) = fold store_run
     (if env_AgentInstanceId env = st_instance st
      then payload_ops sv env (st\<lparr>st_lastSeq := env_Sequence env, st_since := st_since st + 1\<rparr>) else []) s"
  by (auto simp: sync_body_def Let_def payload_store [symmetric] split: prod.splits)

definition msg_ops :: "server_env \<Rightarrow> Envelope \<Rightarrow> Stream \<Rightarrow> HealthStore \<Rightarrow> store_op list" where
  "msg_ops sv env st s = adopt_ops env st @
     (case adopt sv env st s of (st1, _, _, fl) \<Rightarrow>
        if fl = Fall \<and> env_AgentInstanceId env = st_instance st1
        then payload_ops sv env (st1\<lparr>st_lastSeq := env_Sequence env, st_since := st_since st1 + 1\<rparr>) else [])"

text \<open>A message runs through the operations of the store, and through no other way.\<close>

lemma msg_store: "fst (snd (sync_msg sv env st s)) = fold store_run (msg_ops sv env st s) s"
proof -
  obtain st1 s1 outs1 fl1 where a: "adopt sv env st s = (st1, s1, outs1, fl1)" by (metis prod.collapse)
  then have s1: "s1 = fold store_run (adopt_ops env st) s" using adopt_store [of sv env st s] by simp
  show ?thesis
    using body_store [of sv env st1 s1] by (auto simp: sync_msg_def a msg_ops_def s1 split: prod.split)
qed

section \<open>The stream's invariant\<close>

definition st_ok :: "Stream \<Rightarrow> bool" where
  "st_ok st \<longleftrightarrow> (\<forall>r \<in> set (st_bufLocal st). lh_NodeName r = st_node st) \<and>
     (\<forall>r \<in> set (st_bufPath st). ph_NodeName r = st_node st) \<and>
     (\<forall>ag. st_agent st = Some ag \<longrightarrow> st_node st = aa_NodeName ag) \<and>
     (\<not> st_adopted st \<longrightarrow> st_bufLocal st = [] \<and> st_bufPath st = [] \<and> \<not> st_inSnapshot st)"

lemma st_ok_new [simp, goinv]: "st_ok (new_Stream agent)"
  by (auto simp: st_ok_def new_Stream_def)

lemma st_ok_acked [simp]: "st_ok (acked st) = st_ok st"
  by (simp add: st_ok_def acked_def)

lemma acked_simps [simp]:
  "st_node (acked st) = st_node st" "st_agent (acked st) = st_agent st" "st_adopted (acked st) = st_adopted st"
  "st_instance (acked st) = st_instance st" "st_bufLocal (acked st) = st_bufLocal st"
  "st_bufPath (acked st) = st_bufPath st" "st_inSnapshot (acked st) = st_inSnapshot st" "st_epoch (acked st) = st_epoch st"
  "st_since (acked st) = 0" "st_lastSeq (acked st) = st_lastSeq st"
  by (simp_all add: acked_def)

lemma st_ok_adopt [goinv]: "st_ok st \<Longrightarrow> st_ok (fst (adopt sv env st s))"
  by (auto simp: adopt_def Let_def st_ok_def split: prod.split)

lemma st_ok_local: "st_ok st \<Longrightarrow> st_adopted st \<Longrightarrow> st_ok (fst (on_local sv env m st s))"
  by (auto simp: on_local_def Let_def st_ok_def dest: localFrom_Some split: option.splits prod.split)

lemma st_ok_path: "st_ok st \<Longrightarrow> st_adopted st \<Longrightarrow> st_ok (fst (on_path sv env m st s))"
  by (auto simp: on_path_def Let_def st_ok_def dest: pathFrom_Some split: option.splits prod.split)

lemma st_ok_end: "st_ok st \<Longrightarrow> st_ok (fst (on_end sv env epoch st s))"
  by (auto simp: on_end_def Let_def st_ok_def split: option.splits prod.split)

lemma st_ok_payload [goinv]: "st_ok st \<Longrightarrow> st_adopted st \<Longrightarrow> st_ok (fst (on_payload sv env st s))"
  using st_ok_local [of st sv env] st_ok_path [of st sv env] st_ok_end [of st sv env]
  by (auto simp: on_payload_def on_begin_def on_retired_def st_ok_def split: option.split Payload.split)

lemma adopt_adopted: "snd (snd (snd (adopt sv env st s))) = Fall \<Longrightarrow> st_adopted (fst (adopt sv env st s))"
  by (auto simp: adopt_def Let_def split: prod.splits if_splits)

lemma st_ok_body [goinv]: "st_ok st \<Longrightarrow> st_adopted st \<Longrightarrow> st_ok (fst (sync_body sv env st s))"
  using st_ok_payload [of "st\<lparr>st_lastSeq := env_Sequence env, st_since := st_since st + 1\<rparr>" sv env s]
  by (auto simp: sync_body_def Let_def st_ok_def split: prod.splits)

lemma st_ok_msg [goinv]:
  assumes "st_ok st" shows "st_ok (fst (sync_msg sv env st s))"
proof -
  obtain st1 s1 outs1 fl1 where a: "adopt sv env st s = (st1, s1, outs1, fl1)" by (metis prod.collapse)
  have "st_ok st1" using st_ok_adopt [OF assms, of sv env s] by (simp add: a)
  moreover have "fl1 = Fall \<Longrightarrow> st_adopted st1" using adopt_adopted [of sv env st s] by (simp add: a)
  ultimately show ?thesis
    using st_ok_body [of st1 sv env s1] by (auto simp: sync_msg_def a split: prod.split)
qed

text \<open>The node of a stream is fixed by its identity, or by its first message.\<close>

lemma node_fixed:
  assumes "st_agent st \<noteq> None \<or> st_adopted st"
  shows "st_node (fst (adopt sv env st s)) = st_node st"
  using assms by (auto simp: adopt_def Let_def split: prod.split)

section \<open>Authority\<close>

text \<open>
  An operation a stream of \<open>node\<close> may cause. The code checks nothing for a retirement, so
  it may be of any attachment.
\<close>

fun from_node :: "string \<Rightarrow> store_op \<Rightarrow> bool" where
  "from_node node (OpAdopt n _) \<longleftrightarrow> n = node"
| "from_node node (OpLocal og r _) \<longleftrightarrow> or_NodeName og = node \<and> lh_NodeName r = node"
| "from_node node (OpPath og r _) \<longleftrightarrow> or_NodeName og = node \<and> ph_NodeName r = node"
| "from_node node (OpSnapshot og ls ps _) \<longleftrightarrow> or_NodeName og = node \<and>
     (\<forall>r \<in> set ls. lh_NodeName r = node) \<and> (\<forall>r \<in> set ps. ph_NodeName r = node)"
| "from_node node (OpForget _) \<longleftrightarrow> True"
| "from_node node (OpSweep _) \<longleftrightarrow> False"
| "from_node node (OpPrune _) \<longleftrightarrow> False"

lemma payload_from_node:
  assumes "st_ok st" and "op \<in> set (payload_ops sv env st)"
  shows "from_node (st_node st) op"
proof (cases "env_Payload env")
  case None
  with assms(2) show ?thesis by (simp add: payload_ops_def)
next
  case (Some p)
  have b: "\<forall>r \<in> set (st_bufLocal st). lh_NodeName r = st_node st" "\<forall>r \<in> set (st_bufPath st). ph_NodeName r = st_node st"
    using assms(1) by (auto simp: st_ok_def)
  from Some assms(2) b show ?thesis
    by (cases p) (auto simp: payload_ops_def stream_origin_def dest: localFrom_Some [OF sym] pathFrom_Some [OF sym]
        split: option.split_asm if_split_asm)
qed

lemma msg_from_node:
  assumes "st_ok st" and "op \<in> set (msg_ops sv env st s)"
  shows "from_node (st_node (fst (adopt sv env st s))) op"
proof -
  obtain st1 s1 outs1 fl1 where a: "adopt sv env st s = (st1, s1, outs1, fl1)" by (metis prod.collapse)
  let ?st = "st1\<lparr>st_lastSeq := env_Sequence env, st_since := st_since st1 + 1\<rparr>"
  have "st_ok st1" using st_ok_adopt [OF assms(1), of sv env s] by (simp add: a)
  then have ok: "st_ok ?st" by (simp add: st_ok_def)
  have ad: "from_node (st_node st1) op" if "op \<in> set (adopt_ops env st)"
    using that a by (auto simp: adopt_ops_def adopt_def Let_def split: if_splits prod.splits)
  have pl: "from_node (st_node st1) op" if "op \<in> set (payload_ops sv env ?st)"
    using payload_from_node [OF ok that] by simp
  show ?thesis using assms(2) ad pl by (auto simp: msg_ops_def a split: if_splits)
qed

lemma msg_node:
  assumes "st_agent st = Some ag" and "st_ok st" and "op \<in> set (msg_ops sv env st s)"
  shows "from_node (aa_NodeName ag) op"
  using msg_from_node [OF assms(2,3)] node_fixed [of st sv env s] assms(1,2) by (auto simp: st_ok_def)


text \<open>
  What a message does to an entry of the store, seen from the node its stream speaks for: it leaves it,
  puts a report of that node and process there, or drops one of that node.
\<close>

definition own_change :: "('r \<Rightarrow> string) \<Rightarrow> string \<Rightarrow> string \<Rightarrow> 'r health_entry option \<Rightarrow> 'r health_entry option \<Rightarrow> bool" where
  "own_change nd node inst x y \<longleftrightarrow> y = x \<or> (case y of
      Some e \<Rightarrow> nd (e_Report e) = node \<and> or_NodeName (e_Origin e) = node \<and> or_AgentInstance (e_Origin e) = inst
    | None \<Rightarrow> \<exists>e. x = Some e \<and> nd (e_Report e) = node)"

lemma own_change_refl [simp]: "own_change nd node inst x x"
  by (simp add: own_change_def)

lemma own_change_cases:
  assumes "own_change nd node inst x y" and "\<not> cur \<Longrightarrow> y = x"
  shows "y = x \<or> (case y of
      Some e \<Rightarrow> nd (e_Report e) = node \<and> or_NodeName (e_Origin e) = node \<and> or_AgentInstance (e_Origin e) = inst \<and> cur
    | None \<Rightarrow> \<exists>e. x = Some e \<and> nd (e_Report e) = node)"
  using assms by (auto simp: own_change_def split: option.splits)

lemma own_change_new: "nd r = node \<Longrightarrow> or_NodeName og = node \<Longrightarrow> or_AgentInstance og = inst \<Longrightarrow> own_change nd node inst x (Some (new_entry og now r))"
  by (simp add: own_change_def new_entry_def)

lemma own_change_snapshot:
  assumes "gm_wf m" and "\<forall>r \<in> set rs. nd r = or_NodeName og"
  shows "own_change nd (or_NodeName og) (or_AgentInstance og) (gm_get m i) (gm_get (snapshot_half key nd og now rs m) i)"
proof (cases "find (\<lambda>r. key r = i) (rev rs)")
  case None
  then show ?thesis by (auto simp: snapshot_get [OF assms(1)] own_change_def split: option.split)
next
  case (Some r)
  then have "nd r = or_NodeName og" using assms(2) find_rev_mem by fastforce
  then show ?thesis by (simp add: snapshot_get [OF assms(1)] Some own_change_new)
qed

lemma payload_change:
  assumes "st_ok st" and "op \<in> set (payload_ops sv env st)" and "hs_ok s"
  shows "(env_Payload env \<noteq> Some (PRetired i) \<longrightarrow>
      own_change lh_NodeName (st_node st) (st_instance st) (gm_get (hs_local s) i) (gm_get (hs_local (store_run op s)) i)) \<and>
    (env_Payload env = Some (PRetired i) \<longrightarrow> gm_get (hs_local (store_run op s)) i = None) \<and>
    own_change ph_NodeName (st_node st) (st_instance st) (gm_get (hs_path s) p) (gm_get (hs_path (store_run op s)) p) \<and>
    hs_nodeInstance (store_run op s) = hs_nodeInstance s \<and>
    (gm_get (hs_nodeInstance s) (st_node st) \<noteq> Some (st_instance st) \<longrightarrow>
       hs_path (store_run op s) = hs_path s \<and> (env_Payload env \<noteq> Some (PRetired i) \<longrightarrow> gm_get (hs_local (store_run op s)) i = gm_get (hs_local s) i))"
proof -
  have b: "\<forall>r \<in> set (st_bufLocal st). lh_NodeName r = or_NodeName (stream_origin st env)"
    "\<forall>r \<in> set (st_bufPath st). ph_NodeName r = or_NodeName (stream_origin st env)"
    using assms(1) by (auto simp: st_ok_def stream_origin_def)
  have og: "or_NodeName (stream_origin st env) = st_node st" "or_AgentInstance (stream_origin st env) = st_instance st"
    by (simp_all add: stream_origin_def)
  note wf = hs_ok_wf [OF assms(3)]
  obtain pl where pl: "env_Payload env = Some pl" using assms(2) by (cases "env_Payload env") (simp_all add: payload_ops_def)
  show ?thesis
  proof (cases pl)
    case (PSnapshotEnd epoch)
    then have op: "op = OpSnapshot (stream_origin st env) (st_bufLocal st) (st_bufPath st) (sv_now sv)"
      using assms(2) pl by (auto simp: payload_ops_def split: if_splits)
    show ?thesis
      using own_change_snapshot [OF wf(1) b(1)] own_change_snapshot [OF wf(2) b(2)]
      by (auto simp: op pl PSnapshotEnd ApplySnapshot_def og currentLocked_def)
  next
    case (PLocal m)
    then obtain r ow where r: "localFrom (sv_Registry sv) (st_node st) m = Some (r, ow)"
      and op: "op = OpLocal (stream_origin st env) r (sv_now sv)"
      using assms(2) by (cases "localFrom (sv_Registry sv) (st_node st) m") (auto simp: payload_ops_def pl PLocal split: prod.splits if_splits)
    have "lh_NodeName r = st_node st" using localFrom_Some [OF r] by blast
    then show ?thesis by (auto simp: op pl PLocal AcceptLocal_def og currentLocked_def intro!: own_change_new)
  next
    case (PPath m)
    then obtain r ow where r: "pathFrom (sv_Registry sv) (st_node st) m = Some (r, ow)"
      and op: "op = OpPath (stream_origin st env) r (sv_now sv)"
      using assms(2) by (cases "pathFrom (sv_Registry sv) (st_node st) m") (auto simp: payload_ops_def pl PPath split: prod.splits if_splits)
    have "ph_NodeName r = st_node st" using pathFrom_Some [OF r] by blast
    then show ?thesis by (auto simp: op pl PPath AcceptPath_def og currentLocked_def intro!: own_change_new)
  next
    case (PRetired j)
    then have "op = OpForget j" using assms(2) pl by (simp add: payload_ops_def)
    then show ?thesis by (auto simp: pl PRetired ForgetLocal_def)
  qed (use assms(2) pl in \<open>simp_all add: payload_ops_def\<close>)
qed

lemma adopt_change:
  shows "hs_local (fold store_run (adopt_ops env st) s) = hs_local s" and "hs_path (fold store_run (adopt_ops env st) s) = hs_path s"
    and "hs_ok s \<Longrightarrow> hs_ok (fold store_run (adopt_ops env st) s)"
    and "st_node (fst (adopt sv env st s)) = node \<Longrightarrow> n \<noteq> node \<Longrightarrow>
      gm_get (hs_nodeInstance (fold store_run (adopt_ops env st) s)) n = gm_get (hs_nodeInstance s) n"
    and "st_node (fst (adopt sv env st s)) = node \<Longrightarrow>
      gm_get (hs_nodeInstance (fold store_run (adopt_ops env st) s)) node = gm_get (hs_nodeInstance s) node \<or>
      gm_get (hs_nodeInstance (fold store_run (adopt_ops env st) s)) node = Some (env_AgentInstanceId env)"
  by (auto simp: adopt_ops_def adopt_def AdoptInstance_def hs_ok_def Let_def split: if_splits prod.splits)

lemma payload_ops_single: "payload_ops sv env st = [] \<or> (\<exists>op. payload_ops sv env st = [op])"
  by (simp add: payload_ops_def split: option.split Payload.split prod.split if_split)

lemma msg_change:
  assumes "st_ok st" and "st_node (fst (adopt sv env st s)) = node" and "hs_ok s"
  shows "let s' = fst (snd (sync_msg sv env st s)); inst = env_AgentInstanceId env in
    (env_Payload env \<noteq> Some (PRetired i) \<longrightarrow> own_change lh_NodeName node inst (gm_get (hs_local s) i) (gm_get (hs_local s') i)) \<and>
    (env_Payload env = Some (PRetired i) \<longrightarrow> gm_get (hs_local s') i = gm_get (hs_local s) i \<or> gm_get (hs_local s') i = None) \<and>
    own_change ph_NodeName node inst (gm_get (hs_path s) p) (gm_get (hs_path s') p) \<and>
    (gm_get (hs_nodeInstance s') node \<noteq> Some inst \<longrightarrow> hs_path s' = hs_path s \<and>
       (env_Payload env \<noteq> Some (PRetired i) \<longrightarrow> gm_get (hs_local s') i = gm_get (hs_local s) i)) \<and>
    (\<forall>n. n \<noteq> node \<longrightarrow> gm_get (hs_nodeInstance s') n = gm_get (hs_nodeInstance s) n) \<and>
    (gm_get (hs_nodeInstance s') node = gm_get (hs_nodeInstance s) node \<or> gm_get (hs_nodeInstance s') node = Some inst)"
proof -
  obtain st1 s1' outs1 fl1 where a: "adopt sv env st s = (st1, s1', outs1, fl1)" by (metis prod.collapse)
  let ?st = "st1\<lparr>st_lastSeq := env_Sequence env, st_since := st_since st1 + 1\<rparr>"
  let ?s1 = "fold store_run (adopt_ops env st) s" and ?s' = "fst (snd (sync_msg sv env st s))"
  note ad = adopt_change [where env = env and st = st and s = s]
  have n: "st_node st1 = node" using assms(2) by (simp add: a)
  have "st_ok st1" using st_ok_adopt [OF assms(1), of sv env s] by (simp add: a)
  then have ok: "st_ok ?st" by (simp add: st_ok_def)
  show ?thesis
  proof (cases "?s' = ?s1")
    case True
    then show ?thesis using ad(4,5) [OF assms(2)] by (auto simp: Let_def ad(1,2))
  next
    case False
    then have i: "env_AgentInstanceId env = st_instance st1"
      by (auto simp: msg_store msg_ops_def a split: if_splits)
    from False have "payload_ops sv env ?st \<noteq> []" by (auto simp: msg_store msg_ops_def a split: if_splits)
    with payload_ops_single [of sv env ?st] obtain op where op: "payload_ops sv env ?st = [op]" by blast
    with False have s': "?s' = store_run op ?s1" by (auto simp: msg_store msg_ops_def a split: if_splits)
    have "op \<in> set (payload_ops sv env ?st)" unfolding op by simp
    from payload_change [OF ok this ad(3) [OF assms(3)], of i p] ad(4,5) [OF assms(2)]
    show ?thesis unfolding s' Let_def by (simp add: ad(1,2) n i [symmetric])
  qed
qed

section \<open>A snapshot\<close>

text \<open>The loop over messages, each with the environment it meets; it stops at the first return.\<close>

fun sync_run :: "(server_env \<times> Envelope) list \<Rightarrow> Stream \<Rightarrow> HealthStore \<Rightarrow> handled" where
  "sync_run [] st s = (st, s, [], Fall)"
| "sync_run ((sv, env) # ms) st s = (case sync_msg sv env st s of (st1, s1, outs1, fl1) \<Rightarrow>
     case fl1 of
       Ret e \<Rightarrow> (st1, s1, outs1, Ret e)
     | Panic \<Rightarrow> (st1, s1, outs1, Panic)
     | _ \<Rightarrow> (case sync_run ms st1 s1 of (st2, s2, outs2, fl2) \<Rightarrow> (st2, s2, outs1 @ outs2, fl2)))"

definition locals_admitted :: "string \<Rightarrow> (server_env \<times> Envelope) list \<Rightarrow> LocalHealth list" where
  "locals_admitted node ms = concat (map (\<lambda>(sv, env). case env_Payload env of
     Some (PLocal m) \<Rightarrow> (case localFrom (sv_Registry sv) node m of Some (r, _) \<Rightarrow> [r] | None \<Rightarrow> []) | _ \<Rightarrow> []) ms)"

definition paths_admitted :: "string \<Rightarrow> (server_env \<times> Envelope) list \<Rightarrow> PathHealth list" where
  "paths_admitted node ms = concat (map (\<lambda>(sv, env). case env_Payload env of
     Some (PPath m) \<Rightarrow> (case pathFrom (sv_Registry sv) node m of Some (r, _) \<Rightarrow> [r] | None \<Rightarrow> []) | _ \<Rightarrow> []) ms)"

text \<open>A report inside a snapshot: its instance is the stream's, its acknowledgements get through.\<close>

definition snapshot_item :: "string \<Rightarrow> server_env \<times> Envelope \<Rightarrow> bool" where
  "snapshot_item inst m \<longleftrightarrow> (case m of (sv, env) \<Rightarrow> env_AgentInstanceId env = inst \<and> sv_send sv = (\<lambda>_. None) \<and>
     (case env_Payload env of Some (PLocal _) \<Rightarrow> True | Some (PPath _) \<Rightarrow> True | _ \<Rightarrow> False))"

lemma adopted_msg: "st_adopted st \<Longrightarrow> sync_msg sv env st s = sync_body sv env st s"
  by (simp add: sync_msg_def adopt_def split: prod.split)

text \<open>What a snapshot leaves of the stream: the buffers grow, the store stays.\<close>

definition buffering :: "string \<Rightarrow> string \<Rightarrow> 64 word \<Rightarrow> LocalHealth list \<Rightarrow> PathHealth list \<Rightarrow> Stream \<Rightarrow> bool" where
  "buffering node inst epoch ls ps st \<longleftrightarrow> st_adopted st \<and> st_inSnapshot st \<and> st_node st = node \<and> st_instance st = inst \<and>
     st_epoch st = epoch \<and> st_bufLocal st = ls \<and> st_bufPath st = ps"

lemma item_step:
  assumes "buffering node inst epoch ls ps st" and "snapshot_item inst (sv, env)"
  shows "\<exists>st' outs fl. sync_msg sv env st s = (st', s, outs, fl) \<and> (fl = Fall \<or> fl = Skip) \<and>
    buffering node inst epoch (ls @ locals_admitted node [(sv, env)]) (ps @ paths_admitted node [(sv, env)]) st'"
proof -
  have st: "st_adopted st" "st_inSnapshot st" "st_node st = node" "st_instance st = inst"
    "st_epoch st = epoch" "st_bufLocal st = ls" "st_bufPath st = ps"
    using assms(1) by (auto simp: buffering_def)
  have env: "env_AgentInstanceId env = inst" "sv_send sv i = None" for i
    using assms(2) by (auto simp: snapshot_item_def)
  from assms(2) consider (l) m where "env_Payload env = Some (PLocal m)" | (p) m where "env_Payload env = Some (PPath m)"
    by (auto simp: snapshot_item_def split: option.splits Payload.splits)
  then show ?thesis
  proof cases
    case l
    then show ?thesis
      by (cases "localFrom (sv_Registry sv) node m")
         (auto simp: adopted_msg st sync_body_def env on_payload_def on_local_def Let_def sent_def
           locals_admitted_def paths_admitted_def buffering_def)
  next
    case p
    then show ?thesis
      by (cases "pathFrom (sv_Registry sv) node m")
         (auto simp: adopted_msg st sync_body_def env on_payload_def on_path_def Let_def sent_def
           locals_admitted_def paths_admitted_def buffering_def)
  qed
qed

lemma items_run:
  assumes "buffering node inst epoch ls ps st" and "\<forall>m \<in> set ms. snapshot_item inst m"
  shows "\<exists>st' outs. sync_run ms st s = (st', s, outs, Fall) \<and>
    buffering node inst epoch (ls @ locals_admitted node ms) (ps @ paths_admitted node ms) st'"
  using assms
proof (induction ms arbitrary: st ls ps)
  case Nil
  then show ?case by (simp add: locals_admitted_def paths_admitted_def)
next
  case (Cons m ms)
  obtain sv env where m: "m = (sv, env)" by fastforce
  from Cons.prems have "snapshot_item inst (sv, env)" by (simp add: m)
  from item_step [OF Cons.prems(1) this, of s] obtain st' outs fl
    where step: "sync_msg sv env st s = (st', s, outs, fl)" "fl = Fall \<or> fl = Skip"
    and b: "buffering node inst epoch (ls @ locals_admitted node [(sv, env)]) (ps @ paths_admitted node [(sv, env)]) st'"
    by blast
  from Cons.IH [OF b] Cons.prems(2) obtain st2 outs2 where
    "sync_run ms st' s = (st2, s, outs2, Fall)"
    "buffering node inst epoch (ls @ locals_admitted node [(sv, env)] @ locals_admitted node ms)
       (ps @ paths_admitted node [(sv, env)] @ paths_admitted node ms) st2"
    by auto
  with step show ?case by (auto simp: m locals_admitted_def paths_admitted_def)
qed

lemma run_append:
  assumes "sync_run ms st s = (st1, s1, outs1, Fall)"
  shows "sync_run (ms @ ns) st s = (case sync_run ns st1 s1 of (st2, s2, outs2, fl) \<Rightarrow> (st2, s2, outs1 @ outs2, fl))"
  using assms
proof (induction ms arbitrary: st s outs1)
  case Nil
  then show ?case by (simp split: prod.split)
next
  case (Cons m ms)
  obtain sv env where m: "m = (sv, env)" by fastforce
  obtain sta sa oa fa where step: "sync_msg sv env st s = (sta, sa, oa, fa)" by (metis prod.collapse)
  have fa: "fa = Fall \<or> fa = Skip" using Cons.prems by (cases fa) (auto simp: m step)
  then obtain ob where "sync_run ms sta sa = (st1, s1, ob, Fall)" and "outs1 = oa @ ob"
    using Cons.prems by (auto simp: m step split: prod.splits flow.splits)
  with Cons.IH fa show ?case by (auto simp: m step split: prod.split)
qed

text \<open>The messages of one snapshot, from its begin to its end.\<close>

definition snapshot_msgs :: "server_env \<times> Envelope \<Rightarrow> (server_env \<times> Envelope) list \<Rightarrow> server_env \<times> Envelope \<Rightarrow> (server_env \<times> Envelope) list" where
  "snapshot_msgs b items e = b # items @ [e]"

definition begins :: "string \<Rightarrow> 64 word \<Rightarrow> server_env \<times> Envelope \<Rightarrow> bool" where
  "begins inst epoch m \<longleftrightarrow> (case m of (sv, env) \<Rightarrow> env_AgentInstanceId env = inst \<and> sv_send sv = (\<lambda>_. None) \<and>
     (\<exists>el ep. env_Payload env = Some (PSnapshotBegin epoch el ep)))"

definition ends :: "string \<Rightarrow> 64 word \<Rightarrow> server_env \<times> Envelope \<Rightarrow> bool" where
  "ends inst epoch m \<longleftrightarrow> (case m of (sv, env) \<Rightarrow> env_AgentInstanceId env = inst \<and> sv_send sv = (\<lambda>_. None) \<and>
     env_Payload env = Some (PSnapshotEnd epoch))"

lemma begin_step:
  assumes "st_adopted st" and "begins (st_instance st) epoch (sv, env)"
  shows "\<exists>st' outs. sync_msg sv env st s = (st', s, outs, Fall) \<and> buffering (st_node st) (st_instance st) epoch [] [] st'"
proof -
  have env: "env_AgentInstanceId env = st_instance st" "sv_send sv i = None" for i
    using assms(2) by (auto simp: begins_def)
  from assms(2) obtain el ep where "env_Payload env = Some (PSnapshotBegin epoch el ep)" by (auto simp: begins_def)
  then show ?thesis
    using assms(1) by (auto simp: adopted_msg sync_body_def env on_payload_def on_begin_def Let_def sent_def buffering_def)
qed

lemma snapshot_prefix:
  assumes "st_adopted st" and "begins (st_instance st) epoch b" and "\<forall>m \<in> set items. snapshot_item (st_instance st) m"
  shows "\<exists>st' outs. sync_run (b # items) st s = (st', s, outs, Fall) \<and>
    buffering (st_node st) (st_instance st) epoch (locals_admitted (st_node st) items) (paths_admitted (st_node st) items) st'"
proof -
  obtain sv env where b: "b = (sv, env)" by fastforce
  obtain st1 o1 where s1: "sync_msg sv env st s = (st1, s, o1, Fall)"
    and b1: "buffering (st_node st) (st_instance st) epoch [] [] st1"
    using begin_step [OF assms(1)] assms(2) b by blast
  from items_run [OF b1 assms(3), of s] obtain st2 o2 where "sync_run items st1 s = (st2, s, o2, Fall)"
    "buffering (st_node st) (st_instance st) epoch (locals_admitted (st_node st) items) (paths_admitted (st_node st) items) st2"
    by auto
  then show ?thesis by (simp add: b s1)
qed

lemma end_commit:
  assumes "buffering node inst epoch ls ps st" and "ends inst epoch (sv, env)"
  shows "fst (snd (sync_msg sv env st s)) = fst (ApplySnapshot
    \<lparr>or_NodeName = node, or_AgentInstance = inst, or_Sequence = env_Sequence env\<rparr> ls ps (sv_now sv) s)"
proof -
  have st: "st_adopted st" "st_inSnapshot st" "st_node st = node" "st_instance st = inst"
    "st_epoch st = epoch" "st_bufLocal st = ls" "st_bufPath st = ps"
    using assms(1) by (auto simp: buffering_def)
  have env: "env_AgentInstanceId env = inst" "env_Payload env = Some (PSnapshotEnd epoch)"
    using assms(2) by (auto simp: ends_def)
  have "fst (snd (sync_body sv env st s)) = fst (snd (on_end sv env epoch (st\<lparr>st_lastSeq := env_Sequence env, st_since := st_since st + 1\<rparr>) s))"
    by (simp add: sync_body_def env st on_payload_def Let_def split: prod.split)
  then show ?thesis by (simp add: adopted_msg st end_store stream_origin_def)
qed

lemma snapshot_run_store:
  assumes "st_adopted st" and "begins (st_instance st) epoch b" and "\<forall>m \<in> set items. snapshot_item (st_instance st) m"
    and "ends (st_instance st) epoch (sv, env)"
  shows "fst (snd (sync_run (snapshot_msgs b items (sv, env)) st s)) = fst (ApplySnapshot
    \<lparr>or_NodeName = st_node st, or_AgentInstance = st_instance st, or_Sequence = env_Sequence env\<rparr>
    (locals_admitted (st_node st) items) (paths_admitted (st_node st) items) (sv_now sv) s)"
proof -
  obtain st' outs where pre: "sync_run (b # items) st s = (st', s, outs, Fall)"
    and buf: "buffering (st_node st) (st_instance st) epoch (locals_admitted (st_node st) items) (paths_admitted (st_node st) items) st'"
    using snapshot_prefix [OF assms(1-3)] by blast
  have "fst (snd (sync_run [(sv, env)] st' s)) = fst (snd (sync_msg sv env st' s))"
    by (auto split: prod.split flow.split)
  then show ?thesis
    using run_append [OF pre, of "[(sv, env)]"] end_commit [OF buf assms(4)]
    by (simp add: snapshot_msgs_def split: prod.splits)
qed

section \<open>Properties\<close>


definition example_identity :: AuthenticatedAgent where
  "example_identity = \<lparr>aa_PodUID = ''u1'', aa_PodName = ''agent'', aa_Namespace = ''sys'', aa_ServiceAccount = ''sa'', aa_NodeName = ''n1''\<rparr>"

definition example_env :: "string \<Rightarrow> Payload \<Rightarrow> Envelope" where
  "example_env node p = \<lparr>env_NodeName = node, env_AgentInstanceId = ''i1'', env_Sequence = 5, env_Payload = Some p\<rparr>"

definition example_sv :: "Registry \<Rightarrow> server_env" where
  "example_sv r = \<lparr>sv_Registry = r, sv_Notify = True, sv_now = 9, sv_send = (\<lambda>_. None)\<rparr>"


text \<open>
  C15. What is admitted, in both directions. A local report is admitted if some attachment is published under its id and
  every attachment published under it has the report's address, interface and network and the stream's node
  (or no known node); whenever it is admitted, one of them has. A path report is admitted iff the stream's
  node is the one node behind its key. The record admitted copies the report and is stamped with the stream's
  node, and the owners found are exactly the Services that publish the id or the key.
\<close>

theorem admission_needs_publication:
  assumes "reg_ok R"
  shows "(let fits = (\<lambda>a. att_IP a = pbl_Ip m \<and> att_Interface a = pbl_InterfaceName m \<and> att_NAD a = pbl_Nad m \<and>
              (att_NodeName a = [] \<or> att_NodeName a = node));
            under = {a. ID a = pbl_AttachmentId m \<and> (\<exists>k sc. publishes R k sc a)} in
     (under \<noteq> {} \<and> (\<forall>a \<in> under. fits a) \<longrightarrow> localFrom R node m \<noteq> None) \<and>
     (\<forall>r owners. localFrom R node m = Some (r, owners) \<longrightarrow>
        (\<exists>a \<in> under. fits a) \<and> set owners = {k. \<exists>sc a. publishes R k sc a \<and> ID a = pbl_AttachmentId m} \<and>
        r = \<lparr>lh_AttachmentID = pbl_AttachmentId m, lh_PodUID = pbl_PodUid m, lh_Namespace = pbl_Namespace m,
              lh_PodName = pbl_PodName m, lh_NAD = pbl_Nad m, lh_Interface = pbl_InterfaceName m, lh_IP = pbl_Ip m,
              lh_NodeName = node, lh_InterfaceExists = pbl_InterfaceExists m, lh_AddressPresent = pbl_AddressPresent m,
              lh_LinkUsable = pbl_LinkUsable m, lh_ObservedAt = pbl_ObservedAtUnixNano m\<rparr>)) \<and>
    (pathFrom R node q \<noteq> None \<longleftrightarrow>
      {att_NodeName a | k sc a. publishes R k sc a \<and> PathKey a sc = pbp_ScopeId q} = {node}) \<and>
    (\<forall>r owners. pathFrom R node q = Some (r, owners) \<longrightarrow>
       set owners = {k. \<exists>sc a. publishes R k sc a \<and> PathKey a sc = pbp_ScopeId q} \<and>
       r = \<lparr>ph_Scope = (if pbp_Scope q = PROBE_SCOPE_NODE then ScopeNode else ScopeEndpoint),
             ph_ScopeID = pbp_ScopeId q, ph_NodeName = node, ph_NAD = pbp_Nad q, ph_Target = pbp_Target q,
             ph_PathReady = pbp_PathReady q, ph_ObservedAt = pbp_ObservedAtUnixNano q\<rparr>)"
proof -
  let ?fits = "\<lambda>a. att_IP a = pbl_Ip m \<and> att_Interface a = pbl_InterfaceName m \<and> att_NAD a = pbl_Nad m \<and>
      (att_NodeName a = [] \<or> att_NodeName a = node)"
  have path: "pathFrom R node q \<noteq> None \<longleftrightarrow> {att_NodeName a | k sc a. publishes R k sc a \<and> PathKey a sc = pbp_ScopeId q} = {node}"
    unfolding reg.onnode [OF assms, symmetric]
    using reg.onnode_known [OF assms, of "pbp_ScopeId q" node] by (auto simp: pathFrom_def split: prod.splits)
  have path_owners: "set owners = {k. \<exists>sc a. publishes R k sc a \<and> PathKey a sc = pbp_ScopeId q}"
    if "pathFrom R node q = Some (r, owners)" for r owners
    using that reg.pathowners [OF assms, of "pbp_ScopeId q"] by (auto simp: pathFrom_def split: prod.splits if_splits)
  have complete: "localFrom R node m \<noteq> None"
    if p: "publishes R k sc a" "ID a = pbl_AttachmentId m"
      and all: "\<And>k sc a. publishes R k sc a \<Longrightarrow> ID a = pbl_AttachmentId m \<Longrightarrow> ?fits a" for k sc a
  proof -
    obtain a' ks where e: "reg_Attachment R (pbl_AttachmentId m) = (a', ks, True)"
      using reg.complete [OF assms p(1)] p(2) by (metis prod.collapse)
    from reg.known [OF assms e] obtain k' sc' where "publishes R k' sc' a'" "ID a' = pbl_AttachmentId m" by blast
    then have "?fits a'" by (rule all)
    then show ?thesis by (auto simp: localFrom_def e)
  qed
  have sound: "(\<exists>k sc a. publishes R k sc a \<and> ID a = pbl_AttachmentId m \<and> ?fits a) \<and>
      set owners = {k. \<exists>sc a. publishes R k sc a \<and> ID a = pbl_AttachmentId m}"
    if l: "localFrom R node m = Some (r, owners)" for r owners
  proof -
    obtain att where k: "reg_Attachment R (pbl_AttachmentId m) = (att, owners, True)" and f: "?fits att"
      using l by (auto simp: localFrom_def split: prod.splits if_splits)
    from reg.known [OF assms k] f show ?thesis by blast
  qed
  have rec: "r = \<lparr>lh_AttachmentID = pbl_AttachmentId m, lh_PodUID = pbl_PodUid m, lh_Namespace = pbl_Namespace m,
              lh_PodName = pbl_PodName m, lh_NAD = pbl_Nad m, lh_Interface = pbl_InterfaceName m, lh_IP = pbl_Ip m,
              lh_NodeName = node, lh_InterfaceExists = pbl_InterfaceExists m, lh_AddressPresent = pbl_AddressPresent m,
              lh_LinkUsable = pbl_LinkUsable m, lh_ObservedAt = pbl_ObservedAtUnixNano m\<rparr>" if "localFrom R node m = Some (r, owners)" for r owners
    using that by (auto simp: localFrom_def split: prod.splits if_splits)
  have prec: "r = \<lparr>ph_Scope = (if pbp_Scope q = PROBE_SCOPE_NODE then ScopeNode else ScopeEndpoint),
             ph_ScopeID = pbp_ScopeId q, ph_NodeName = node, ph_NAD = pbp_Nad q, ph_Target = pbp_Target q,
             ph_PathReady = pbp_PathReady q, ph_ObservedAt = pbp_ObservedAtUnixNano q\<rparr>" if "pathFrom R node q = Some (r, owners)" for r owners
    using that by (auto simp: pathFrom_def split: prod.splits if_splits)
  show ?thesis
    unfolding Let_def
  proof (intro conjI allI impI, goal_cases)
    case 1
    then obtain k sc a where "publishes R k sc a" "ID a = pbl_AttachmentId m" by auto
    from complete [OF this] 1 show ?case by blast
  next
    case (2 r owners)
    from sound [OF 2] show ?case by blast
  next
    case (3 r owners)
    from sound [OF 3] show ?case by blast
  next
    case (4 r owners)
    then show ?case by (rule rec)
  next
    case 5
    show ?case by (rule path)
  next
    case (6 r owners)
    then show ?case by (rule path_owners)
  next
    case (7 r owners)
    then show ?case by (rule prec)
  qed
qed

definition example_a :: Attachment where
  "example_a = zero_Attachment\<lparr>att_NodeName := ''n1''\<rparr>"

definition example_registry :: "Attachment \<Rightarrow> Registry" where
  "example_registry a = SetService (''ns'', ''web'') [a] ScopeEndpoint NewRegistry"

definition example_pbl :: "Attachment \<Rightarrow> PbLocalHealth" where
  "example_pbl a = \<lparr>pbl_AttachmentId = ID a, pbl_PodUid = att_PodUID a, pbl_Namespace = att_PodNamespace a, pbl_PodName = att_PodName a,
     pbl_Nad = att_NAD a, pbl_InterfaceName = att_Interface a, pbl_Ip = att_IP a, pbl_LocalReady = True,
     pbl_InterfaceExists = True, pbl_AddressPresent = True, pbl_LinkUsable = True, pbl_ObservedAtUnixNano = 0\<rparr>"

definition example_pbp :: "Attachment \<Rightarrow> PbPathHealth" where
  "example_pbp a = \<lparr>pbp_Scope = PROBE_SCOPE_ENDPOINT, pbp_ScopeId = ID a, pbp_Nad = att_NAD a, pbp_Target = [], pbp_PathReady = True,
     pbp_ObservedAtUnixNano = 0\<rparr>"

lemma example_registry: "reg_ok (example_registry a)"
  "publishes (example_registry a) k sc b \<longleftrightarrow> k = (''ns'', ''web'') \<and> sc = ScopeEndpoint \<and> b = a"
  by (auto simp: example_registry_def)

lemma admission_needs_publication_witness:
  "localFrom (example_registry example_a) ''n1'' (example_pbl example_a) \<noteq> None \<and>
   localFrom (example_registry example_a) ''n2'' (example_pbl example_a) = None \<and>
   pathFrom (example_registry example_a) ''n1'' (example_pbp example_a) \<noteq> None \<and>
   pathFrom (example_registry example_a) ''n2'' (example_pbp example_a) = None"
proof -
  note a = admission_needs_publication [OF example_registry(1) [of example_a], where m = "example_pbl example_a" and q = "example_pbp example_a",
      unfolded Let_def]
  have n: "att_NodeName example_a = ''n1''" by (simp add: example_a_def)
  from a [of "''n1''"] have "localFrom (example_registry example_a) ''n1'' (example_pbl example_a) \<noteq> None"
    by (simp add: example_registry(2) example_pbl_def n)
  moreover from a [of "''n2''"] have "localFrom (example_registry example_a) ''n2'' (example_pbl example_a) = None"
    by (cases "localFrom (example_registry example_a) ''n2'' (example_pbl example_a)") (auto simp: example_registry(2) example_pbl_def n)
  moreover from a [of "''n1''"] have "pathFrom (example_registry example_a) ''n1'' (example_pbp example_a) \<noteq> None"
    by (simp add: example_registry(2) example_pbp_def n PathKey_def)
  moreover from a [of "''n2''"] have "pathFrom (example_registry example_a) ''n2'' (example_pbp example_a) = None"
    by (simp add: example_registry(2) example_pbp_def n PathKey_def)
  ultimately show ?thesis by blast
qed

text \<open>
  C21. A snapshot is atomic. On an adopted stream, the messages of a snapshot, from its begin through
  any number of reports to the matching end, leave the store exactly as it was until the end, and
  then as one \<^verbatim>\<open>ApplySnapshot\<close> of the admitted reports, in the order they came.
\<close>

theorem snapshot_is_atomic:
  assumes "st_adopted st" and "begins (st_instance st) epoch b" and "list_all (snapshot_item (st_instance st)) items"
    and "ends (st_instance st) epoch (sv, env)"
  shows "fst (snd (sync_run (b # take n items) st s)) = s \<and>
    fst (snd (sync_run (snapshot_msgs b items (sv, env)) st s)) = fst (ApplySnapshot
      \<lparr>or_NodeName = st_node st, or_AgentInstance = st_instance st, or_Sequence = env_Sequence env\<rparr>
      (locals_admitted (st_node st) items) (paths_admitted (st_node st) items) (sv_now sv) s)"
proof (rule conjI)
  have all: "\<forall>m \<in> set items. snapshot_item (st_instance st) m" using assms(3) by (simp add: list_all_iff)
  then have "\<forall>m \<in> set (take n items). snapshot_item (st_instance st) m" by (auto dest: in_set_takeD)
  from snapshot_prefix [OF assms(1,2) this] show "fst (snd (sync_run (b # take n items) st s)) = s"
    by (metis fst_conv snd_conv)
  show "fst (snd (sync_run (snapshot_msgs b items (sv, env)) st s)) = fst (ApplySnapshot
      \<lparr>or_NodeName = st_node st, or_AgentInstance = st_instance st, or_Sequence = env_Sequence env\<rparr>
      (locals_admitted (st_node st) items) (paths_admitted (st_node st) items) (sv_now sv) s)"
    by (rule snapshot_run_store [OF assms(1,2) all assms(4)])
qed

definition example_stream :: Stream where
  "example_stream = (new_Stream (Some example_identity))\<lparr>st_adopted := True, st_instance := ''i1''\<rparr>"

lemma snapshot_is_atomic_witness:
  "fst (snd (sync_run (snapshot_msgs (example_sv (example_registry example_a), example_env [] (PSnapshotBegin 1 1 0))
      [(example_sv (example_registry example_a), example_env [] (PLocal (example_pbl example_a)))]
      (example_sv (example_registry example_a), example_env [] (PSnapshotEnd 1))) example_stream example_store))
    = fst (ApplySnapshot \<lparr>or_NodeName = ''n1'', or_AgentInstance = ''i1'', or_Sequence = 5\<rparr>
        (locals_admitted ''n1'' [(example_sv (example_registry example_a), example_env [] (PLocal (example_pbl example_a)))])
        (paths_admitted ''n1'' [(example_sv (example_registry example_a), example_env [] (PLocal (example_pbl example_a)))]) 9 example_store)"
proof -
  let ?sv = "example_sv (example_registry example_a)"
  have st: "st_adopted example_stream" "st_instance example_stream = ''i1''" "st_node example_stream = ''n1''"
    by (simp_all add: example_stream_def new_Stream_def example_identity_def)
  have "begins (st_instance example_stream) 1 (?sv, example_env [] (PSnapshotBegin 1 1 0))"
    "ends (st_instance example_stream) 1 (?sv, example_env [] (PSnapshotEnd 1))"
    "list_all (snapshot_item (st_instance example_stream)) [(?sv, example_env [] (PLocal (example_pbl example_a)))]"
    by (simp_all add: begins_def ends_def snapshot_item_def st example_env_def example_sv_def)
  from snapshot_is_atomic [OF st(1) this(1,3,2)] show ?thesis
    by (simp add: st example_env_def example_sv_def)
qed

text \<open>
  A superseded stream is closed, not asked to retry: when the store no longer holds the stream's
  process as current, an admitted report or a matching snapshot end changes nothing and ends the
  stream with the stale-instance error.
\<close>

theorem superseded_stream_closed:
  assumes "st_adopted st" and "env_AgentInstanceId env = st_instance st"
    and "gm_get (hs_nodeInstance s) (st_node st) \<noteq> Some (st_instance st)"
    and "case env_Payload env of
        Some (PLocal m) \<Rightarrow> \<not> st_inSnapshot st \<and> localFrom (sv_Registry sv) (st_node st) m \<noteq> None
      | Some (PPath m) \<Rightarrow> \<not> st_inSnapshot st \<and> pathFrom (sv_Registry sv) (st_node st) m \<noteq> None
      | Some (PSnapshotEnd e) \<Rightarrow> st_inSnapshot st \<and> e = st_epoch st
      | _ \<Rightarrow> False"
  shows "fst (snd (sync_msg sv env st s)) = s \<and> snd (snd (snd (sync_msg sv env st s))) = Ret (Some ErrStaleInstance)"
proof -
  have cur: "\<not> currentLocked s \<lparr>or_NodeName = st_node st, or_AgentInstance = st_instance st, or_Sequence = q\<rparr>" for q
    using assms(3) by (simp add: currentLocked_or)
  obtain p where p: "env_Payload env = Some p" using assms(4) by (cases "env_Payload env") auto
  show ?thesis
    using assms(1,2,4) cur
    by (cases p)
       (auto simp: p adopted_msg sync_body_def Let_def on_payload_def on_local_def on_path_def on_end_def
         AcceptLocal_def AcceptPath_def ApplySnapshot_def stream_origin_def split: option.splits)
qed

lemma superseded_stream_closed_witness:
  "snd (snd (snd (sync_msg (example_sv NewRegistry) (example_env [] (PSnapshotEnd 3)) (example_stream\<lparr>st_inSnapshot := True, st_epoch := 3\<rparr>)
     (fst (AdoptInstance ''n1'' ''i2'' (NewHealthStore time_Second)))))) = Ret (Some ErrStaleInstance)"
  using superseded_stream_closed [of "example_stream\<lparr>st_inSnapshot := True, st_epoch := 3\<rparr>" "example_env [] (PSnapshotEnd 3)"
     "fst (AdoptInstance ''n1'' ''i2'' (NewHealthStore time_Second))" "example_sv NewRegistry"]
  by (simp add: example_stream_def new_Stream_def example_identity_def example_env_def AdoptInstance_def)

text \<open>
  A retirement is not checked against the sender: any stream, of whatever node and even of a
  superseded process, erases the local state of any attachment, which is unknown from then on.
\<close>

theorem retirement_unchecked:
  assumes "st_adopted st" and "env_AgentInstanceId env = st_instance st" and "env_Payload env = Some (PRetired i)"
  shows "fst (snd (sync_msg sv env st s)) = ForgetLocal i s \<and>
    LocalState (fst (snd (sync_msg sv env st s))) now i = StateUnknown"
proof -
  have "fst (snd (sync_msg sv env st s)) = ForgetLocal i s"
    using assms by (simp add: adopted_msg sync_body_def Let_def on_payload_def on_retired_def split: prod.split)
  then show ?thesis by (simp add: LocalState_held ForgetLocal_def verdict_def)
qed

lemma retirement_unchecked_witness:
  "LocalState example_store 5 ''a'' = StateHealthy \<and>
   LocalState (fst (snd (sync_msg (example_sv NewRegistry) (example_env [] (PRetired ''a''))
     (example_stream\<lparr>st_node := ''n2''\<rparr>) example_store))) 5 ''a'' = StateUnknown"
proof
  show "LocalState example_store 5 ''a'' = StateHealthy"
    by (simp add: example_store_def AcceptPath_def AcceptLocal_def AdoptInstance_def currentLocked_def
      example_origin_def example_local_def example_path_def in_order_def new_entry_def NewHealthStore_def zero_LocalHealth_def
      zero_PathHealth_def LocalState_def Local_def time_sub_def lh_Ready_def)
  show "LocalState (fst (snd (sync_msg (example_sv NewRegistry) (example_env [] (PRetired ''a''))
     (example_stream\<lparr>st_node := ''n2''\<rparr>) example_store))) 5 ''a'' = StateUnknown"
    by (rule conjunct2 [OF retirement_unchecked]) (simp_all add: example_stream_def new_Stream_def example_env_def)
qed

text \<open>
  C38. What a snapshot drops is dropped silently. When a matching snapshot end is committed, an entry of the
  node that the snapshot does not name is gone and unknown from then on, and no sweep after it reports
  its end, however many sweeps run. A Service that publishes that attachment, and nothing that the
  snapshot names, is not notified: it keeps acting on the old entry until something else wakes it.
\<close>

theorem dropped_by_snapshot_unnotified:
  assumes "st_adopted st" and "env_AgentInstanceId env = st_instance st" and "env_Payload env = Some (PSnapshotEnd (st_epoch st))"
    and "st_inSnapshot st" and "hs_ok s" and "gm_get (hs_nodeInstance s) (st_node st) = Some (st_instance st)"
    and "gm_get (hs_local s) (ID a) = Some e" and "lh_NodeName (e_Report e) = st_node st"
    and "ID a \<notin> lh_AttachmentID ` set (st_bufLocal st)"
    and "reg_ok (sv_Registry sv)" and "publishes (sv_Registry sv) k sc a"
    and "\<And>sc b. publishes (sv_Registry sv) k sc b \<Longrightarrow>
      ID b \<notin> lh_AttachmentID ` set (st_bufLocal st) \<and> PathKey b sc \<notin> ph_ScopeID ` set (st_bufPath st)"
  shows "let s' = fst (snd (sync_msg sv env st s)) in
    gm_get (hs_local s') (ID a) = None \<and>
    (\<forall>sweeps t. let s'' = fold (\<lambda>t s. fst (SweepExpired t s)) sweeps s' in
       LocalState s'' t (ID a) = StateUnknown \<and> (\<forall>n. Expired ''local'' (ID a) n \<notin> set (snd (SweepExpired t s'')))) \<and>
    ONotify k \<notin> set (fst (snd (snd (sync_msg sv env st s))))"
proof -
  let ?st = "st\<lparr>st_lastSeq := env_Sequence env, st_since := st_since st + 1\<rparr>"
  let ?s = "fst (ApplySnapshot (stream_origin ?st env) (st_bufLocal st) (st_bufPath st) (sv_now sv) s)"
  have cur: "currentLocked s (stream_origin ?st env)" using assms(6) by (simp add: stream_origin_def currentLocked_def)
  have s: "fst (snd (sync_msg sv env st s)) = ?s"
    using assms by (simp add: adopted_msg body_store payload_ops_def)
  have "find (\<lambda>r. lh_AttachmentID r = ID a) (rev (st_bufLocal st)) = None" using assms(9) by (force simp: find_None_iff)
  then have gone: "gm_get (hs_local ?s) (ID a) = None"
    using cur assms(7,8) hs_ok_wf [OF assms(5)]
    by (simp add: ApplySnapshot_def snapshot_get stream_origin_def)
  have stays: "hs_ok (fold (\<lambda>t s. fst (SweepExpired t s)) ts z) \<and> gm_get (hs_local (fold (\<lambda>t s. fst (SweepExpired t s)) ts z)) (ID a) = None"
    if "hs_ok z" "gm_get (hs_local z) (ID a) = None" for ts z
    using that by (induction ts arbitrary: z) (simp_all add: SweepExpired_fst sweep_get hs_ok_def)
  have silent: "LocalState z t (ID a) = StateUnknown \<and> (\<forall>n. Expired ''local'' (ID a) n \<notin> set (snd (SweepExpired t z)))"
    if "hs_ok z" "gm_get (hs_local z) (ID a) = None" for z t
    using that hs_ok_wf [OF that(1)] by (auto simp: SweepExpired_snd sweep_reports LocalState_def Local_def)
  have ok: "hs_ok ?s" using assms(5) by simp
  have local_owner: "k \<notin> set (owners_of (snd (reg_Attachment (sv_Registry sv) (lh_AttachmentID r))))" if "r \<in> set (st_bufLocal st)" for r
  proof
    assume "k \<in> set (owners_of (snd (reg_Attachment (sv_Registry sv) (lh_AttachmentID r))))"
    then obtain b ks where e: "reg_Attachment (sv_Registry sv) (lh_AttachmentID r) = (b, ks, True)" "k \<in> set ks"
      by (cases "reg_Attachment (sv_Registry sv) (lh_AttachmentID r)") (auto simp: owners_of_def split: if_splits)
    with reg.known [OF assms(10) e(1)] obtain sc b' where "publishes (sv_Registry sv) k sc b'" "ID b' = lh_AttachmentID r" by blast
    with assms(12) that show False by fastforce
  qed
  have path_owner: "k \<notin> set (owners_of (reg_PathKey (sv_Registry sv) (ph_ScopeID p)))" if "p \<in> set (st_bufPath st)" for p
  proof
    assume "k \<in> set (owners_of (reg_PathKey (sv_Registry sv) (ph_ScopeID p)))"
    then obtain ks where e: "reg_PathKey (sv_Registry sv) (ph_ScopeID p) = (ks, True)" "k \<in> set ks"
      by (cases "reg_PathKey (sv_Registry sv) (ph_ScopeID p)") (auto simp: owners_of_def split: if_splits)
    with reg.pathowners [OF assms(10) e(1)] obtain sc b' where "publishes (sv_Registry sv) k sc b'" "PathKey b' sc = ph_ScopeID p" by blast
    with assms(12) that show False by fastforce
  qed
  have "k \<notin> set (seen_owners (sv_Registry sv) (st_bufLocal st) (st_bufPath st))"
    using local_owner path_owner by (auto simp: seen_owners_def)
  then have "ONotify k \<notin> set (fst (snd (snd (sync_msg sv env st s))))"
    using assms(1-4) cur by (auto simp: adopted_msg sync_body_def Let_def on_payload_def on_end_def ApplySnapshot_def
        mk_ack_def mismatch_def split: option.splits if_splits)
  then show ?thesis using stays [OF ok gone] silent gone unfolding s Let_def by blast
qed

definition dropping_store :: HealthStore where
  "dropping_store = \<lparr>hs_ttl = 10 * time_Second, hs_local = [(ID example_a, new_entry example_origin 0 (example_local\<lparr>lh_AttachmentID := ID example_a\<rparr>))],
     hs_path = [], hs_nodeInstance = [(''n1'', ''i1'')]\<rparr>"

lemma dropped_by_snapshot_unnotified_witness:
  "LocalState dropping_store 5 (ID example_a) = StateHealthy \<and> publishes (example_registry example_a) (''ns'', ''web'') ScopeEndpoint example_a \<and>
   (let out = sync_msg (example_sv (example_registry example_a)) (example_env [] (PSnapshotEnd 0)) (example_stream\<lparr>st_inSnapshot := True\<rparr>) dropping_store in
    LocalState (fst (snd out)) 5 (ID example_a) = StateUnknown \<and> ONotify (''ns'', ''web'') \<notin> set (fst (snd (snd out))))"
proof -
  let ?st = "example_stream\<lparr>st_inSnapshot := True\<rparr>" and ?sv = "example_sv (example_registry example_a)"
  let ?env = "example_env [] (PSnapshotEnd 0)" and ?e = "new_entry example_origin 0 (example_local\<lparr>lh_AttachmentID := ID example_a\<rparr>)"
  have st: "st_adopted ?st" "env_AgentInstanceId ?env = st_instance ?st" "env_Payload ?env = Some (PSnapshotEnd (st_epoch ?st))"
    "st_inSnapshot ?st" "st_bufLocal ?st = []" "st_bufPath ?st = []" "st_node ?st = ''n1''"
    by (simp_all add: example_stream_def new_Stream_def example_identity_def example_env_def)
  have s: "hs_ok dropping_store" "gm_get (hs_nodeInstance dropping_store) (st_node ?st) = Some (st_instance ?st)"
    "gm_get (hs_local dropping_store) (ID example_a) = Some ?e" "lh_NodeName (e_Report ?e) = st_node ?st"
    by (simp_all add: dropping_store_def st(7) hs_ok_def half_ok_def gm_wf_def gm_get_def new_entry_def example_local_def)
      (simp add: example_stream_def new_Stream_def)
  have r: "reg_ok (sv_Registry ?sv)" "publishes (sv_Registry ?sv) (''ns'', ''web'') ScopeEndpoint example_a"
    by (simp_all add: example_sv_def example_registry)
  note d = dropped_by_snapshot_unnotified [OF st(1-4) s _ r, unfolded st(5,6) Let_def, simplified]
  have "LocalState dropping_store 5 (ID example_a) = StateHealthy"
    by (simp add: LocalState_def Local_def s(3)) (simp add: dropping_store_def new_entry_def time_sub_def lh_Ready_def example_local_def)
  moreover have "LocalState (fst (snd (sync_msg ?sv ?env ?st dropping_store))) 5 (ID example_a) = StateUnknown"
    using conjunct1 [OF conjunct2 [OF d], THEN spec, of "[]"] by simp
  ultimately show ?thesis using d r(2) by (simp add: Let_def example_sv_def)
qed

end
