(* ===== verification/Control_Plane.thy ===== *)
theory Control_Plane
  imports Health_Server
begin

text \<open>
  The controller in its full authentication mode, as \<^verbatim>\<open>cmd/controller/main.go\<close> puts it together:
  the streams of \<^verbatim>\<open>HealthServer.Sync\<close>, the agent Pods of \<^verbatim>\<open>AgentPodReconciler\<close> with the
  removal hook, the registry the Service reconciler fills, and the sweeper, all on the shared
  store. Every goroutine runs on its own; one step is one critical section or one message.
  Between the check of a token and the registration of its stream there is a gap, and so there
  is between dropping an agent and revoking its streams: both are separate steps.
\<close>

section \<open>State\<close>

text \<open>
  \<open>cp_pending\<close> are the streams between \<^verbatim>\<open>authenticate\<close> and \<^verbatim>\<open>Sessions.Register\<close>, \<open>cp_firing\<close> the
  Pod UIDs the hook is still to be called with. The last three fields are history and no
  operation reads them: the identities ever let in, the attachments ever published, and the
  streams registered when their Pod was no agent any more.
\<close>

record control =
  cp_Registry :: Registry
  cp_Store :: HealthStore
  cp_Agents :: AgentRegistry
  cp_Sessions :: SessionManager
  cp_pending :: "AuthenticatedAgent list"
  cp_open :: "(stream_id, Stream) gomap"
  cp_firing :: "string list"
  cp_admitted :: "AuthenticatedAgent list"
  cp_published :: "(ProbeScope \<times> Attachment) list"
  cp_late :: "stream_id list"

definition new_control :: "int \<Rightarrow> control" where
  "new_control ttl = \<lparr>cp_Registry = NewRegistry, cp_Store = NewHealthStore ttl, cp_Agents = NewAgentRegistry,
     cp_Sessions = NewSessionManager, cp_pending = [], cp_open = [], cp_firing = [], cp_admitted = [],
     cp_published = [], cp_late = []\<rparr>"

section \<open>Steps\<close>

text \<open>The stream gets past the token check.\<close>

definition cp_authenticate :: "AuthenticatedAgent \<Rightarrow> control \<Rightarrow> control" where
  "cp_authenticate ag c = c\<lparr>cp_pending := ag # cp_pending c, cp_admitted := ag # cp_admitted c\<rparr>"

text \<open>It registers, and enters the loop with the initial stream state.\<close>

definition cp_register :: "AuthenticatedAgent \<Rightarrow> control \<Rightarrow> control" where
  "cp_register ag c = (case Register (aa_PodUID ag) (cp_Sessions c) of (m, i) \<Rightarrow>
     c\<lparr>cp_pending := remove1 ag (cp_pending c), cp_Sessions := m, cp_open := gm_put i (new_Stream (Some ag)) (cp_open c),
       cp_late := (if ByUID (cp_Agents c) (aa_PodUID ag) = None \<and> aa_PodUID ag \<notin> set (cp_firing c)
         then i # cp_late c else cp_late c)\<rparr>)"

text \<open>The deferred release, when \<^verbatim>\<open>Sync\<close> returns.\<close>

definition cp_return :: "stream_id \<Rightarrow> Stream \<Rightarrow> control \<Rightarrow> control" where
  "cp_return i st c = c\<lparr>cp_open := gm_del i (cp_open c),
     cp_Sessions := (case st_agent st of None \<Rightarrow> cp_Sessions c | Some ag \<Rightarrow> Release (aa_PodUID ag) i (cp_Sessions c))\<rparr>"

text \<open>The stream receives a message; a handler that panics ends the process.\<close>

definition cp_message :: "server_env \<Rightarrow> Envelope \<Rightarrow> stream_id \<Rightarrow> Stream \<Rightarrow> control \<Rightarrow> control option" where
  "cp_message sv env i st c = (case sync_msg sv env st (cp_Store c) of (st', s', _, fl) \<Rightarrow>
     (case fl of
        Panic \<Rightarrow> None
      | Ret _ \<Rightarrow> Some (cp_return i st' (c\<lparr>cp_Store := s'\<rparr>))
      | _ \<Rightarrow> Some (c\<lparr>cp_Store := s', cp_open := gm_put i st' (cp_open c)\<rparr>)))"

text \<open>An agent Pod is reconciled; the hook runs afterwards, once per UID.\<close>

definition cp_pod :: "go_error + Pod \<Rightarrow> nsname \<Rightarrow> control \<Rightarrow> control" where
  "cp_pod got key c = (case agent_Reconcile got key (cp_Agents c) of (r, _, fired, _) \<Rightarrow>
     c\<lparr>cp_Agents := r, cp_firing := fired\<rparr>)"

definition cp_revoke :: "string \<Rightarrow> string list \<Rightarrow> control \<Rightarrow> control" where
  "cp_revoke u us c = c\<lparr>cp_firing := us, cp_Sessions := fst (Revoke u (cp_Sessions c))\<rparr>"

definition cp_publish :: "nsname \<Rightarrow> Attachment list \<Rightarrow> ProbeScope \<Rightarrow> control \<Rightarrow> control" where
  "cp_publish key atts sc c = c\<lparr>cp_Registry := SetService key atts sc (cp_Registry c),
     cp_published := map (Pair sc) atts @ cp_published c\<rparr>"

inductive cp_step :: "K8sAuthenticator \<Rightarrow> control \<Rightarrow> control \<Rightarrow> bool" for k where
  authenticate: "sync_start True (K8sAuth k) api (cp_Agents c) md = Inr (new_Stream (Some ag), outs) \<Longrightarrow>
    cp_step k c (cp_authenticate ag c)"
| register: "ag \<in> set (cp_pending c) \<Longrightarrow> can_register (cp_Sessions c) \<Longrightarrow> cp_step k c (cp_register ag c)"
| receive: "gm_get (cp_open c) i = Some st \<Longrightarrow> sv_Registry sv = cp_Registry c \<Longrightarrow> cp_message sv env i st c = Some c' \<Longrightarrow>
    cp_step k c c'"
| cancelled: "gm_get (cp_open c) i = Some st \<Longrightarrow> i \<in> set (sm_cancelled (cp_Sessions c)) \<Longrightarrow> on_done st = (outs, Ret e) \<Longrightarrow>
    cp_step k c (cp_return i st c)"
| hangup: "gm_get (cp_open c) i = Some st \<Longrightarrow> on_recv_error e = Ret e' \<Longrightarrow> cp_step k c (cp_return i st c)"
| pod: "cp_firing c = [] \<Longrightarrow> (\<And>p. got = Inr p \<Longrightarrow> uid_fresh key (pod_UID p) (cp_Agents c)) \<Longrightarrow> cp_step k c (cp_pod got key c)"
| revoke: "cp_firing c = u # us \<Longrightarrow> cp_step k c (cp_revoke u us c)"
| publish: "cp_step k c (cp_publish key atts sc c)"
| withdraw: "cp_step k c (c\<lparr>cp_Registry := RemoveService key (cp_Registry c)\<rparr>)"
| sweep: "op = OpSweep now \<or> op = OpPrune now \<Longrightarrow> cp_step k c (c\<lparr>cp_Store := store_run op (cp_Store c)\<rparr>)"

inductive cp_reach :: "K8sAuthenticator \<Rightarrow> int \<Rightarrow> control \<Rightarrow> bool" for k ttl where
  start: "cp_reach k ttl (new_control ttl)"
| step: "cp_reach k ttl c \<Longrightarrow> cp_step k c c' \<Longrightarrow> cp_reach k ttl c'"

section \<open>What a message carries\<close>

text \<open>
  A property of reports that admission establishes is a property of everything an operation
  writes, of everything a stream buffers, and so of everything the store holds.
\<close>

definition store_holds :: "(LocalHealth \<Rightarrow> bool) \<Rightarrow> (PathHealth \<Rightarrow> bool) \<Rightarrow> HealthStore \<Rightarrow> bool" where
  "store_holds L P s \<longleftrightarrow> (\<forall>i r t. held (hs_local s) i = Some (r, t) \<longrightarrow> L r) \<and>
     (\<forall>i r t. held (hs_path s) i = Some (r, t) \<longrightarrow> P r)"

definition buffers_hold :: "(LocalHealth \<Rightarrow> bool) \<Rightarrow> (PathHealth \<Rightarrow> bool) \<Rightarrow> Stream \<Rightarrow> bool" where
  "buffers_hold L P st \<longleftrightarrow> (\<forall>r \<in> set (st_bufLocal st). L r) \<and> (\<forall>r \<in> set (st_bufPath st). P r)"

definition admits :: "(LocalHealth \<Rightarrow> bool) \<Rightarrow> (PathHealth \<Rightarrow> bool) \<Rightarrow> Registry \<Rightarrow> string \<Rightarrow> bool" where
  "admits L P R node \<longleftrightarrow> (\<forall>m r os. localFrom R node m = Some (r, os) \<longrightarrow> L r) \<and>
     (\<forall>m r os. pathFrom R node m = Some (r, os) \<longrightarrow> P r)"

lemma admitsD:
  assumes "admits L P R node"
  shows "localFrom R node m = Some (r, os) \<Longrightarrow> L r" and "Some (r, os) = localFrom R node m \<Longrightarrow> L r"
    and "pathFrom R node q = Some (p, os) \<Longrightarrow> P p" and "Some (p, os) = pathFrom R node q \<Longrightarrow> P p"
  using assms unfolding admits_def by metis+

fun carries :: "(LocalHealth \<Rightarrow> bool) \<Rightarrow> (PathHealth \<Rightarrow> bool) \<Rightarrow> store_op \<Rightarrow> bool" where
  "carries L P (OpLocal og r now) \<longleftrightarrow> L r"
| "carries L P (OpPath og r now) \<longleftrightarrow> P r"
| "carries L P (OpSnapshot og ls ps now) \<longleftrightarrow> (\<forall>r \<in> set ls. L r) \<and> (\<forall>r \<in> set ps. P r)"
| "carries L P _ \<longleftrightarrow> True"

lemma store_holds_run:
  assumes "hs_ok s" and "store_holds L P s" and "carries L P op"
  shows "store_holds L P (store_run op s)"
proof -
  have "L r" if "grants_local s op i r t" for i r t using that assms(3) by (cases op) auto
  moreover have "P r" if "grants_path s op i r t" for i r t using that assms(3) by (cases op) auto
  ultimately show ?thesis
    using assms(2) grants_local_sound [OF assms(1)] grants_path_sound [OF assms(1)]
    unfolding store_holds_def by blast
qed

lemma store_holds_runs:
  "hs_ok s \<Longrightarrow> store_holds L P s \<Longrightarrow> \<forall>op \<in> set ops. carries L P op \<Longrightarrow> store_holds L P (fold store_run ops s)"
  by (induction ops arbitrary: s) (auto simp: store_holds_run)

lemma payload_carries:
  assumes "buffers_hold L P st" and "admits L P (sv_Registry sv) (st_node st)" and "op \<in> set (payload_ops sv env st)"
  shows "carries L P op"
proof (cases "env_Payload env")
  case None
  with assms(3) show ?thesis by (simp add: payload_ops_def)
next
  case (Some p)
  with assms show ?thesis
    by (cases p) (auto simp: payload_ops_def buffers_hold_def dest: admitsD split: option.split_asm if_split_asm)
qed

lemma adopt_keeps:
  "st_bufLocal (fst (adopt sv env st s)) = st_bufLocal st"
  "st_bufPath (fst (adopt sv env st s)) = st_bufPath st"
  "st_agent (fst (adopt sv env st s)) = st_agent st"
  by (simp_all add: adopt_def Let_def split: prod.split)

lemma msg_carries:
  assumes "st_ok st" and "st_agent st = Some ag" and "buffers_hold L P st" and "admits L P (sv_Registry sv) (aa_NodeName ag)"
    and "op \<in> set (msg_ops sv env st s)"
  shows "carries L P op"
proof -
  obtain st1 s1 o1 f1 where a: "adopt sv env st s = (st1, s1, o1, f1)" by (metis prod.collapse)
  let ?st = "st1\<lparr>st_lastSeq := env_Sequence env, st_since := st_since st1 + 1\<rparr>"
  have n: "st_node st1 = aa_NodeName ag"
    using node_fixed [of st sv env s] assms(1,2) by (auto simp: a st_ok_def)
  have "buffers_hold L P ?st" using adopt_keeps [of sv env st s] assms(3) by (simp add: a buffers_hold_def)
  from payload_carries [OF this] assms(4,5) show ?thesis
    by (auto simp: msg_ops_def a n adopt_ops_def split: if_splits)
qed

lemma payload_buffers:
  assumes "buffers_hold L P st" and "admits L P (sv_Registry sv) (st_node st)"
  shows "buffers_hold L P (fst (on_payload sv env st s)) \<and> st_agent (fst (on_payload sv env st s)) = st_agent st"
proof (cases "env_Payload env")
  case None
  with assms(1) show ?thesis by (simp add: on_payload_def)
next
  case (Some p)
  with assms show ?thesis
    by (cases p)
       (auto simp: on_payload_def on_begin_def on_retired_def on_end_def on_local_def on_path_def Let_def
         buffers_hold_def dest: admitsD split: option.split prod.split)
qed

lemma msg_buffers:
  assumes "st_ok st" and "st_agent st = Some ag" and "buffers_hold L P st" and "admits L P (sv_Registry sv) (aa_NodeName ag)"
  shows "buffers_hold L P (fst (sync_msg sv env st s)) \<and> st_agent (fst (sync_msg sv env st s)) = Some ag"
proof -
  obtain st1 s1 o1 f1 where a: "adopt sv env st s = (st1, s1, o1, f1)" by (metis prod.collapse)
  let ?st = "st1\<lparr>st_lastSeq := env_Sequence env, st_since := st_since st1 + 1\<rparr>"
  have n: "st_node st1 = aa_NodeName ag" and ag: "st_agent st1 = Some ag" and b: "buffers_hold L P st1"
    using node_fixed [of st sv env s] adopt_keeps [of sv env st s] assms(1-3) by (auto simp: a st_ok_def buffers_hold_def)
  then have "buffers_hold L P (fst (on_payload sv env ?st s1))" "st_agent (fst (on_payload sv env ?st s1)) = Some ag"
    using payload_buffers [of L P ?st sv env s1] assms(4) by (simp_all add: buffers_hold_def)
  then show ?thesis using b ag
    by (auto simp: sync_msg_def a sync_body_def Let_def buffers_hold_def split: prod.split)
qed

section \<open>The invariant of the sessions\<close>

text \<open>
  Every open stream is cancelled, or still bound under its Pod UID; and then that UID is an
  agent, or about to be revoked, or was none already when the stream registered.
\<close>

definition attended :: "control \<Rightarrow> stream_id \<Rightarrow> string \<Rightarrow> bool" where
  "attended c i uid \<longleftrightarrow> i \<in> set (sm_cancelled (cp_Sessions c)) \<or>
     bound (cp_Sessions c) uid i \<and>
       (i \<in> set (cp_late c) \<or> uid \<in> set (cp_firing c) \<or> ByUID (cp_Agents c) uid \<noteq> None)"

definition sess_ok :: "control \<Rightarrow> bool" where
  "sess_ok c \<longleftrightarrow> ar_ok (cp_Agents c) \<and> sm_ok (cp_Sessions c) \<and>
     (\<forall>i st. gm_get (cp_open c) i = Some st \<longrightarrow> i \<le> sm_streamID (cp_Sessions c) \<and>
        (\<exists>ag. st_agent st = Some ag \<and> attended c i (aa_PodUID ag)))"

lemma sess_okI:
  assumes "ar_ok (cp_Agents c)" and "sm_ok (cp_Sessions c)"
    and "\<And>i st. gm_get (cp_open c) i = Some st \<Longrightarrow> i \<le> sm_streamID (cp_Sessions c)"
    and "\<And>i st. gm_get (cp_open c) i = Some st \<Longrightarrow> \<exists>ag. st_agent st = Some ag \<and> attended c i (aa_PodUID ag)"
  shows "sess_ok c"
  using assms unfolding sess_ok_def by blast

lemma sess_okD:
  assumes "sess_ok c"
  shows "ar_ok (cp_Agents c)" and "sm_ok (cp_Sessions c)"
    and "gm_get (cp_open c) i = Some st \<Longrightarrow> i \<le> sm_streamID (cp_Sessions c)"
    and "gm_get (cp_open c) i = Some st \<Longrightarrow> \<exists>ag. st_agent st = Some ag \<and> attended c i (aa_PodUID ag)"
  using assms unfolding sess_ok_def by blast+

lemma sess_new: "sess_ok (new_control ttl)"
  by (simp add: sess_ok_def new_control_def)

lemma sess_register:
  assumes "sess_ok c" and "can_register (cp_Sessions c)"
  shows "sess_ok (cp_register ag c)"
proof (rule sess_okI)
  note D = sess_okD [OF assms(1)]
  let ?i = "sm_streamID (cp_Sessions c) + 1"
  have eq: "cp_Sessions (cp_register ag c) = fst (Register (aa_PodUID ag) (cp_Sessions c))"
    "cp_Agents (cp_register ag c) = cp_Agents c" "cp_firing (cp_register ag c) = cp_firing c"
    "cp_open (cp_register ag c) = gm_put ?i (new_Stream (Some ag)) (cp_open c)"
    "set (cp_late c) \<subseteq> set (cp_late (cp_register ag c))"
    "?i \<in> set (cp_late (cp_register ag c)) \<or> aa_PodUID ag \<in> set (cp_firing c) \<or> ByUID (cp_Agents c) (aa_PodUID ag) \<noteq> None"
    by (auto simp: cp_register_def Register_def Let_def)
  show "ar_ok (cp_Agents (cp_register ag c))" using D(1) by (simp add: eq)
  show "sm_ok (cp_Sessions (cp_register ag c))" using sm_ok_Register [OF D(2) assms(2)] by (simp add: eq)
  show "i \<le> sm_streamID (cp_Sessions (cp_register ag c))" if "gm_get (cp_open (cp_register ag c)) i = Some st" for i st
    using that D(3) [of i st] next_id [OF assms(2), of i] by (auto simp: eq split: if_splits)
  show "\<exists>ag'. st_agent st = Some ag' \<and> attended (cp_register ag c) i (aa_PodUID ag')"
    if "gm_get (cp_open (cp_register ag c)) i = Some st" for i st
  proof (cases "i = ?i")
    case True
    with that eq(6) show ?thesis by (auto simp: eq attended_def new_Stream_def)
  next
    case False
    with that D(4) [of i st] subsetD [OF eq(5)] show ?thesis by (auto simp: eq attended_def)
  qed
qed

lemma sess_return:
  assumes "sess_ok c" and "st_agent st = Some ag"
  shows "sess_ok (cp_return i st c)"
proof (rule sess_okI)
  note D = sess_okD [OF assms(1)]
  have eq: "cp_Sessions (cp_return i st c) = Release (aa_PodUID ag) i (cp_Sessions c)"
    "cp_Agents (cp_return i st c) = cp_Agents c" "cp_firing (cp_return i st c) = cp_firing c"
    "cp_late (cp_return i st c) = cp_late c" "cp_open (cp_return i st c) = gm_del i (cp_open c)"
    using assms(2) by (simp_all add: cp_return_def)
  show "ar_ok (cp_Agents (cp_return i st c))" using D(1) by (simp add: eq)
  show "sm_ok (cp_Sessions (cp_return i st c))" using sm_ok_Release [OF D(2)] by (simp add: eq)
  show "j \<le> sm_streamID (cp_Sessions (cp_return i st c))" if "gm_get (cp_open (cp_return i st c)) j = Some st'" for j st'
    using that D(3) [of j st'] by (simp add: eq split: if_splits)
  show "\<exists>ag'. st_agent st' = Some ag' \<and> attended (cp_return i st c) j (aa_PodUID ag')"
    if "gm_get (cp_open (cp_return i st c)) j = Some st'" for j st'
    using that D(4) [of j st'] by (auto simp: eq attended_def split: if_splits)
qed

lemma sess_pod:
  assumes "sess_ok c" and "cp_firing c = []" and "\<And>p. got = Inr p \<Longrightarrow> uid_fresh key (pod_UID p) (cp_Agents c)"
  shows "sess_ok (cp_pod got key c)"
proof (rule sess_okI)
  note D = sess_okD [OF assms(1)]
  have eq: "cp_Sessions (cp_pod got key c) = cp_Sessions c" "cp_open (cp_pod got key c) = cp_open c"
    "cp_late (cp_pod got key c) = cp_late c" "cp_Agents (cp_pod got key c) = fst (agent_Reconcile got key (cp_Agents c))"
    "cp_firing (cp_pod got key c) = fst (snd (snd (agent_Reconcile got key (cp_Agents c))))"
    by (simp_all add: cp_pod_def split: prod.split)
  note fires = reconcile_fires [OF D(1) assms(3)]
  show "ar_ok (cp_Agents (cp_pod got key c))" using ar_ok_reconcile [OF D(1) assms(3)] by (simp add: eq)
  show "sm_ok (cp_Sessions (cp_pod got key c))" using D(2) by (simp add: eq)
  show "i \<le> sm_streamID (cp_Sessions (cp_pod got key c))" if "gm_get (cp_open (cp_pod got key c)) i = Some st" for i st
    using that D(3) [of i st] by (simp add: eq)
  show "\<exists>ag. st_agent st = Some ag \<and> attended (cp_pod got key c) i (aa_PodUID ag)"
    if "gm_get (cp_open (cp_pod got key c)) i = Some st" for i st
    using that D(4) [of i st] assms(2) fires unfolding attended_def eq by (metis empty_iff empty_set)
qed

lemma sess_revoke:
  assumes "sess_ok c" and "cp_firing c = u # us"
  shows "sess_ok (cp_revoke u us c)"
proof (rule sess_okI)
  note D = sess_okD [OF assms(1)]
  have eq: "cp_Sessions (cp_revoke u us c) = fst (Revoke u (cp_Sessions c))" "cp_open (cp_revoke u us c) = cp_open c"
    "cp_late (cp_revoke u us c) = cp_late c" "cp_Agents (cp_revoke u us c) = cp_Agents c" "cp_firing (cp_revoke u us c) = us"
    by (simp_all add: cp_revoke_def)
  show "ar_ok (cp_Agents (cp_revoke u us c))" using D(1) by (simp add: eq)
  show "sm_ok (cp_Sessions (cp_revoke u us c))" using sm_ok_Revoke [OF D(2)] by (simp add: eq)
  show "i \<le> sm_streamID (cp_Sessions (cp_revoke u us c))" if "gm_get (cp_open (cp_revoke u us c)) i = Some st" for i st
    using that D(3) [of i st] by (simp add: eq)
  show "\<exists>ag. st_agent st = Some ag \<and> attended (cp_revoke u us c) i (aa_PodUID ag)"
    if "gm_get (cp_open (cp_revoke u us c)) i = Some st" for i st
  proof -
    from that D(4) [of i st] obtain ag where ag: "st_agent st = Some ag" and a: "attended c i (aa_PodUID ag)"
      by (auto simp: eq)
    have "attended (cp_revoke u us c) i (aa_PodUID ag)"
      using a assms(2) by (cases "aa_PodUID ag = u") (auto simp: attended_def eq cancelled_Revoke [OF D(2)])
    with ag show ?thesis by blast
  qed
qed

text \<open>The other steps leave the sessions and the directory alone.\<close>

lemma sess_frame:
  assumes "sess_ok c" and "cp_Agents c' = cp_Agents c" and "cp_Sessions c' = cp_Sessions c" and "cp_firing c' = cp_firing c"
    and "cp_late c' = cp_late c"
    and "\<And>i st'. gm_get (cp_open c') i = Some st' \<Longrightarrow> \<exists>st. gm_get (cp_open c) i = Some st \<and> st_agent st' = st_agent st"
  shows "sess_ok c'"
  using assms unfolding sess_ok_def attended_def by metis

section \<open>The invariant of the evidence\<close>

text \<open>What may be believed about a report: who sent it, and that the cluster published its subject.\<close>

definition local_vouched :: "control \<Rightarrow> LocalHealth \<Rightarrow> bool" where
  "local_vouched c r \<longleftrightarrow> (\<exists>ag \<in> set (cp_admitted c). lh_NodeName r = aa_NodeName ag) \<and>
     (\<exists>sc a. (sc, a) \<in> set (cp_published c) \<and> ID a = lh_AttachmentID r \<and> att_IP a = lh_IP r \<and>
        att_Interface a = lh_Interface r \<and> att_NAD a = lh_NAD r \<and> (att_NodeName a = [] \<or> att_NodeName a = lh_NodeName r))"

definition path_vouched :: "control \<Rightarrow> PathHealth \<Rightarrow> bool" where
  "path_vouched c r \<longleftrightarrow> (\<exists>ag \<in> set (cp_admitted c). ph_NodeName r = aa_NodeName ag) \<and>
     (\<exists>sc a. (sc, a) \<in> set (cp_published c) \<and> PathKey a sc = ph_ScopeID r \<and> att_NodeName a = ph_NodeName r)"

text \<open>An identity the expectations of the authenticator allow, with a UID and a node.\<close>

definition agent_fits :: "K8sAuthenticator \<Rightarrow> AuthenticatedAgent \<Rightarrow> bool" where
  "agent_fits k ag \<longleftrightarrow> aa_PodUID ag \<noteq> [] \<and> aa_NodeName ag \<noteq> [] \<and>
     (ka_ExpectNamespace k = [] \<or> aa_Namespace ag = ka_ExpectNamespace k) \<and>
     (ka_ExpectServiceAccount k = [] \<or> aa_ServiceAccount ag = ka_ExpectServiceAccount k)"

definition ev_ok :: "K8sAuthenticator \<Rightarrow> control \<Rightarrow> bool" where
  "ev_ok k c \<longleftrightarrow> hs_ok (cp_Store c) \<and> reg_ok (cp_Registry c) \<and>
     (\<forall>key sc a. publishes (cp_Registry c) key sc a \<longrightarrow> (sc, a) \<in> set (cp_published c)) \<and>
     store_holds (local_vouched c) (path_vouched c) (cp_Store c) \<and>
     (\<forall>n i. gm_get (hs_nodeInstance (cp_Store c)) n = Some i \<longrightarrow> n \<in> aa_NodeName ` set (cp_admitted c)) \<and>
     set (cp_pending c) \<subseteq> set (cp_admitted c) \<and> (\<forall>ag \<in> set (cp_admitted c). agent_fits k ag) \<and>
     (\<forall>i st. gm_get (cp_open c) i = Some st \<longrightarrow> st_ok st \<and> buffers_hold (local_vouched c) (path_vouched c) st \<and>
        (\<exists>ag \<in> set (cp_admitted c). st_agent st = Some ag))"

text \<open>History only grows, and what was vouched for stays so.\<close>

lemma vouched_mono:
  assumes "set (cp_admitted c) \<subseteq> set (cp_admitted c')" and "set (cp_published c) \<subseteq> set (cp_published c')"
  shows "local_vouched c r \<Longrightarrow> local_vouched c' r" and "path_vouched c q \<Longrightarrow> path_vouched c' q"
  using assms unfolding local_vouched_def path_vouched_def by blast+

lemma holds_mono:
  assumes "\<And>r. L r \<Longrightarrow> L' r" and "\<And>q. P q \<Longrightarrow> P' q"
  shows "store_holds L P s \<Longrightarrow> store_holds L' P' s" and "buffers_hold L P st \<Longrightarrow> buffers_hold L' P' st"
  using assms unfolding store_holds_def buffers_hold_def by blast+

lemma ev_new: "ev_ok k (new_control ttl)"
proof -
  have "store_holds L P (NewHealthStore ttl)" "hs_nodeInstance (NewHealthStore ttl) = []" for L P
    by (simp_all add: store_holds_def NewHealthStore_def held_def)
  then show ?thesis by (simp add: ev_ok_def new_control_def)
qed

lemma admits_vouched:
  assumes "ev_ok k c" and "ag \<in> set (cp_admitted c)"
  shows "admits (local_vouched c) (path_vouched c) (cp_Registry c) (aa_NodeName ag)"
proof -
  have ok: "reg_ok (cp_Registry c)" and pub: "publishes (cp_Registry c) key sc a \<Longrightarrow> (sc, a) \<in> set (cp_published c)" for key sc a
    using assms(1) by (auto simp: ev_ok_def)
  have "local_vouched c r" if l: "localFrom (cp_Registry c) (aa_NodeName ag) m = Some (r, os)" for m r os
  proof -
    obtain att where "reg_Attachment (cp_Registry c) (pbl_AttachmentId m) = (att, os, True)"
      and f: "att_IP att = lh_IP r" "att_Interface att = lh_Interface r" "att_NAD att = lh_NAD r"
        "att_NodeName att = [] \<or> att_NodeName att = aa_NodeName ag" "lh_AttachmentID r = pbl_AttachmentId m"
        "lh_NodeName r = aa_NodeName ag"
      using localFrom_Some [OF l] by blast
    from known_sound [OF ok this(1)] obtain key sc where "ID att = pbl_AttachmentId m" "(sc, att) \<in> set (cp_published c)"
      using pub by blast
    with f assms(2) show ?thesis unfolding local_vouched_def by metis
  qed
  moreover have "path_vouched c r" if p: "pathFrom (cp_Registry c) (aa_NodeName ag) m = Some (r, os)" for m r os
  proof -
    have on: "reg_PathKeyOnNode (cp_Registry c) (ph_ScopeID r) (aa_NodeName ag)" and n: "ph_NodeName r = aa_NodeName ag"
      using pathFrom_Some [OF p] by auto
    have "aa_NodeName ag \<in> {att_NodeName a | key sc a. publishes (cp_Registry c) key sc a \<and> PathKey a sc = ph_ScopeID r}"
      using path_on_node_iff [OF ok, of "ph_ScopeID r" "aa_NodeName ag"] on by auto
    then obtain key sc a where "publishes (cp_Registry c) key sc a" "PathKey a sc = ph_ScopeID r" "att_NodeName a = aa_NodeName ag"
      by auto
    with n assms(2) pub show ?thesis unfolding path_vouched_def by metis
  qed
  ultimately show ?thesis by (simp add: admits_def)
qed

text \<open>A step that only adds to the history, or only removes.\<close>

lemma ev_frame:
  assumes "ev_ok k c" and "hs_ok (cp_Store c')" and "reg_ok (cp_Registry c')"
    and "set (cp_admitted c) \<subseteq> set (cp_admitted c')" and "set (cp_published c) \<subseteq> set (cp_published c')"
    and "set (cp_pending c') \<subseteq> set (cp_admitted c')" and "\<forall>ag \<in> set (cp_admitted c'). agent_fits k ag"
    and "\<And>key sc a. publishes (cp_Registry c') key sc a \<Longrightarrow> publishes (cp_Registry c) key sc a \<or> (sc, a) \<in> set (cp_published c')"
    and "store_holds (local_vouched c) (path_vouched c) (cp_Store c')"
    and "\<And>n i. gm_get (hs_nodeInstance (cp_Store c')) n = Some i \<Longrightarrow> n \<in> aa_NodeName ` set (cp_admitted c)"
    and "\<And>i st. gm_get (cp_open c') i = Some st \<Longrightarrow> st_ok st \<and> buffers_hold (local_vouched c) (path_vouched c) st \<and>
        (\<exists>ag \<in> set (cp_admitted c'). st_agent st = Some ag)"
  shows "ev_ok k c'"
  unfolding ev_ok_def
proof (intro conjI allI impI)
  note m = holds_mono [of "local_vouched c" "local_vouched c'" "path_vouched c" "path_vouched c'"]
  show "store_holds (local_vouched c') (path_vouched c') (cp_Store c')"
    using m(1) [OF vouched_mono [OF assms(4,5)]] assms(9) by blast
  show "buffers_hold (local_vouched c') (path_vouched c') st" if "gm_get (cp_open c') i = Some st" for i st
    using m(2) [OF vouched_mono [OF assms(4,5)]] assms(11) [OF that] by blast
  show "(sc, a) \<in> set (cp_published c')" if "publishes (cp_Registry c') key sc a" for key sc a
    using assms(1,5) assms(8) [OF that] by (auto simp: ev_ok_def)
  show "n \<in> aa_NodeName ` set (cp_admitted c')" if "gm_get (hs_nodeInstance (cp_Store c')) n = Some i" for n i
    using assms(4) assms(10) [OF that] by blast
qed (use assms in \<open>auto simp: ev_ok_def\<close>)

lemma ev_okD:
  assumes "ev_ok k c"
  shows "hs_ok (cp_Store c)" and "reg_ok (cp_Registry c)" and "set (cp_pending c) \<subseteq> set (cp_admitted c)"
    and "store_holds (local_vouched c) (path_vouched c) (cp_Store c)"
    and "gm_get (hs_nodeInstance (cp_Store c)) n = Some j \<Longrightarrow> n \<in> aa_NodeName ` set (cp_admitted c)"
    and "\<forall>ag \<in> set (cp_admitted c). agent_fits k ag"
    and "gm_get (cp_open c) i = Some st \<Longrightarrow> st_ok st \<and> buffers_hold (local_vouched c) (path_vouched c) st \<and>
        (\<exists>ag \<in> set (cp_admitted c). st_agent st = Some ag)"
  using assms unfolding ev_ok_def by blast+

lemma ev_authenticate:
  assumes "ev_ok k c" and "agent_fits k ag"
  shows "ev_ok k (cp_authenticate ag c)"
  using ev_okD [OF assms(1)] assms(2) by (intro ev_frame [OF assms(1)]) (auto simp: cp_authenticate_def)

lemma ev_register:
  assumes "ev_ok k c" and "ag \<in> set (cp_pending c)"
  shows "ev_ok k (cp_register ag c)"
proof -
  have eq: "cp_Store (cp_register ag c) = cp_Store c" "cp_Registry (cp_register ag c) = cp_Registry c"
    "cp_admitted (cp_register ag c) = cp_admitted c" "cp_published (cp_register ag c) = cp_published c"
    "set (cp_pending (cp_register ag c)) \<subseteq> set (cp_pending c)"
    "\<exists>i. cp_open (cp_register ag c) = gm_put i (new_Stream (Some ag)) (cp_open c)"
    using set_remove1_subset [of ag "cp_pending c"] by (auto simp: cp_register_def Register_def Let_def)
  have "ag \<in> set (cp_admitted c)" using ev_okD(3) [OF assms(1)] assms(2) by blast
  then show ?thesis
    using ev_okD [OF assms(1)] eq by (intro ev_frame [OF assms(1)]) (auto simp: buffers_hold_def new_Stream_def st_ok_def split: if_splits)
qed

lemma ev_return: assumes "ev_ok k c" shows "ev_ok k (cp_return i st c)"
  using ev_okD [OF assms]
  by (intro ev_frame [OF assms]) (auto simp: cp_return_def split: if_splits)

lemma ev_publish: assumes "ev_ok k c" shows "ev_ok k (cp_publish key atts sc c)"
  using ev_okD [OF assms]
  by (intro ev_frame [OF assms]) (auto simp: cp_publish_def split: if_splits)

lemma ev_withdraw: assumes "ev_ok k c" shows "ev_ok k (c\<lparr>cp_Registry := RemoveService key (cp_Registry c)\<rparr>)"
  using ev_okD [OF assms] by (intro ev_frame [OF assms]) auto

lemma ev_same:
  assumes "ev_ok k c" and "cp_Store c' = cp_Store c" and "cp_Registry c' = cp_Registry c" and "cp_admitted c' = cp_admitted c"
    and "cp_published c' = cp_published c" and "cp_pending c' = cp_pending c" and "cp_open c' = cp_open c"
  shows "ev_ok k c'"
  using ev_okD [OF assms(1)] assms by (intro ev_frame [OF assms(1)]) auto

lemma nodeInstance_run:
  "gm_get (hs_nodeInstance (store_run op s)) n = Some i \<Longrightarrow> (\<exists>inst. op = OpAdopt n inst) \<or> gm_get (hs_nodeInstance s) n = Some i"
  by (cases op) (auto simp: AdoptInstance_def AcceptLocal_def AcceptPath_def ApplySnapshot_def ForgetLocal_def
      SweepExpired_fst Prune_def Let_def split: if_splits)

lemma nodeInstance_runs:
  "gm_get (hs_nodeInstance (fold store_run ops s)) n = Some i \<Longrightarrow>
     (\<exists>inst. OpAdopt n inst \<in> set ops) \<or> (\<exists>i. gm_get (hs_nodeInstance s) n = Some i)"
  by (induction ops arbitrary: s) (auto dest!: nodeInstance_run)

lemma hs_ok_runs: "hs_ok s \<Longrightarrow> hs_ok (fold store_run ops s)"
  by (induction ops arbitrary: s) auto

lemma ev_sweep:
  assumes "ev_ok k c" and "op = OpSweep now \<or> op = OpPrune now"
  shows "ev_ok k (c\<lparr>cp_Store := store_run op (cp_Store c)\<rparr>)"
proof (rule ev_frame [OF assms(1)])
  note D = ev_okD [OF assms(1)]
  show "store_holds (local_vouched c) (path_vouched c) (cp_Store (c\<lparr>cp_Store := store_run op (cp_Store c)\<rparr>))"
    using store_holds_run [OF D(1,4), of op] assms(2) by (auto simp del: store_run.simps)
  show "n \<in> aa_NodeName ` set (cp_admitted c)"
    if "gm_get (hs_nodeInstance (cp_Store (c\<lparr>cp_Store := store_run op (cp_Store c)\<rparr>))) n = Some i" for n i
    using that nodeInstance_run [of op "cp_Store c" n i] assms(2) D(5) by auto
qed (use ev_okD [OF assms(1)] in auto)

section \<open>A message\<close>

text \<open>What a message makes of the stream and the store, whatever happens to the stream next.\<close>

lemma ev_message:
  assumes "ev_ok k c" and "gm_get (cp_open c) i = Some st" and "sv_Registry sv = cp_Registry c"
    and "sync_msg sv env st (cp_Store c) = (st', s', outs, fl)"
  shows "ev_ok k (c\<lparr>cp_Store := s', cp_open := gm_put i st' (cp_open c)\<rparr>) \<and> ev_ok k (c\<lparr>cp_Store := s'\<rparr>) \<and>
    st_agent st' = st_agent st"
proof -
  note D = ev_okD [OF assms(1)]
  obtain ag where st: "st_ok st" "buffers_hold (local_vouched c) (path_vouched c) st"
    and ag: "ag \<in> set (cp_admitted c)" "st_agent st = Some ag"
    using D(7) [OF assms(2)] by blast
  have adm: "admits (local_vouched c) (path_vouched c) (sv_Registry sv) (aa_NodeName ag)"
    using admits_vouched [OF assms(1) ag(1)] by (simp add: assms(3))
  let ?ops = "msg_ops sv env st (cp_Store c)"
  have s': "s' = fold store_run ?ops (cp_Store c)" using msg_store [of sv env st "cp_Store c"] by (simp add: assms(4))
  have node: "\<forall>op \<in> set ?ops. from_node (aa_NodeName ag) op" using msg_node [OF ag(2) st(1)] by blast
  have holds: "store_holds (local_vouched c) (path_vouched c) s'"
    unfolding s' by (rule store_holds_runs [OF D(1,4)]) (use msg_carries [OF st(1) ag(2) st(2) adm] in blast)
  have inst: "n \<in> aa_NodeName ` set (cp_admitted c)" if "gm_get (hs_nodeInstance s') n = Some j" for n j
    using nodeInstance_runs [OF that [unfolded s']] node ag(1) D(5) by force
  have st': "st_ok st'" "buffers_hold (local_vouched c) (path_vouched c) st'" "st_agent st' = Some ag"
    using st_ok_msg [OF st(1), of sv env "cp_Store c"] msg_buffers [OF st(1) ag(2) st(2) adm, of env "cp_Store c"]
    by (simp_all add: assms(4))
  have ok: "hs_ok s'" unfolding s' by (rule hs_ok_runs [OF D(1)])
  have ev: "ev_ok k (c\<lparr>cp_Store := s', cp_open := op\<rparr>)"
    if "\<And>j stj. gm_get op j = Some stj \<Longrightarrow> stj = st' \<or> gm_get (cp_open c) j = Some stj" for op
    by (rule ev_frame [OF assms(1)]) (use D(2,3,6,7) ok holds inst st' ag(1) that in \<open>auto dest!: that\<close>)
  have "ev_ok k (c\<lparr>cp_Store := s', cp_open := gm_put i st' (cp_open c)\<rparr>)"
    by (rule ev) (auto split: if_splits)
  then show ?thesis using ev [of "cp_open c"] st'(3) ag(2) by simp
qed

lemma message_cases:
  assumes "cp_message sv env i st c = Some c'"
  obtains st' s' outs fl where "sync_msg sv env st (cp_Store c) = (st', s', outs, fl)"
    and "c' = c\<lparr>cp_Store := s', cp_open := gm_put i st' (cp_open c)\<rparr> \<or> c' = cp_return i st' (c\<lparr>cp_Store := s'\<rparr>)"
  using assms by (auto simp: cp_message_def split: prod.splits flow.splits)

lemma receive_ok:
  assumes "sess_ok c" and "ev_ok k c" and "gm_get (cp_open c) i = Some st" and "sv_Registry sv = cp_Registry c"
    and "cp_message sv env i st c = Some c'"
  shows "sess_ok c' \<and> ev_ok k c'"
proof -
  obtain st' s' outs fl where m: "sync_msg sv env st (cp_Store c) = (st', s', outs, fl)"
    and c': "c' = c\<lparr>cp_Store := s', cp_open := gm_put i st' (cp_open c)\<rparr> \<or> c' = cp_return i st' (c\<lparr>cp_Store := s'\<rparr>)"
    by (rule message_cases [OF assms(5)])
  note ev = ev_message [OF assms(2,3,4) m]
  obtain ag where "st_agent st = Some ag" using sess_okD(4) [OF assms(1,3)] by blast
  then have ag: "st_agent st' = Some ag" using ev by simp
  have s1: "sess_ok (c\<lparr>cp_Store := s'\<rparr>)" by (rule sess_frame [OF assms(1)]) auto
  have s2: "sess_ok (c\<lparr>cp_Store := s', cp_open := gm_put i st' (cp_open c)\<rparr>)"
    by (rule sess_frame [OF assms(1)]) (use ev assms(3) in \<open>auto split: if_splits\<close>)
  from c' show ?thesis
    using s2 sess_return [OF s1 ag] ev ev_return by blast
qed

section \<open>Every reachable state\<close>

lemma new_Stream_inject: "new_Stream a = new_Stream b \<longleftrightarrow> a = b"
  by (metis Stream.select_convs(1) new_Stream_def)

lemma start_identity:
  assumes "sync_start True (K8sAuth k) api agents md = Inr (new_Stream who, outs)"
  obtains token ag where "who = Some ag" and "K8s_Authenticate api k agents token = Inr ag"
proof -
  have "authenticate True (K8sAuth k) api agents md \<noteq> Inr None"
    by (auto simp: authenticate_def Let_def map_sum_def split: sum.splits)
  then obtain ag where "who = Some ag" "authenticate True (K8sAuth k) api agents md = Inr (Some ag)"
    using assms by (auto simp: sync_start_def new_Stream_inject split: sum.splits option.splits)
  then show ?thesis using that by (auto simp: authenticate_def Let_def map_sum_def split: sum.splits)
qed

lemma start_fits:
  assumes "ar_ok agents" and "sync_start True (K8sAuth k) api agents md = Inr (new_Stream (Some ag), outs)"
  shows "agent_fits k ag"
proof -
  obtain token where a: "K8s_Authenticate api k agents token = Inr ag" using start_identity [OF assms(2)] by blast
  then show ?thesis
    using full.node_known [OF assms(1) a] by (auto simp: agent_fits_def K8s_ok_iff)
qed

lemma step_ok:
  assumes "cp_step k c c'" and "sess_ok c" and "ev_ok k c"
  shows "sess_ok c' \<and> ev_ok k c'"
  using assms
proof cases
  case (authenticate api md ag outs)
  have "sess_ok (cp_authenticate ag c)" by (rule sess_frame [OF assms(2)]) (auto simp: cp_authenticate_def)
  then show ?thesis
    using ev_authenticate [OF assms(3) start_fits [OF sess_okD(1) [OF assms(2)] authenticate(2)]] authenticate(1) by simp
next
  case (register ag)
  then show ?thesis using sess_register [OF assms(2)] ev_register [OF assms(3)] by blast
next
  case (receive i st sv env)
  then show ?thesis using receive_ok [OF assms(2,3)] by blast
next
  case (cancelled i st outs e)
  then show ?thesis using sess_return [OF assms(2)] sess_okD(4) [OF assms(2)] ev_return [OF assms(3)] by metis
next
  case (hangup i st e e')
  then show ?thesis using sess_return [OF assms(2)] sess_okD(4) [OF assms(2)] ev_return [OF assms(3)] by metis
next
  case (pod got key)
  have "ev_ok k (cp_pod got key c)" by (rule ev_same [OF assms(3)]) (simp_all add: cp_pod_def split: prod.split)
  then show ?thesis using sess_pod [OF assms(2) pod(2,3)] pod(1) by blast
next
  case (revoke u us)
  have "ev_ok k (cp_revoke u us c)" by (rule ev_same [OF assms(3)]) (simp_all add: cp_revoke_def)
  then show ?thesis using sess_revoke [OF assms(2) revoke(2)] revoke(1) by blast
next
  case (publish key atts sc)
  have "sess_ok (cp_publish key atts sc c)" by (rule sess_frame [OF assms(2)]) (auto simp: cp_publish_def)
  then show ?thesis using ev_publish [OF assms(3)] publish by blast
next
  case (withdraw key)
  have "sess_ok (c\<lparr>cp_Registry := RemoveService key (cp_Registry c)\<rparr>)" by (rule sess_frame [OF assms(2)]) auto
  then show ?thesis using ev_withdraw [OF assms(3)] withdraw by blast
next
  case (sweep op now)
  have "sess_ok (c\<lparr>cp_Store := store_run op (cp_Store c)\<rparr>)" by (rule sess_frame [OF assms(2)]) auto
  then show ?thesis using ev_sweep [OF assms(3) sweep(2)] sweep(1) by blast
qed

lemma reach_ok: "cp_reach k ttl c \<Longrightarrow> sess_ok c \<and> ev_ok k c"
  by (induction rule: cp_reach.induct) (use sess_new ev_new step_ok in blast)+

lemma store_ttl_runs: "hs_ttl (fold store_run ops s) = hs_ttl s"
  by (induction ops arbitrary: s) auto

lemma message_ttl:
  assumes "cp_message sv env i st c = Some c'"
  shows "hs_ttl (cp_Store c') = hs_ttl (cp_Store c)"
proof -
  obtain st' s' outs fl where m: "sync_msg sv env st (cp_Store c) = (st', s', outs, fl)"
    and c': "c' = c\<lparr>cp_Store := s', cp_open := gm_put i st' (cp_open c)\<rparr> \<or> c' = cp_return i st' (c\<lparr>cp_Store := s'\<rparr>)"
    by (rule message_cases [OF assms])
  have "hs_ttl s' = hs_ttl (cp_Store c)"
    using msg_store [of sv env st "cp_Store c"] store_ttl_runs by (simp add: m)
  with c' show ?thesis by (auto simp: cp_return_def)
qed

lemma reach_ttl: "cp_reach k ttl c \<Longrightarrow> hs_ttl (cp_Store c) = ttl"
proof (induction rule: cp_reach.induct)
  case start
  then show ?case by (simp add: new_control_def NewHealthStore_def)
next
  case (step c c')
  from step(2) have "hs_ttl (cp_Store c') = hs_ttl (cp_Store c)"
    by cases (auto simp: message_ttl cp_authenticate_def cp_register_def cp_return_def cp_pod_def cp_revoke_def cp_publish_def
        simp del: store_run.simps split: prod.split)
  with step show ?case by simp
qed

lemma reach_stored:
  assumes "cp_reach k ttl c"
  shows "held (hs_local (cp_Store c)) i = Some (l, t) \<Longrightarrow> local_vouched c l"
    and "held (hs_path (cp_Store c)) i = Some (p, t) \<Longrightarrow> path_vouched c p"
  using ev_okD(4) [of k c] reach_ok [OF assms] unfolding store_holds_def by blast+

section \<open>Properties\<close>

text \<open>
  C3. Evidence does not come from nowhere. In every interleaving of streams, agent Pods, Services and
  sweeps, what the store holds was sent by the node of an identity that passed the authentication
  (with the expected namespace and service account), and is about an attachment the controller
  itself had published, at its address, interface, network and node; and only nodes of such
  identities have a current agent process.
\<close>

theorem stored_evidence_is_vouched:
  assumes "cp_reach k ttl c"
  shows "(\<forall>i e. gm_get (hs_local (cp_Store c)) i = Some e \<longrightarrow> lh_AttachmentID (e_Report e) = i \<and> local_vouched c (e_Report e)) \<and>
    (\<forall>i e. gm_get (hs_path (cp_Store c)) i = Some e \<longrightarrow> ph_ScopeID (e_Report e) = i \<and> path_vouched c (e_Report e)) \<and>
    (\<forall>n inst. gm_get (hs_nodeInstance (cp_Store c)) n = Some inst \<longrightarrow> (\<exists>ag \<in> set (cp_admitted c). aa_NodeName ag = n)) \<and>
    (\<forall>ag \<in> set (cp_admitted c). agent_fits k ag)"
proof -
  have ev: "ev_ok k c" using reach_ok [OF assms] by blast
  note D = ev_okD [OF ev]
  have h: "held (hs_local s) i = Some (e_Report e, e_AcceptedAt e)" if "gm_get (hs_local s) i = Some e" for s i e
    using that by (simp add: held_def)
  have h': "held (hs_path s) i = Some (e_Report e, e_AcceptedAt e)" if "gm_get (hs_path s) i = Some e" for s i e
    using that by (simp add: held_def)
  have "lh_AttachmentID (e_Report e) = i \<and> local_vouched c (e_Report e)" if "gm_get (hs_local (cp_Store c)) i = Some e" for i e
    using that D(1) D(4) h [OF that] unfolding hs_ok_def half_ok_alt store_holds_def by blast
  moreover have "ph_ScopeID (e_Report e) = i \<and> path_vouched c (e_Report e)" if "gm_get (hs_path (cp_Store c)) i = Some e" for i e
    using that D(1) D(4) h' [OF that] unfolding hs_ok_def half_ok_alt store_holds_def by blast
  moreover have "\<exists>ag \<in> set (cp_admitted c). aa_NodeName ag = n" if "gm_get (hs_nodeInstance (cp_Store c)) n = Some inst" for n inst
    using D(5) [OF that] by auto
  ultimately show ?thesis using D(6) by blast
qed

definition example_k :: K8sAuthenticator where
  "example_k = \<lparr>ka_Audience = ''aud'', ka_ExpectNamespace = ''sys'', ka_ExpectServiceAccount = ''sa'', ka_Authorize = True\<rparr>"

text \<open>The agent Pod appears, a Service is published, and the agent's token is checked.\<close>

definition example_checked :: control where
  "example_checked = cp_authenticate example_identity (cp_publish (''ns'', ''web'') [example_a] ScopeEndpoint
     (cp_pod (Inr (example_pod ''u1'')) (''sys'', ''agent'') (new_control time_Second)))"

text \<open>Two continuations: the stream registers and reports; or its Pod is deleted before it registers.\<close>

definition example_report :: "control \<Rightarrow> control" where
  "example_report c = (case cp_message (example_sv (example_registry example_a)) (example_env [] (PLocal (example_pbl example_a))) 1
      (new_Stream (Some example_identity)) c of None \<Rightarrow> c | Some c' \<Rightarrow> c')"

definition example_served :: control where
  "example_served = example_report (cp_register example_identity example_checked)"

definition example_raced :: control where
  "example_raced = example_report (cp_register example_identity (cp_revoke ''u1'' []
     (cp_pod (Inl ErrApiNotFound) (''sys'', ''agent'') example_checked)))"

lemma example_localFrom:
  obtains r ks where "localFrom (example_registry example_a) ''n1'' (example_pbl example_a) = Some (r, ks)"
    and "lh_AttachmentID r = ID example_a" and "lh_Ready r"
proof -
  have ok: "reg_ok (example_registry example_a)" by (rule example_registry)
  have pub: "publishes (example_registry example_a) (''ns'', ''web'') ScopeEndpoint example_a" by (simp add: example_registry)
  obtain a ks where a: "reg_Attachment (example_registry example_a) (ID example_a) = (a, ks, True)"
    using known_iff [OF ok, of "ID example_a"] pub by (metis prod.collapse)
  then have "a = example_a" using known_sound [OF ok a] by (auto simp: example_registry)
  with a have "\<exists>r. localFrom (example_registry example_a) ''n1'' (example_pbl example_a) = Some (r, ks) \<and>
      lh_AttachmentID r = ID example_a \<and> lh_Ready r"
    by (simp add: localFrom_def example_pbl_def example_a_def lh_Ready_def)
  then show ?thesis using that by blast
qed

text \<open>One message of the example: it adopts the process and delivers the report.\<close>

definition example_ready_stream :: "Stream \<Rightarrow> bool" where
  "example_ready_stream st \<longleftrightarrow> st_adopted st \<and> st_instance st = ''i1'' \<and> st_node st = ''n1'' \<and> \<not> st_inSnapshot st \<and> st_since st = 1"

lemma example_msg:
  obtains st' s' outs where
    "sync_msg (example_sv (example_registry example_a)) (example_env [] (PLocal (example_pbl example_a)))
       (new_Stream (Some example_identity)) (NewHealthStore time_Second) = (st', s', outs, Fall)"
    and "LocalState s' 9 (ID example_a) = StateHealthy" and "gm_get (hs_local s') (ID example_a) \<noteq> None"
    and "example_ready_stream st'" and "gm_get (hs_nodeInstance s') ''n1'' = Some ''i1''" and "hs_path s' = []"
proof -
  let ?env = "example_env [] (PLocal (example_pbl example_a))" and ?sv = "example_sv (example_registry example_a)"
  obtain r ks where r: "localFrom (example_registry example_a) ''n1'' (example_pbl example_a) = Some (r, ks)"
    and rr: "lh_AttachmentID r = ID example_a" "lh_Ready r" by (rule example_localFrom)
  let ?st = "(new_Stream (Some example_identity))\<lparr>st_instance := ''i1'', st_adopted := True\<rparr>"
  have "\<exists>o1. adopt ?sv ?env (new_Stream (Some example_identity)) (NewHealthStore time_Second)
      = (?st, fst (AdoptInstance ''n1'' ''i1'' (NewHealthStore time_Second)), o1, Fall)"
    by (simp add: adopt_def new_Stream_def example_env_def example_sv_def example_identity_def Let_def sent_def acked_def
        AdoptInstance_def)
  then obtain o1 where ad: "adopt ?sv ?env (new_Stream (Some example_identity)) (NewHealthStore time_Second)
      = (?st, fst (AdoptInstance ''n1'' ''i1'' (NewHealthStore time_Second)), o1, Fall)" by blast
  have "\<exists>st' s' outs. sync_body ?sv ?env ?st (fst (AdoptInstance ''n1'' ''i1'' (NewHealthStore time_Second))) = (st', s', outs, Fall) \<and>
      LocalState s' 9 (ID example_a) = StateHealthy \<and> gm_get (hs_local s') (ID example_a) \<noteq> None \<and>
      example_ready_stream st' \<and> gm_get (hs_nodeInstance s') ''n1'' = Some ''i1'' \<and> hs_path s' = []"
    using r rr
    by (simp add: example_ready_stream_def sync_body_def example_env_def example_sv_def example_identity_def new_Stream_def Let_def on_payload_def
        on_local_def AcceptLocal_def currentLocked_def stream_origin_def AdoptInstance_def NewHealthStore_def in_order_def
        mismatch_def ackEvery_def LocalState_def Local_def new_entry_def time_sub_def)
  then obtain st' s' o2 where "sync_body ?sv ?env ?st (fst (AdoptInstance ''n1'' ''i1'' (NewHealthStore time_Second))) = (st', s', o2, Fall)"
    and "LocalState s' 9 (ID example_a) = StateHealthy" and "gm_get (hs_local s') (ID example_a) \<noteq> None"
    and "example_ready_stream st'" "gm_get (hs_nodeInstance s') ''n1'' = Some ''i1''" "hs_path s' = []" by blast
  then show ?thesis using that [of st' s' "o1 @ o2"] by (simp add: sync_msg_def ad)
qed

lemma example_report:
  assumes "cp_Store c = NewHealthStore time_Second"
  obtains st' s' where "example_report c = c\<lparr>cp_Store := s', cp_open := gm_put 1 st' (cp_open c)\<rparr>"
    and "cp_message (example_sv (example_registry example_a)) (example_env [] (PLocal (example_pbl example_a))) 1
      (new_Stream (Some example_identity)) c = Some (example_report c)"
    and "LocalState s' 9 (ID example_a) = StateHealthy" and "gm_get (hs_local s') (ID example_a) \<noteq> None"
    and "example_ready_stream st'" and "gm_get (hs_nodeInstance s') ''n1'' = Some ''i1''" and "hs_path s' = []"
proof -
  obtain st' s' outs where m: "sync_msg (example_sv (example_registry example_a)) (example_env [] (PLocal (example_pbl example_a)))
       (new_Stream (Some example_identity)) (NewHealthStore time_Second) = (st', s', outs, Fall)"
    and l: "LocalState s' 9 (ID example_a) = StateHealthy" "gm_get (hs_local s') (ID example_a) \<noteq> None"
      "example_ready_stream st'" "gm_get (hs_nodeInstance s') ''n1'' = Some ''i1''" "hs_path s' = []"
    by (rule example_msg)
  have e: "cp_message (example_sv (example_registry example_a)) (example_env [] (PLocal (example_pbl example_a))) 1
      (new_Stream (Some example_identity)) c = Some (c\<lparr>cp_Store := s', cp_open := gm_put 1 st' (cp_open c)\<rparr>)"
    using m assms by (simp add: cp_message_def)
  show ?thesis by (rule that [of st' s']) (use e l in \<open>simp_all add: example_report_def\<close>)
qed

lemma example_checked:
  "cp_Agents example_checked = example_agents" "cp_Store example_checked = NewHealthStore time_Second"
  "cp_Registry example_checked = example_registry example_a" "cp_Sessions example_checked = NewSessionManager"
  "cp_pending example_checked = [example_identity]" "cp_open example_checked = []" "cp_firing example_checked = []"
  "cp_late example_checked = []"
  by (simp_all add: example_checked_def cp_authenticate_def cp_publish_def cp_pod_def new_control_def example_agents_def
      example_registry_def agent_Reconcile_def example_pod_def pod_info_def ar_upsert_def NewAgentRegistry_def Let_def)

lemma example_authenticated:
  "\<exists>outs. sync_start True (K8sAuth example_k) example_api example_agents (Some ''Bearer t'')
     = Inr (new_Stream (Some example_identity), outs)"
proof -
  have "reviewToken example_api ''aud'' ''t'' = Inr (\<lparr>trs_Authenticated = True, trs_Error = [], trs_Audiences = [''aud''],
      trs_User = example_user\<rparr>, ''u1'')"
    unfolding reviewToken_ok_iff by (simp add: example_api_def example_user_def firstExtra_def gm_get_def)
  moreover have "authorize example_api example_k example_user = None"
    unfolding authorize_None_iff by (simp add: example_api_def access_spec_def example_user_def)
  moreover have "ByUID example_agents ''u1'' = Some (pod_info (example_pod ''u1''))"
    by (simp add: example_agents_def agent_Reconcile_def Let_def example_pod_def pod_info_def ar_upsert_def
        NewAgentRegistry_def ByUID_def)
  ultimately have "K8s_Authenticate example_api example_k example_agents ''t'' = Inr example_identity"
    by (simp add: K8s_Authenticate_def example_k_def pod_info_def example_pod_def example_identity_def)
  then show ?thesis by (simp add: sync_start_def authenticate_def str_trim_prefix_def)
qed

lemma example_checked_reach: "cp_reach example_k time_Second example_checked"
proof -
  let ?c1 = "cp_pod (Inr (example_pod ''u1'')) (''sys'', ''agent'') (new_control time_Second)"
  let ?c2 = "cp_publish (''ns'', ''web'') [example_a] ScopeEndpoint ?c1"
  have "cp_reach example_k time_Second ?c1"
    by (rule cp_reach.step [OF cp_reach.start cp_step.pod])
       (auto simp: new_control_def uid_fresh_def NewAgentRegistry_def example_pod_def)
  then have r: "cp_reach example_k time_Second ?c2" by (rule cp_reach.step [OF _ cp_step.publish])
  have "cp_Agents ?c2 = example_agents"
    by (simp add: cp_publish_def cp_pod_def new_control_def example_agents_def split: prod.split)
  then obtain outs where "sync_start True (K8sAuth example_k) example_api (cp_Agents ?c2) (Some ''Bearer t'')
      = Inr (new_Stream (Some example_identity), outs)" using example_authenticated by auto
  from cp_reach.step [OF r cp_step.authenticate [OF this]] show ?thesis by (simp add: example_checked_def)
qed

lemma example_registered:
  assumes "cp_reach example_k time_Second c" and "cp_pending c = [example_identity]" and "cp_Sessions c = NewSessionManager"
    and "cp_open c = []"
  shows "cp_reach example_k time_Second (cp_register example_identity c)"
    and "gm_get (cp_open (cp_register example_identity c)) 1 = Some (new_Stream (Some example_identity))"
proof -
  show "cp_reach example_k time_Second (cp_register example_identity c)"
    by (rule cp_reach.step [OF assms(1) cp_step.register]) (simp_all add: assms can_register_New)
  show "gm_get (cp_open (cp_register example_identity c)) 1 = Some (new_Stream (Some example_identity))"
    using assms by (simp add: cp_register_def Register_def NewSessionManager_def Let_def)
qed

lemma example_served:
  obtains st where "cp_reach example_k time_Second example_served" and "gm_get (cp_open example_served) 1 = Some st"
    and "example_ready_stream st" and "cp_Registry example_served = example_registry example_a"
    and "LocalState (cp_Store example_served) 9 (ID example_a) = StateHealthy"
    and "gm_get (hs_local (cp_Store example_served)) (ID example_a) \<noteq> None"
    and "gm_get (hs_nodeInstance (cp_Store example_served)) ''n1'' = Some ''i1''" and "hs_path (cp_Store example_served) = []"
proof -
  note reg = example_registered [OF example_checked_reach example_checked(5,4,6)]
  have s: "cp_Store (cp_register example_identity example_checked) = NewHealthStore time_Second"
    "cp_Registry (cp_register example_identity example_checked) = example_registry example_a"
    using example_checked by (simp_all add: cp_register_def split: prod.split)
  obtain st' s' where e: "example_served = (cp_register example_identity example_checked)\<lparr>cp_Store := s',
      cp_open := gm_put 1 st' (cp_open (cp_register example_identity example_checked))\<rparr>"
    and m: "cp_message (example_sv (example_registry example_a)) (example_env [] (PLocal (example_pbl example_a))) 1
      (new_Stream (Some example_identity)) (cp_register example_identity example_checked) = Some example_served"
    and h: "LocalState s' 9 (ID example_a) = StateHealthy" "gm_get (hs_local s') (ID example_a) \<noteq> None"
      "example_ready_stream st'" "gm_get (hs_nodeInstance s') ''n1'' = Some ''i1''" "hs_path s' = []"
    by (rule example_report [OF s(1), folded example_served_def])
  have "cp_reach example_k time_Second example_served"
    by (rule cp_reach.step [OF reg(1) cp_step.receive [OF reg(2) _ m]]) (simp add: example_sv_def s(2))
  then show ?thesis by (rule that [of st']) (use h s(2) in \<open>simp_all add: e\<close>)
qed

lemma stored_evidence_is_vouched_witness:
  "\<exists>e. gm_get (hs_local (cp_Store example_served)) (ID example_a) = Some e \<and> local_vouched example_served (e_Report e)"
proof -
  obtain st where r: "cp_reach example_k time_Second example_served"
    and h: "gm_get (hs_local (cp_Store example_served)) (ID example_a) \<noteq> None" by (rule example_served)
  from stored_evidence_is_vouched [OF r] h show ?thesis by auto
qed

text \<open>The same stream then reports the path, and the attachment is healthy on both counts.\<close>

lemma example_pathFrom:
  obtains r ks where "pathFrom (example_registry example_a) ''n1'' (example_pbp example_a) = Some (r, ks)"
    and "ph_ScopeID r = ID example_a" and "ph_PathReady r"
proof -
  have ok: "reg_ok (example_registry example_a)" by (rule example_registry)
  have pk: "PathKey example_a ScopeEndpoint = ID example_a" by (simp add: PathKey_def)
  have "reg_PathKeyOnNode (example_registry example_a) (ID example_a) ''n1''"
    unfolding path_on_node_iff [OF ok] by (auto simp: example_registry pk) (simp add: example_a_def)
  moreover obtain ks where "reg_PathKey (example_registry example_a) (ID example_a) = (ks, True)"
    using pathkey_iff [OF ok, of "ID example_a"] pk example_registry(2) by (metis prod.collapse)
  ultimately have "\<exists>r. pathFrom (example_registry example_a) ''n1'' (example_pbp example_a) = Some (r, ks) \<and>
      ph_ScopeID r = ID example_a \<and> ph_PathReady r"
    by (simp add: pathFrom_def example_pbp_def)
  then show ?thesis using that by blast
qed

lemma control_ready:
  obtains c where "cp_reach example_k time_Second c" and "LocalState (cp_Store c) 9 (ID example_a) = StateHealthy"
    and "PathState (cp_Store c) 9 (ID example_a) = StateHealthy"
proof -
  obtain st where c: "cp_reach example_k time_Second example_served" "gm_get (cp_open example_served) 1 = Some st"
    and st: "example_ready_stream st" and reg: "cp_Registry example_served = example_registry example_a"
    and l: "LocalState (cp_Store example_served) 9 (ID example_a) = StateHealthy"
    and s: "gm_get (hs_nodeInstance (cp_Store example_served)) ''n1'' = Some ''i1''" "hs_path (cp_Store example_served) = []"
    by (rule example_served)
  obtain r ks where r: "pathFrom (example_registry example_a) ''n1'' (example_pbp example_a) = Some (r, ks)"
    "ph_ScopeID r = ID example_a" "ph_PathReady r" by (rule example_pathFrom)
  have t: "hs_ttl (cp_Store example_served) = time_Second" by (rule reach_ttl [OF c(1)])
  let ?sv = "example_sv (example_registry example_a)" and ?env = "example_env [] (PPath (example_pbp example_a))"
  have u: "LocalState (s\<lparr>hs_path := p\<rparr>) now i = LocalState s now i" for s p now i by (simp add: LocalState_held)
  have "\<exists>st' s' outs. sync_msg ?sv ?env st (cp_Store example_served) = (st', s', outs, Fall) \<and>
      LocalState s' 9 (ID example_a) = StateHealthy \<and> PathState s' 9 (ID example_a) = StateHealthy"
    using st r s l t
    by (simp add: example_ready_stream_def adopted_msg sync_body_def example_env_def example_sv_def Let_def on_payload_def
        on_path_def AcceptPath_def currentLocked_def stream_origin_def in_order_def ackEvery_def PathState_def Path_def u
        new_entry_def time_sub_def)
  then obtain c' where m: "cp_message ?sv ?env 1 st example_served = Some c'"
    and h: "LocalState (cp_Store c') 9 (ID example_a) = StateHealthy" "PathState (cp_Store c') 9 (ID example_a) = StateHealthy"
    by (auto simp: cp_message_def)
  have "cp_reach example_k time_Second c'"
    by (rule cp_reach.step [OF c(1) cp_step.receive [OF c(2) _ m]]) (simp add: example_sv_def reg)
  then show ?thesis using that h by blast
qed

text \<open>
  C4. Deleting an agent Pod cuts it off: in every reachable state in which the removal hook has nothing
  left to do, an open stream whose Pod UID is no agent is cancelled and will be closed, unless it
  registered only after its Pod was dropped.
\<close>

theorem removed_agent_is_cut_off:
  assumes "cp_reach k ttl c" and "gm_get (cp_open c) i = Some st" and "st_agent st = Some ag"
    and "ByUID (cp_Agents c) (aa_PodUID ag) = None" and "cp_firing c = []" and "i \<notin> set (cp_late c)"
  shows "i \<in> set (sm_cancelled (cp_Sessions c)) \<and> cp_step k c (cp_return i st c)"
proof -
  have "attended c i (aa_PodUID ag)"
    using sess_okD(4) [OF _ assms(2)] reach_ok [OF assms(1)] assms(3) by fastforce
  then have c: "i \<in> set (sm_cancelled (cp_Sessions c))" using assms(4-6) by (simp add: attended_def)
  with cp_step.cancelled [OF assms(2) this] show ?thesis by (simp add: on_done_def)
qed

definition example_cut :: control where
  "example_cut = cp_revoke ''u1'' [] (cp_pod (Inl ErrApiNotFound) (''sys'', ''agent'') (cp_register example_identity example_checked))"

lemma example_dropped:
  assumes "cp_Agents c = example_agents" and "cp_firing c = []" and "cp_reach example_k time_Second c"
  defines "d \<equiv> cp_revoke ''u1'' [] (cp_pod (Inl ErrApiNotFound) (''sys'', ''agent'') c)"
  shows "cp_reach example_k time_Second d" and "ByUID (cp_Agents d) ''u1'' = None" and "cp_firing d = []"
    and "cp_open d = cp_open c" and "cp_late d = cp_late c" and "cp_pending d = cp_pending c" and "cp_Store d = cp_Store c"
    and "cp_Registry d = cp_Registry c" and "cp_Sessions d = fst (Revoke ''u1'' (cp_Sessions c))" and "cp_admitted d = cp_admitted c"
proof -
  let ?p = "cp_pod (Inl ErrApiNotFound) (''sys'', ''agent'') c"
  have p: "cp_firing ?p = [''u1'']" "ByUID (cp_Agents ?p) ''u1'' = None"
    by (simp_all add: cp_pod_def assms(1) example_agents_def agent_Reconcile_def Let_def example_pod_def pod_info_def ar_upsert_def
        NewAgentRegistry_def ByUID_def deregister_def ar_remove_def)
  have "cp_reach example_k time_Second ?p" by (rule cp_reach.step [OF assms(3) cp_step.pod [OF assms(2)]]) simp
  from cp_reach.step [OF this cp_step.revoke [OF p(1)]] show "cp_reach example_k time_Second d" by (simp add: d_def)
  show "ByUID (cp_Agents d) ''u1'' = None" using p(2) by (simp add: d_def cp_revoke_def)
  show "cp_firing d = []" "cp_open d = cp_open c" "cp_late d = cp_late c" "cp_pending d = cp_pending c" "cp_Store d = cp_Store c"
    "cp_Registry d = cp_Registry c" "cp_Sessions d = fst (Revoke ''u1'' (cp_Sessions c))" "cp_admitted d = cp_admitted c"
    by (simp_all add: d_def cp_revoke_def cp_pod_def split: prod.split)
qed

lemma removed_agent_is_cut_off_witness: "1 \<in> set (sm_cancelled (cp_Sessions example_cut))"
proof -
  note reg = example_registered [OF example_checked_reach example_checked(5,4,6)]
  let ?c = "cp_register example_identity example_checked"
  have a: "cp_Agents ?c = example_agents" "cp_firing ?c = []" "cp_late ?c = []"
    using example_checked example_agents(2) by (auto simp: cp_register_def example_identity_def split: prod.split)
  note d = example_dropped [OF a(1,2) reg(1), folded example_cut_def]
  show ?thesis
    using removed_agent_is_cut_off [OF d(1), of 1 "new_Stream (Some example_identity)" example_identity] d(2,3) reg(2) a(3)
    by (simp add: d(4,5) new_Stream_def example_identity_def)
qed

text \<open>
  C6. Between the token check and the registration of its stream nothing protects the check: an agent
  whose Pod is deleted there gets a stream that no later step revokes. It stays open and uncancelled
  with its Pod UID gone from the directory and the removal hook done, and the report it sends
  afterwards is stored and makes the attachment healthy.
\<close>

theorem revocation_can_be_outrun:
  "cp_reach example_k time_Second example_raced \<and> ByUID (cp_Agents example_raced) (aa_PodUID example_identity) = None \<and>
   cp_firing example_raced = [] \<and>
   (\<exists>st. gm_get (cp_open example_raced) 1 = Some st \<and> st_agent st = Some example_identity) \<and>
   1 \<notin> set (sm_cancelled (cp_Sessions example_raced)) \<and>
   LocalState (cp_Store example_raced) 9 (ID example_a) = StateHealthy"
proof -
  let ?d = "cp_revoke ''u1'' [] (cp_pod (Inl ErrApiNotFound) (''sys'', ''agent'') example_checked)"
  let ?c = "cp_register example_identity ?d"
  note d = example_dropped [OF example_checked(1,7) example_checked_reach]
  have sess: "cp_Sessions ?d = NewSessionManager"
    using d(9) by (simp add: example_checked Revoke_def NewSessionManager_def)
  have reg: "cp_reach example_k time_Second ?c" "gm_get (cp_open ?c) 1 = Some (new_Stream (Some example_identity))"
    using example_registered [OF d(1)] d(4,6) sess example_checked by simp_all
  have eq: "cp_Store ?c = NewHealthStore time_Second" "cp_Registry ?c = example_registry example_a"
    "cp_Agents ?c = cp_Agents ?d" "cp_firing ?c = []" "cp_Sessions ?c = fst (Register ''u1'' NewSessionManager)"
    "cp_admitted ?c = [example_identity]"
    using d(3,7,8,10) sess example_checked
    by (simp_all add: cp_register_def example_identity_def split: prod.split)
       (simp add: example_checked_def cp_authenticate_def cp_publish_def cp_pod_def new_control_def example_identity_def split: prod.split)
  obtain st' s' where e: "example_raced = ?c\<lparr>cp_Store := s', cp_open := gm_put 1 st' (cp_open ?c)\<rparr>"
    and m: "cp_message (example_sv (example_registry example_a)) (example_env [] (PLocal (example_pbl example_a))) 1
      (new_Stream (Some example_identity)) ?c = Some example_raced"
    and h: "LocalState s' 9 (ID example_a) = StateHealthy"
    by (rule example_report [OF eq(1), folded example_raced_def])
  have reach: "cp_reach example_k time_Second example_raced"
    by (rule cp_reach.step [OF reg(1) cp_step.receive [OF reg(2) _ m]]) (simp add: example_sv_def eq(2))
  then have "st_agent st' = Some example_identity"
    using ev_okD(7) [of example_k example_raced 1 st'] reach_ok [OF reach] eq(6) by (auto simp: e)
  then show ?thesis
    using reach d(2) eq(3-5) h by (simp add: e) (simp add: NewSessionManager_def example_identity_def)
qed

end
