(* ===== verification/Endpoint_Slice.thy ===== *)
theory Endpoint_Slice
  imports Readiness Attach
begin

text \<open>
  \<^verbatim>\<open>internal/controller/endpointslice.go\<close>, first half: what a Service's slices should say.
  \<^verbatim>\<open>range byFamily\<close> visits the families in any order: \<open>desired_over\<close> takes the families in the
  order visited, and what is proved of it holds for every order. \<^verbatim>\<open>sort.Slice\<close> is modelled by
  a stable sort; attachments that tie on address and Pod share an address and are withheld
  whatever their order.
\<close>

section \<open>Objects\<close>

record EndpointPort =
  epp_Name :: "string option"
  epp_Protocol :: "string option"
  epp_Port :: "int option"

record EndpointConditions =
  ec_Ready :: "bool option"
  ec_Serving :: "bool option"
  ec_Terminating :: "bool option"

record ObjectReference =
  tr_Kind :: string
  tr_Namespace :: string
  tr_Name :: string
  tr_UID :: string

record Endpoint =
  ep_Addresses :: "string list"
  ep_Conditions :: EndpointConditions
  ep_TargetRef :: "ObjectReference option"
  ep_Hostname :: "string option"
  ep_NodeName :: "string option"

record OwnerReference =
  ow_APIVersion :: string
  ow_Kind :: string
  ow_Name :: string
  ow_UID :: string
  ow_Controller :: "bool option"

record EndpointSlice =
  es_Name :: string
  es_Namespace :: string
  es_Labels :: "(string, string) gomap"
  es_Annotations :: "(string, string) gomap"
  es_OwnerReferences :: "OwnerReference list"
  es_AddressType :: string
  es_Ports :: "EndpointPort list"
  es_Endpoints :: "Endpoint list"

definition LabelServiceName :: string where
  "LabelServiceName = ''kubernetes.io/service-name''"

definition LabelManagedBy :: string where
  "LabelManagedBy = ''endpointslice.kubernetes.io/managed-by''"

definition sliceNetworkAnnotation :: string where
  "sliceNetworkAnnotation = ''secondary-service.boanlab.io/network''"

definition maxEndpointsPerSlice :: nat where
  "maxEndpointsPerSlice = 1000"

text \<open>The message of a warning is kept as the arguments it formats.\<close>

record warning =
  w_Reason :: string
  w_Args :: "ev_value list"

definition at_string :: "AddressType \<Rightarrow> string" where
  "at_string t = (case t of AddressTypeIPv4 \<Rightarrow> ''IPv4'' | AddressTypeIPv6 \<Rightarrow> ''IPv6'')"

definition sliceName :: "string \<Rightarrow> AddressType \<Rightarrow> string" where
  "sliceName svcName t = svcName @ ''-secondary-'' @ str_lower (at_string t)"

section \<open>Ports\<close>

definition endpoint_port :: "ServicePort \<Rightarrow> EndpointPort \<times> warning list" where
  "endpoint_port p = (let t = sp_TargetPort p;
       proto = (if sp_Protocol p = [] then ''TCP'' else sp_Protocol p);
       mk = (\<lambda>port. \<lparr>epp_Name = Some (sp_Name p), epp_Protocol = Some proto, epp_Port = Some port\<rparr>) in
     if ios_Type t = 0 \<and> ios_IntVal t > 0 then (mk (ios_IntVal t), [])
     else if ios_Type t = 1 \<and> ios_StrVal t \<noteq> [] then
       (mk (sp_Port p), [\<lparr>w_Reason = ''UnresolvedTargetPort'',
          w_Args = [VStr (sp_Name p), VStr (ios_StrVal t), VInt (sp_Port p)]\<rparr>])
     else (mk (sp_Port p), []))"

definition servicePorts :: "Service \<Rightarrow> EndpointPort list \<times> warning list" where
  "servicePorts svc = (map (fst \<circ> endpoint_port) (svc_Ports svc), concat (map (snd \<circ> endpoint_port) (svc_Ports svc)))"

section \<open>Addresses claimed twice\<close>

text \<open>The two accumulators are \<^verbatim>\<open>out\<close> and \<^verbatim>\<open>conflicts\<close>; a group is a maximal run of one address.\<close>

function drop_loop :: "Attachment list \<Rightarrow> Attachment list \<Rightarrow> (string, string list) gomap \<Rightarrow> Attachment list \<times> (string, string list) gomap" where
  "drop_loop [] acc conflicts = (acc, conflicts)"
| "drop_loop (a # l) acc conflicts =
     (let same = takeWhile (\<lambda>b. att_IP b = att_IP a) l; rest = dropWhile (\<lambda>b. att_IP b = att_IP a) l in
      if same = [] then drop_loop rest (acc @ [a]) conflicts
      else drop_loop rest acc (gm_put (att_IP a) (map att_PodName (a # same)) conflicts))"
  by pat_completeness auto
termination
  by (relation "measure (length \<circ> fst)") (auto simp: length_dropWhile_le le_imp_less_Suc)

definition dropConflictingAddresses :: "Attachment list \<Rightarrow> Attachment list \<times> (string, string list) gomap" where
  "dropConflictingAddresses l = drop_loop l [] []"

section \<open>The desired slices\<close>

definition byFamily :: "Attachment list \<Rightarrow> (AddressType, Attachment list) gomap" where
  "byFamily atts = fold (\<lambda>a m. gm_put (AddressType_of a) (gm_list m (AddressType_of a) @ [a]) m) atts []"

definition endpoint_of :: "Attachment \<Rightarrow> Readiness \<Rightarrow> Endpoint" where
  "endpoint_of a r = \<lparr>ep_Addresses = [att_IP a],
     ep_Conditions = \<lparr>ec_Ready = Some (rd_Ready r), ec_Serving = Some (rd_Ready r), ec_Terminating = Some False\<rparr>,
     ep_TargetRef = Some \<lparr>tr_Kind = ''Pod'', tr_Namespace = att_PodNamespace a, tr_Name = att_PodName a, tr_UID = att_PodUID a\<rparr>,
     ep_Hostname = (if Hostname a \<noteq> [] then Some (Hostname a) else None),
     ep_NodeName = (if att_NodeName a \<noteq> [] then Some (att_NodeName a) else None)\<rparr>"

definition new_slice :: "Service \<Rightarrow> string \<Rightarrow> AddressType \<Rightarrow> Endpoint list \<Rightarrow> EndpointSlice" where
  "new_slice svc nad t eps = \<lparr>es_Name = sliceName (svc_Name svc) t, es_Namespace = svc_Namespace svc,
     es_Labels = [(LabelServiceName, svc_Name svc), (LabelManagedBy, ManagedBy)],
     es_Annotations = [(sliceNetworkAnnotation, nad)],
     es_OwnerReferences = [\<lparr>ow_APIVersion = ''v1'', ow_Kind = ''Service'', ow_Name = svc_Name svc,
       ow_UID = svc_UID svc, ow_Controller = Some True\<rparr>],
     es_AddressType = at_string t, es_Ports = fst (servicePorts svc), es_Endpoints = eps\<rparr>"

text \<open>The accesses to the store of the k-th attachment evaluated.\<close>

definition view_at :: "store_view \<Rightarrow> nat \<Rightarrow> store_view" where
  "view_at v k = (\<lambda>i. v (4 * k + i))"

record desired =
  d_slices :: "(string, EndpointSlice) gomap"
  d_readiness :: "Readiness list"
  d_warnings :: "warning list"

definition conflict_warnings :: "(string, string list) gomap \<Rightarrow> warning list" where
  "conflict_warnings conflicts = map (\<lambda>ip. \<lparr>w_Reason = ''DuplicateAddress'',
     w_Args = [VStr ip, VInt (int (length (gm_list conflicts ip))), VStrs (gm_list conflicts ip)]\<rparr>)
     (sort (gm_keys conflicts))"

definition limit_warnings :: "AddressType \<Rightarrow> nat \<Rightarrow> warning list" where
  "limit_warnings t n = (if n > maxEndpointsPerSlice
     then [\<lparr>w_Reason = ''SliceLimit'', w_Args = [VInt (int n), VStr (at_string t), VInt (int maxEndpointsPerSlice), VInt (int maxEndpointsPerSlice)]\<rparr>]
     else [])"

definition desired_family :: "Service \<Rightarrow> string \<Rightarrow> ProbeScope \<Rightarrow> store_view \<Rightarrow> AddressType \<times> Attachment list \<Rightarrow> desired \<Rightarrow> desired" where
  "desired_family svc nad scope v fam d = (case fam of (t, l) \<Rightarrow>
     case dropConflictingAddresses (sort_key (\<lambda>a. (att_IP a, att_PodUID a)) l) of (kept, conflicts) \<Rightarrow>
       let shown = take maxEndpointsPerSlice kept;
           rds = map (\<lambda>(k, a). ComputeReady a scope (view_at v k)) (enumerate (length (d_readiness d)) shown) in
       \<lparr>d_slices = gm_put (sliceName (svc_Name svc) t) (new_slice svc nad t (map2 endpoint_of shown rds)) (d_slices d),
        d_readiness = d_readiness d @ rds,
        d_warnings = d_warnings d @ conflict_warnings conflicts @ limit_warnings t (length kept)\<rparr>)"

definition desired_over :: "Service \<Rightarrow> string \<Rightarrow> ProbeScope \<Rightarrow> (AddressType, Attachment list) gomap \<Rightarrow> store_view \<Rightarrow> desired" where
  "desired_over svc nad scope fams v =
     fold (desired_family svc nad scope v) fams
       \<lparr>d_slices = [], d_readiness = [], d_warnings = snd (servicePorts svc)\<rparr>"

definition desiredSlices :: "Service \<Rightarrow> string \<Rightarrow> ProbeScope \<Rightarrow> Attachment list \<Rightarrow> store_view \<Rightarrow> desired" where
  "desiredSlices svc nad scope atts v = desired_over svc nad scope (byFamily atts) v"

section \<open>Lemmas\<close>

lemma sliceName_inject_type: "sliceName n t = sliceName n t' \<longleftrightarrow> t = t'"
  by (cases t; cases t') (simp_all add: sliceName_def at_string_def str_lower_def ascii_lower_def)

lemma length_slice_suffix [simp]: "length (str_lower (at_string t)) = 4"
  by (cases t) (simp_all add: at_string_def str_lower_def)

lemma sliceName_inject: "sliceName n t = sliceName n' t' \<longleftrightarrow> n = n' \<and> t = t'"
proof
  assume eq: "sliceName n t = sliceName n' t'"
  then have "n @ (''-secondary-'' @ str_lower (at_string t)) = n' @ (''-secondary-'' @ str_lower (at_string t'))"
    by (simp only: sliceName_def)
  then have n: "n = n'"
    by (subst (asm) append_eq_append_conv) simp_all
  with eq show "n = n' \<and> t = t'" by (simp add: sliceName_inject_type)
qed simp

text \<open>On a list grouped by address, exactly the attachments alone with their address remain.\<close>

definition alone :: "Attachment list \<Rightarrow> Attachment \<Rightarrow> bool" where
  "alone l a \<longleftrightarrow> length (filter (\<lambda>b. att_IP b = att_IP a) l) = 1"

lemma drop_while_sorted:
  fixes f :: "'a \<Rightarrow> 'b :: linorder"
  assumes "sorted (map f (a # l))" and "b \<in> set (dropWhile (\<lambda>b. f b = f a) l)"
  shows "f a < f b"
  using assms
proof (induction l)
  case (Cons c l)
  show ?case
  proof (cases "f c = f a")
    case True
    with Cons show ?thesis by auto
  next
    case False
    with Cons.prems have "f a < f c" by auto
    moreover have "f c \<le> f b" using Cons.prems False by auto
    ultimately show ?thesis by simp
  qed
qed simp

lemma drop_loop_spec:
  assumes "sorted (map att_IP l)"
  shows "fst (drop_loop l acc conflicts) = acc @ filter (alone l) l"
  using assms
proof (induction l acc conflicts rule: drop_loop.induct)
  case (2 a l acc conflicts)
  define same where "same = takeWhile (\<lambda>b. att_IP b = att_IP a) l"
  define rest where "rest = dropWhile (\<lambda>b. att_IP b = att_IP a) l"
  have l: "l = same @ rest" by (simp add: same_def rest_def)
  have same: "att_IP b = att_IP a" if "b \<in> set same" for b
    using that by (auto simp: same_def dest: set_takeWhileD)
  have rest: "att_IP a < att_IP b" if "b \<in> set rest" for b
    using drop_while_sorted [of att_IP a l b] "2.prems" that by (simp add: rest_def)
  have sorted: "sorted (map att_IP rest)"
    using "2.prems" by (simp add: l sorted_append)
  have alone_rest: "alone (a # l) b \<longleftrightarrow> alone rest b" if "b \<in> set rest" for b
  proof -
    have "filter (\<lambda>c. att_IP c = att_IP b) (a # same) = []"
    proof (rule filter_False, rule ballI)
      fix c assume "c \<in> set (a # same)"
      then have "att_IP c = att_IP a" using same [of c] by auto
      then show "att_IP c \<noteq> att_IP b" using rest [OF that] by (metis less_irrefl)
    qed
    moreover have "a # l = (a # same) @ rest" by (simp add: l)
    ultimately show ?thesis unfolding alone_def by (simp only: filter_append append_Nil)
  qed
  have alone_same: "alone (a # l) b \<longleftrightarrow> same = []" if "b = a \<or> b \<in> set same" for b
  proof -
    have b: "att_IP b = att_IP a" using that same by blast
    have "filter (\<lambda>c. att_IP c = att_IP b) rest = []"
    proof (rule filter_False, rule ballI)
      fix c assume "c \<in> set rest"
      then show "att_IP c \<noteq> att_IP b" using rest [of c] by (metis b less_irrefl)
    qed
    moreover have "filter (\<lambda>c. att_IP c = att_IP b) same = same"
      using same by (auto simp: filter_id_conv b)
    moreover have "filter (\<lambda>c. att_IP c = att_IP b) (a # l)
        = a # filter (\<lambda>c. att_IP c = att_IP b) same @ filter (\<lambda>c. att_IP c = att_IP b) rest"
      by (simp add: l b)
    ultimately show ?thesis unfolding alone_def by simp
  qed
  have kept: "filter (alone (a # l)) (a # l) = (if same = [] then [a] else []) @ filter (alone rest) rest"
  proof -
    have "filter (alone (a # l)) rest = filter (alone rest) rest"
      using alone_rest by (auto intro: filter_cong)
    moreover have "filter (alone (a # l)) (a # same) = (if same = [] then [a] else [])"
      using alone_same by (auto simp: filter_empty_conv)
    moreover have "filter (alone (a # l)) (a # l) = filter (alone (a # l)) (a # same) @ filter (alone (a # l)) rest"
      by (simp add: l)
    ultimately show ?thesis by simp
  qed
  show ?case
  proof (cases "same = []")
    case True
    then show ?thesis
      using "2.IH"(1) [OF same_def rest_def True sorted] kept
      by (simp add: Let_def same_def [symmetric] rest_def [symmetric])
  next
    case False
    then show ?thesis
      using "2.IH"(2) [OF same_def rest_def False sorted] kept
      by (simp add: Let_def same_def [symmetric] rest_def [symmetric])
  qed
qed simp


lemma sorted_fst: "sorted (map (\<lambda>a. (f a, g a)) l) \<Longrightarrow> sorted (map f l)"
  by (induction l) (auto simp: less_eq_prod_def order.order_iff_strict)

lemma alone_sort [simp]: "alone (sort_key f l) = alone l"
proof
  fix a
  have "filter P (sort_key f l) = sort_key f (filter P l)" for P by (rule filter_sort)
  then show "alone (sort_key f l) a = alone l a" by (simp add: alone_def)
qed

text \<open>What a family shows: its attachments alone with their address, in address order, up to the limit.\<close>

definition shown_of :: "Attachment list \<Rightarrow> Attachment list" where
  "shown_of l = take maxEndpointsPerSlice (filter (alone l) (sort_key (\<lambda>a. (att_IP a, att_PodUID a)) l))"

lemma drop_sorted:
  "fst (dropConflictingAddresses (sort_key (\<lambda>a. (att_IP a, att_PodUID a)) l))
     = filter (alone l) (sort_key (\<lambda>a. (att_IP a, att_PodUID a)) l)"
proof -
  let ?s = "sort_key (\<lambda>a. (att_IP a, att_PodUID a)) l"
  have "sorted (map att_IP ?s)" by (rule sorted_fst, rule sorted_sort_key)
  then show ?thesis unfolding dropConflictingAddresses_def by (simp add: drop_loop_spec)
qed

lemma shown_sound: "a \<in> set (shown_of l) \<Longrightarrow> a \<in> set l \<and> alone l a"
  by (auto simp: shown_of_def dest: in_set_takeD)

lemma alone_unique: "alone l a \<Longrightarrow> a \<in> set l \<Longrightarrow> b \<in> set l \<Longrightarrow> att_IP b = att_IP a \<Longrightarrow> b = a"
proof -
  assume "alone l a" and ab: "a \<in> set l" "b \<in> set l" "att_IP b = att_IP a"
  then obtain c where "filter (\<lambda>b. att_IP b = att_IP a) l = [c]"
    by (auto simp: alone_def length_Suc_conv)
  then have "{x \<in> set l. att_IP x = att_IP a} = {c}" by (metis empty_set list.simps(15) set_filter)
  then have "a = c" and "b = c" using ab by blast+
  then show "b = a" by simp
qed

lemma length_filter_map_filter:
  "length (filter P (map f (filter Q l))) \<le> length (filter (\<lambda>a. P (f a)) l)"
proof -
  have "filter P (map f (filter Q l)) = map f (filter Q (filter (\<lambda>a. P (f a)) l))"
    by (simp add: filter_map comp_def conj_commute)
  then show ?thesis
    using length_filter_le [of Q "filter (\<lambda>a. P (f a)) l"] by (simp only: length_map)
qed

lemma count_mset_count_list: "count (mset xs) x = count_list xs x"
  by (induction xs) auto

lemma distinct_alone: "distinct (map att_IP (filter (alone l) l))"
proof -
  have "length (filter ((=) x) (map att_IP (filter (alone l) l))) \<le> 1" for x
  proof (cases "\<exists>a \<in> set l. alone l a \<and> att_IP a = x")
    case True
    then obtain a where a: "alone l a" "att_IP a = x" by blast
    have "length (filter ((=) x) (map att_IP (filter (alone l) l)))
        \<le> length (filter (\<lambda>b. x = att_IP b) l)"
      by (rule length_filter_map_filter)
    also have "(\<lambda>b. x = att_IP b) = (\<lambda>b. att_IP b = att_IP a)" using a(2) by auto
    finally show ?thesis using a(1) by (simp only: alone_def [of l a])
  next
    case False
    then have "filter ((=) x) (map att_IP (filter (alone l) l)) = []"
      by (auto simp: filter_empty_conv)
    then show ?thesis by simp
  qed
  then have le: "count_list (map att_IP (filter (alone l) l)) x \<le> 1" for x
    unfolding count_list_eq_length_filter .
  show ?thesis
    unfolding distinct_count_atmost_1
  proof
    fix x
    show "count (mset (map att_IP (filter (alone l) l))) x
        = (if x \<in> set (map att_IP (filter (alone l) l)) then 1 else 0)"
    proof (cases "x \<in> set (map att_IP (filter (alone l) l))")
      case True
      then have "count_list (map att_IP (filter (alone l) l)) x \<noteq> 0" by (simp only: count_list_0_iff not_not)
      with le [of x] True show ?thesis by (simp only: count_mset_count_list if_True)
    next
      case False
      then show ?thesis by (simp only: count_mset_count_list if_False count_list_0_iff not_False_eq_True)
    qed
  qed
qed


lemma shown_distinct: "distinct (map att_IP (shown_of l))"
proof -
  have "mset (filter (alone l) (sort_key (\<lambda>a. (att_IP a, att_PodUID a)) l)) = mset (filter (alone l) l)"
    by (simp add: mset_filter)
  then have "mset (map att_IP (filter (alone l) (sort_key (\<lambda>a. (att_IP a, att_PodUID a)) l)))
      = mset (map att_IP (filter (alone l) l))"
    by (metis mset_map)
  with distinct_alone [of l] have "distinct (map att_IP (filter (alone l) (sort_key (\<lambda>a. (att_IP a, att_PodUID a)) l)))"
    using mset_eq_imp_distinct_iff by blast
  then show ?thesis unfolding shown_of_def by (rule distinct_map_take)
qed

lemma length_shown: "length (shown_of l) \<le> 1000"
  by (simp add: shown_of_def maxEndpointsPerSlice_def)

lemma shown_complete:
  assumes "length (filter (alone l) l) \<le> 1000" and "a \<in> set l" and "alone l a"
  shows "a \<in> set (shown_of l)"
proof -
  have "length (filter (alone l) (sort_key (\<lambda>a. (att_IP a, att_PodUID a)) l)) \<le> 1000"
    using assms(1) by (simp add: filter_sort)
  then have "shown_of l = filter (alone l) (sort_key (\<lambda>a. (att_IP a, att_PodUID a)) l)"
    by (simp add: shown_of_def maxEndpointsPerSlice_def)
  with assms show ?thesis by simp
qed

text \<open>The families of a list of attachments.\<close>

definition family :: "AddressType \<Rightarrow> Attachment list \<Rightarrow> Attachment list" where
  "family t atts = filter (\<lambda>a. AddressType_of a = t) atts"

lemma byFamily_get: "gm_wf (byFamily atts) \<and>
  gm_get (byFamily atts) t = (if family t atts = [] then None else Some (family t atts))"
proof (induction atts arbitrary: t rule: rev_induct)
  case Nil
  then show ?case by (simp add: byFamily_def family_def)
next
  case (snoc a atts)
  define m where "m = byFamily atts"
  have step: "byFamily (atts @ [a]) = gm_put (AddressType_of a) (gm_list m (AddressType_of a) @ [a]) m"
    by (simp add: byFamily_def m_def)
  have l: "gm_list m (AddressType_of a) = family (AddressType_of a) atts"
    using snoc [of "AddressType_of a"] by (auto simp: gm_list_def m_def)
  show ?case
    using snoc [of t] unfolding step l by (auto simp: m_def family_def)
qed

lemma family_nonempty: "a \<in> set atts \<Longrightarrow> family (AddressType_of a) atts \<noteq> []"
  by (auto simp: family_def filter_empty_conv)

section \<open>What the slices say\<close>

definition endpoints_at :: "ProbeScope \<Rightarrow> store_view \<Rightarrow> nat \<Rightarrow> Attachment list \<Rightarrow> Endpoint list" where
  "endpoints_at scope v n l = map (\<lambda>(k, a). endpoint_of a (ComputeReady a scope (view_at v k))) (enumerate n l)"

lemma map2_enumerate: "map2 f l (map (\<lambda>(k, a). g k a) (enumerate n l)) = map (\<lambda>(k, a). f a (g k a)) (enumerate n l)"
  by (induction l arbitrary: n) auto

lemma desired_family_eq:
  "desired_family svc nad scope v (t, l) d =
     \<lparr>d_slices = gm_put (sliceName (svc_Name svc) t)
        (new_slice svc nad t (endpoints_at scope v (length (d_readiness d)) (shown_of l))) (d_slices d),
      d_readiness = d_readiness d @ map (\<lambda>(k, a). ComputeReady a scope (view_at v k)) (enumerate (length (d_readiness d)) (shown_of l)),
      d_warnings = d_warnings (desired_family svc nad scope v (t, l) d)\<rparr>"
proof -
  obtain kept conflicts where d: "dropConflictingAddresses (sort_key (\<lambda>a. (att_IP a, att_PodUID a)) l) = (kept, conflicts)"
    by fastforce
  then have "take maxEndpointsPerSlice kept = shown_of l"
    using drop_sorted [of l] by (simp add: shown_of_def)
  then show ?thesis
    unfolding desired_family_def d Let_def prod.case endpoints_at_def map2_enumerate by simp
qed

lemma desired_family_slices:
  "d_slices (desired_family svc nad scope v (t, l) d) = gm_put (sliceName (svc_Name svc) t)
     (new_slice svc nad t (endpoints_at scope v (length (d_readiness d)) (shown_of l))) (d_slices d)"
  by (subst desired_family_eq) simp

lemma desired_fold_other:
  assumes "n \<notin> sliceName (svc_Name svc) ` fst ` set fams"
  shows "gm_get (d_slices (fold (desired_family svc nad scope v) fams d)) n = gm_get (d_slices d) n"
  using assms
proof (induction fams arbitrary: d)
  case (Cons f fams)
  then show ?case by (cases f) (auto simp: desired_family_slices)
qed simp

lemma desired_fold_get:
  assumes "gm_wf fams" and "(t, l) \<in> set fams"
  shows "\<exists>n. gm_get (d_slices (fold (desired_family svc nad scope v) fams d)) (sliceName (svc_Name svc) t)
    = Some (new_slice svc nad t (endpoints_at scope v n (shown_of l)))"
  using assms
proof (induction fams arbitrary: d)
  case (Cons f fams)
  obtain t' l' where f: "f = (t', l')" by fastforce
  show ?case
  proof (cases "(t, l) \<in> set fams")
    case True
    then show ?thesis using Cons by (simp add: gm_wf_def)
  next
    case False
    with Cons.prems f have eq: "t' = t" "l' = l" and new: "t \<notin> fst ` set fams" by (auto simp: gm_wf_def)
    from new have "sliceName (svc_Name svc) t \<notin> sliceName (svc_Name svc) ` fst ` set fams"
      by (simp add: image_iff sliceName_inject)
    then show ?thesis by (auto simp: f eq desired_fold_other desired_family_slices)
  qed
qed simp

lemma desired_fold_wf: "gm_wf (d_slices d) \<Longrightarrow> gm_wf (d_slices (fold (desired_family svc nad scope v) fams d))"
proof (induction fams arbitrary: d)
  case (Cons f fams)
  then show ?case by (cases f) (simp add: desired_family_slices)
qed simp

lemma desired_wf [simp]: "gm_wf (d_slices (desired_over svc nad scope fams v))"
  by (simp add: desired_over_def desired_fold_wf)

text \<open>Whatever the order in which the families are visited, and whatever the store says meanwhile.\<close>

lemma desired_over_get:
  assumes "mset fams = mset (byFamily atts)" and "family t atts \<noteq> []"
  shows "\<exists>n. gm_get (d_slices (desired_over svc nad scope fams v)) (sliceName (svc_Name svc) t)
    = Some (new_slice svc nad t (endpoints_at scope v n (shown_of (family t atts))))"
proof -
  have wf: "gm_wf fams" using assms(1) byFamily_get gm_wf_perm by blast
  have "gm_get fams t = Some (family t atts)"
    using gm_get_perm [of "byFamily atts" fams t] assms byFamily_get [of atts t] by simp
  then have "(t, family t atts) \<in> set fams" by (rule gm_get_Some_mem)
  then show ?thesis unfolding desired_over_def by (rule desired_fold_get [OF wf])
qed

lemma desired_over_only:
  assumes "mset fams = mset (byFamily atts)"
    and "gm_get (d_slices (desired_over svc nad scope fams v)) name = Some sl"
  shows "\<exists>t n. name = sliceName (svc_Name svc) t \<and> family t atts \<noteq> [] \<and>
    sl = new_slice svc nad t (endpoints_at scope v n (shown_of (family t atts)))"
proof -
  have "name \<in> sliceName (svc_Name svc) ` fst ` set fams"
  proof (rule ccontr)
    assume "\<not> ?thesis"
    then show False using assms(2) by (simp add: desired_over_def desired_fold_other)
  qed
  then obtain t l where name: "name = sliceName (svc_Name svc) t" and "(t, l) \<in> set fams" by auto
  then have "(t, l) \<in> set (byFamily atts)" using assms(1) by (metis set_mset_mset)
  then have ne: "family t atts \<noteq> []"
    using byFamily_get [of atts t] gm_mem_get [of "byFamily atts" t l] by (auto split: if_splits)
  obtain n where "gm_get (d_slices (desired_over svc nad scope fams v)) (sliceName (svc_Name svc) t)
    = Some (new_slice svc nad t (endpoints_at scope v n (shown_of (family t atts))))"
    using desired_over_get [OF assms(1) ne] by blast
  with assms(2) name ne show ?thesis by auto
qed

lemma endpoints_addresses: "map ep_Addresses (endpoints_at scope v n l) = map (\<lambda>a. [att_IP a]) l"
  unfolding endpoints_at_def by (induction l arbitrary: n) (auto simp: endpoint_of_def)

lemma endpoints_mem:
  assumes "ep \<in> set (endpoints_at scope v n l)"
  obtains k a where "a \<in> set l" and "ep = endpoint_of a (ComputeReady a scope (view_at v k))"
proof -
  from assms obtain k a where "(k, a) \<in> set (enumerate n l)"
    and ep: "ep = endpoint_of a (ComputeReady a scope (view_at v k))"
    unfolding endpoints_at_def by auto
  then have "a \<in> set l" by (metis enumerate_eq_zip in_set_zipE)
  with ep show thesis by (rule that [rotated])
qed

lemma endpoints_frozen:
  "endpoints_at scope (frozen hs now) n l = map (\<lambda>a. endpoint_of a (ComputeReady a scope (frozen hs now))) l"
proof -
  have "view_at (frozen hs now) k = frozen hs now" for k by (simp add: view_at_def frozen_def)
  then show ?thesis unfolding endpoints_at_def by (induction l arbitrary: n) auto
qed

lemmas slice_view = new_slice_def endpoint_of_def

section \<open>Properties\<close>

text \<open>
  What is published is not the agents' to say. Whatever the store holds and however it changes
  while the slices are built, and whatever order the families are visited in, there is a slice for
  a family exactly when the Service has attachments in it, and its addresses, in order, are those of
  the attachments the reconciler derived; health only sets the conditions.
\<close>

theorem reports_create_nothing:
  assumes "mset fams = mset (byFamily atts)"
  shows "map_option (\<lambda>sl. map ep_Addresses (es_Endpoints sl))
      (gm_get (d_slices (desired_over svc nad scope fams v)) (sliceName (svc_Name svc) t)) =
    (if family t atts = [] then None else Some (map (\<lambda>a. [att_IP a]) (shown_of (family t atts))))"
proof (cases "family t atts = []")
  case True
  have "gm_get (d_slices (desired_over svc nad scope fams v)) (sliceName (svc_Name svc) t) = None"
  proof (rule ccontr)
    assume "\<not> ?thesis"
    then obtain sl where "gm_get (d_slices (desired_over svc nad scope fams v)) (sliceName (svc_Name svc) t) = Some sl" by blast
    from desired_over_only [OF assms this] True show False by (auto simp: sliceName_inject)
  qed
  with True show ?thesis by simp
next
  case False
  from desired_over_get [OF assms False, of svc nad scope v] False show ?thesis
    by (auto simp: new_slice_def endpoints_addresses)
qed

definition example_att :: "string \<Rightarrow> string \<Rightarrow> Attachment" where
  "example_att pod ip = \<lparr>att_PodUID = pod, att_PodName = pod, att_PodNamespace = ''ns'', att_NodeName = ''n1'',
     att_NAD = ''ns/net'', att_Interface = ''net1'', att_IP = ip, att_PodReady = True\<rparr>"

definition example_svc :: Service where
  "example_svc = \<lparr>svc_Name = ''web'', svc_Namespace = ''ns'', svc_UID = ''u'', svc_Annotations = [], svc_ClusterIP = ''None'',
     svc_Selector = [], svc_Ports = []\<rparr>"

definition example_view :: store_view where
  "example_view = frozen (NewHealthStore time_Second) 5"

lemma example_shown:
  "AddressType_of (example_att ''p1'' ''10.0.0.1'') = AddressTypeIPv4"
  "shown_of (family AddressTypeIPv4 [example_att ''p1'' ''10.0.0.1'']) = [example_att ''p1'' ''10.0.0.1'']"
  "family AddressTypeIPv4 [example_att ''p1'' ''10.0.0.1''] \<noteq> []"
  "sliceName (svc_Name example_svc) AddressTypeIPv4 = ''web-secondary-ipv4''"
proof -
  show t: "AddressType_of (example_att ''p1'' ''10.0.0.1'') = AddressTypeIPv4" by code_simp
  show "shown_of (family AddressTypeIPv4 [example_att ''p1'' ''10.0.0.1'']) = [example_att ''p1'' ''10.0.0.1'']"
    "family AddressTypeIPv4 [example_att ''p1'' ''10.0.0.1''] \<noteq> []"
    by (simp_all add: family_def t shown_of_def maxEndpointsPerSlice_def alone_def)
  show "sliceName (svc_Name example_svc) AddressTypeIPv4 = ''web-secondary-ipv4''" by code_simp
qed

lemma reports_create_nothing_witness:
  "map_option (\<lambda>sl. map ep_Addresses (es_Endpoints sl)) (gm_get (d_slices (desired_over example_svc ''ns/net'' ScopeEndpoint
     (byFamily [example_att ''p1'' ''10.0.0.1'']) example_view)) ''web-secondary-ipv4'') = Some [[''10.0.0.1'']]"
proof -
  have "att_IP (example_att ''p1'' ''10.0.0.1'') = ''10.0.0.1''" by (simp add: example_att_def)
  then show ?thesis
    using reports_create_nothing [OF refl, of example_svc "''ns/net''" ScopeEndpoint "[example_att ''p1'' ''10.0.0.1'']" example_view AddressTypeIPv4]
    by (simp only: example_shown if_False list.map)
qed

lemma shown_addresses:
  "map att_IP (shown_of l) = take 1000 (sort (map att_IP (filter (alone l) l)))"
proof -
  let ?s = "filter (alone l) (sort_key (\<lambda>a. (att_IP a, att_PodUID a)) l)"
  have "sorted (map att_IP (sort_key (\<lambda>a. (att_IP a, att_PodUID a)) l))" by (rule sorted_fst, rule sorted_sort_key)
  then have "sorted (map att_IP ?s)" by (rule sorted_filter)
  moreover have "mset (map att_IP ?s) = mset (map att_IP (filter (alone l) l))" by (simp add: mset_filter)
  ultimately have "sort (map att_IP (filter (alone l) l)) = map att_IP ?s" by (intro properties_for_sort) simp_all
  then show ?thesis by (simp add: shown_of_def maxEndpointsPerSlice_def take_map)
qed

lemma uncontested:
  "filter (alone (family t atts)) (family t atts) =
    filter (\<lambda>a. AddressType_of a = t \<and> length (filter (\<lambda>b. AddressType_of b = t \<and> att_IP b = att_IP a) atts) = 1) atts"
  unfolding family_def alone_def filter_filter by (simp add: conj_commute)

text \<open>
  C17. A family has a slice iff the Service has attachments in it, and the slice lists, in ascending order
  and each once, the addresses that exactly one attachment of the family claims, up to the API limit of
  1000: whoever shares an address is withheld, and below the limit nothing uncontested is left out. Each
  endpoint is of the Pod of the one attachment that claims its address.
\<close>

theorem contested_addresses_withheld:
  assumes "mset fams = mset (byFamily atts)"
  shows "let free = filter (\<lambda>a. AddressType_of a = t \<and>
               length (filter (\<lambda>b. AddressType_of b = t \<and> att_IP b = att_IP a) atts) = 1) atts;
             slice = gm_get (d_slices (desired_over svc nad scope fams v)) (sliceName (svc_Name svc) t) in
    (slice = None \<longleftrightarrow> (\<forall>a \<in> set atts. AddressType_of a \<noteq> t)) \<and>
    (\<forall>sl. slice = Some sl \<longrightarrow>
       map ep_Addresses (es_Endpoints sl) = map (\<lambda>ip. [ip]) (take 1000 (sort (map att_IP free))) \<and>
       distinct (map ep_Addresses (es_Endpoints sl)) \<and>
       (\<forall>ep \<in> set (es_Endpoints sl). \<exists>a \<in> set free. ep_Addresses ep = [att_IP a] \<and>
          ep_TargetRef ep = Some \<lparr>tr_Kind = ''Pod'', tr_Namespace = att_PodNamespace a, tr_Name = att_PodName a, tr_UID = att_PodUID a\<rparr>))"
proof -
  let ?l = "family t atts"
  let ?free = "filter (\<lambda>a. AddressType_of a = t \<and> length (filter (\<lambda>b. AddressType_of b = t \<and> att_IP b = att_IP a) atts) = 1) atts"
  let ?slice = "gm_get (d_slices (desired_over svc nad scope fams v)) (sliceName (svc_Name svc) t)"
  have free: "filter (alone ?l) ?l = ?free" by (rule uncontested)
  have none: "?slice = None \<longleftrightarrow> (\<forall>a \<in> set atts. AddressType_of a \<noteq> t)"
  proof -
    have "?l = [] \<longleftrightarrow> (\<forall>a \<in> set atts. AddressType_of a \<noteq> t)" by (simp add: family_def filter_empty_conv)
    moreover have "?l \<noteq> []" if "?slice = Some sl" for sl
      using desired_over_only [OF assms that] by (auto simp: sliceName_inject)
    ultimately show ?thesis using desired_over_get [OF assms, of t svc nad scope v] by (metis option.distinct(1) option.exhaust)
  qed
  have some: "map ep_Addresses (es_Endpoints sl) = map (\<lambda>ip. [ip]) (take 1000 (sort (map att_IP ?free))) \<and>
      distinct (map ep_Addresses (es_Endpoints sl)) \<and>
      (\<forall>ep \<in> set (es_Endpoints sl). \<exists>a \<in> set ?free. ep_Addresses ep = [att_IP a] \<and>
         ep_TargetRef ep = Some \<lparr>tr_Kind = ''Pod'', tr_Namespace = att_PodNamespace a, tr_Name = att_PodName a, tr_UID = att_PodUID a\<rparr>)"
    if slice: "?slice = Some sl" for sl
  proof -
    from desired_over_only [OF assms slice] obtain n where
      "sl = new_slice svc nad t (endpoints_at scope v n (shown_of ?l))" by (auto simp: sliceName_inject)
    then have eps: "es_Endpoints sl = endpoints_at scope v n (shown_of ?l)" by (simp add: new_slice_def)
    have addr: "map ep_Addresses (es_Endpoints sl) = map (\<lambda>ip. [ip]) (map att_IP (shown_of ?l))"
      by (simp add: eps endpoints_addresses)
    moreover have "distinct (map (\<lambda>ip. [ip]) (map att_IP (shown_of ?l)))"
      using shown_distinct [of ?l] unfolding distinct_map by (auto simp: inj_on_def)
    moreover have "\<exists>a \<in> set ?free. ep_Addresses ep = [att_IP a] \<and>
        ep_TargetRef ep = Some \<lparr>tr_Kind = ''Pod'', tr_Namespace = att_PodNamespace a, tr_Name = att_PodName a, tr_UID = att_PodUID a\<rparr>"
      if "ep \<in> set (es_Endpoints sl)" for ep
    proof -
      from that obtain k a where a: "a \<in> set (shown_of ?l)" and ep: "ep = endpoint_of a (ComputeReady a scope (view_at v k))"
        unfolding eps by (rule endpoints_mem)
      have "a \<in> set ?free" using shown_sound [OF a] unfolding free [symmetric] by simp
      then show ?thesis by (intro bexI [of _ a]) (simp_all add: ep endpoint_of_def)
    qed
    ultimately show ?thesis unfolding shown_addresses free by simp
  qed
  show ?thesis unfolding Let_def using none some by blast
qed

text \<open>
  C34. Every endpoint says its readiness explicitly: \<^verbatim>\<open>ready\<close> and \<^verbatim>\<open>serving\<close> are set and equal,
  \<^verbatim>\<open>terminating\<close> is false, it names the Pod it came from, and it is ready only if the readiness rule
  says so for that attachment at some access to the store.
\<close>

theorem endpoint_conditions_explicit:
  assumes "mset fams = mset (byFamily atts)"
    and "gm_get (d_slices (desired_over svc nad scope fams v)) name = Some sl" and "ep \<in> set (es_Endpoints sl)"
  shows "\<exists>a k. a \<in> set atts \<and> ep_Addresses ep = [att_IP a] \<and>
    ep_Conditions ep = (let b = rd_Ready (ComputeReady a scope (view_at v k)) in
      \<lparr>ec_Ready = Some b, ec_Serving = Some b, ec_Terminating = Some False\<rparr>) \<and>
    ep_TargetRef ep = Some \<lparr>tr_Kind = ''Pod'', tr_Namespace = att_PodNamespace a, tr_Name = att_PodName a, tr_UID = att_PodUID a\<rparr> \<and>
    (ep_NodeName ep = None \<longleftrightarrow> att_NodeName a = []) \<and> (ep_Hostname ep = None \<longleftrightarrow> Hostname a = [])"
proof -
  from desired_over_only [OF assms(1,2)] obtain t n where
    "sl = new_slice svc nad t (endpoints_at scope v n (shown_of (family t atts)))" by blast
  with assms(3) have "ep \<in> set (endpoints_at scope v n (shown_of (family t atts)))" by (simp add: new_slice_def)
  then obtain k a where a: "a \<in> set (shown_of (family t atts))" and ep: "ep = endpoint_of a (ComputeReady a scope (view_at v k))"
    by (rule endpoints_mem)
  have "a \<in> set atts" using shown_sound [OF a] by (simp add: family_def)
  then show ?thesis by (intro exI [of _ a] exI [of _ k]) (simp add: ep endpoint_of_def Let_def)
qed

lemma endpoint_conditions_explicit_witness:
  "\<exists>sl ep b. gm_get (d_slices (desired_over example_svc ''ns/net'' ScopeEndpoint
     (byFamily [example_att ''p1'' ''10.0.0.1'']) example_view)) ''web-secondary-ipv4'' = Some sl \<and> ep \<in> set (es_Endpoints sl) \<and>
     ec_Ready (ep_Conditions ep) = Some b"
proof -
  let ?a = "example_att ''p1'' ''10.0.0.1''"
  note ne = example_shown(3) and sh = example_shown(2) and nm = example_shown(4)
  from desired_over_get [OF refl ne, of example_svc "''ns/net''" ScopeEndpoint example_view] obtain n where
    g: "gm_get (d_slices (desired_over example_svc ''ns/net'' ScopeEndpoint (byFamily [?a]) example_view)) ''web-secondary-ipv4''
      = Some (new_slice example_svc ''ns/net'' AddressTypeIPv4 (endpoints_at ScopeEndpoint example_view n [?a]))"
    by (auto simp: nm sh)
  let ?ep = "endpoint_of ?a (ComputeReady ?a ScopeEndpoint (view_at example_view n))"
  have "?ep \<in> set (es_Endpoints (new_slice example_svc ''ns/net'' AddressTypeIPv4 (endpoints_at ScopeEndpoint example_view n [?a])))"
    by (simp add: new_slice_def endpoints_at_def)
  from endpoint_conditions_explicit [OF refl g this] g this show ?thesis by (auto simp: Let_def)
qed

text \<open>Two Pods claim one address, a third has its own.\<close>

lemma contested_addresses_withheld_witness:
  "\<exists>sl. gm_get (d_slices (desired_over example_svc ''ns/net'' ScopeEndpoint
      (byFamily [example_att ''p1'' ''10.0.0.1'', example_att ''p2'' ''10.0.0.2'', example_att ''p3'' ''10.0.0.1'']) example_view))
      ''web-secondary-ipv4'' = Some sl \<and> map ep_Addresses (es_Endpoints sl) = [[''10.0.0.2'']]"
proof -
  let ?l = "[example_att ''p1'' ''10.0.0.1'', example_att ''p2'' ''10.0.0.2'', example_att ''p3'' ''10.0.0.1'']"
  have t: "AddressType_of (example_att ''p1'' ''10.0.0.1'') = AddressTypeIPv4" "AddressType_of (example_att ''p2'' ''10.0.0.2'') = AddressTypeIPv4"
    "AddressType_of (example_att ''p3'' ''10.0.0.1'') = AddressTypeIPv4" by code_simp+
  have ip: "att_IP (example_att pod ip) = ip" for pod ip by (simp add: example_att_def)
  note c = contested_addresses_withheld [OF refl, where atts = ?l and svc = example_svc and nad = "''ns/net''" and scope = ScopeEndpoint and v = example_view and t = AddressTypeIPv4, unfolded Let_def example_shown(4)]
  from conjunct1 [OF c] obtain sl where sl: "gm_get (d_slices (desired_over example_svc ''ns/net'' ScopeEndpoint (byFamily ?l) example_view))
      ''web-secondary-ipv4'' = Some sl"
    by (auto simp: t)
  have free: "map att_IP (filter (\<lambda>a. AddressType_of a = AddressTypeIPv4 \<and>
      length (filter (\<lambda>b. AddressType_of b = AddressTypeIPv4 \<and> att_IP b = att_IP a) ?l) = 1) ?l) = [''10.0.0.2'']"
    by (simp add: t ip)
  from conjunct2 [OF c, rule_format, OF sl, THEN conjunct1, unfolded free] sl show ?thesis by auto
qed

end
