(* ===== verification/Slice_Apply.thy ===== *)
theory Slice_Apply
  imports Endpoint_Slice
begin

text \<open>
  \<^verbatim>\<open>internal/controller/endpointslice.go\<close>, second half: the comparison on managed fields and
  the calls that bring the cluster to the desired slices. The API client is outside the
  repository: a record of its four calls over an abstract world is an argument. \<open>writes_ok\<close> states
  the documented behaviour of the server for one writer: a successful write is what the cluster then
  holds. Reads go through the manager's cache, so that a list may lag behind: \<open>list_current\<close> says it does
  not, and only the theorems that name it (or \<open>api_ok\<close>, both together) rest on that.
\<close>

section \<open>Comparison\<close>

record epKey =
  ek_addr :: string
  ek_ready :: bool
  ek_serving :: bool
  ek_terminating :: bool
  ek_hostname :: string
  ek_nodeName :: string
  ek_targetUID :: string
  ek_targetName :: string

record portKey =
  pk_name :: string
  pk_proto :: string
  pk_port :: int

text \<open>\<^verbatim>\<open>ptr.Deref\<close>.\<close>

definition deref :: "'a option \<Rightarrow> 'a \<Rightarrow> 'a" where
  "deref p d = (case p of None \<Rightarrow> d | Some x \<Rightarrow> x)"

definition ep_key :: "Endpoint \<Rightarrow> epKey" where
  "ep_key e = \<lparr>ek_addr = (if ep_Addresses e \<noteq> [] then hd (ep_Addresses e) else []),
     ek_ready = deref (ec_Ready (ep_Conditions e)) False,
     ek_serving = deref (ec_Serving (ep_Conditions e)) False,
     ek_terminating = deref (ec_Terminating (ep_Conditions e)) False,
     ek_hostname = deref (ep_Hostname e) [],
     ek_nodeName = deref (ep_NodeName e) [],
     ek_targetUID = (case ep_TargetRef e of None \<Rightarrow> [] | Some t \<Rightarrow> tr_UID t),
     ek_targetName = (case ep_TargetRef e of None \<Rightarrow> [] | Some t \<Rightarrow> tr_Name t)\<rparr>"

definition projectEndpoints :: "EndpointSlice \<Rightarrow> epKey list" where
  "projectEndpoints s = sort_key ek_addr (map ep_key (es_Endpoints s))"

definition projectPorts :: "EndpointSlice \<Rightarrow> portKey list" where
  "projectPorts s = sort_key (\<lambda>p. (pk_name p, pk_port p))
     (map (\<lambda>p. \<lparr>pk_name = deref (epp_Name p) [], pk_proto = deref (epp_Protocol p) ''TCP'',
                pk_port = deref (epp_Port p) 0\<rparr>) (es_Ports s))"

fun equal_from :: "nat \<Rightarrow> 'a list \<Rightarrow> 'a list \<Rightarrow> bool" where
  "equal_from 0 xs ys = True"
| "equal_from (Suc n) xs ys = (if hd xs \<noteq> hd ys then False else equal_from n (tl xs) (tl ys))"

definition equalSlices :: "'a list \<Rightarrow> 'a list \<Rightarrow> bool" where
  "equalSlices a b = (if length a \<noteq> length b then False else equal_from (length a) a b)"

definition sliceUpToDate :: "EndpointSlice \<Rightarrow> EndpointSlice \<Rightarrow> bool" where
  "sliceUpToDate old want =
     (if es_AddressType old \<noteq> es_AddressType want then False
      else if gm_str (es_Labels old) LabelServiceName \<noteq> gm_str (es_Labels want) LabelServiceName \<or>
              gm_str (es_Labels old) LabelManagedBy \<noteq> gm_str (es_Labels want) LabelManagedBy \<or>
              gm_str (es_Annotations old) sliceNetworkAnnotation \<noteq> gm_str (es_Annotations want) sliceNetworkAnnotation
           then False
      else if \<not> equalSlices (projectPorts old) (projectPorts want) then False
      else equalSlices (projectEndpoints old) (projectEndpoints want))"

section \<open>The API and the writes\<close>

record 'w slice_api =
  api_List :: "'w \<Rightarrow> string \<Rightarrow> (string, string) gomap \<Rightarrow> go_error + EndpointSlice list"
  api_Create :: "'w \<Rightarrow> EndpointSlice \<Rightarrow> 'w \<times> go_error option"
  api_Update :: "'w \<Rightarrow> EndpointSlice \<Rightarrow> 'w \<times> go_error option"
  api_Delete :: "'w \<Rightarrow> EndpointSlice \<Rightarrow> 'w \<times> go_error option"

text \<open>The instants a write began and ended are not modelled.\<close>

record sliceOp =
  so_Name :: string
  so_Op :: string
  so_ReadyCount :: nat
  so_Total :: nat

definition owned_labels :: "Service \<Rightarrow> (string, string) gomap" where
  "owned_labels svc = [(LabelServiceName, svc_Name svc), (LabelManagedBy, ManagedBy)]"

definition ready_count :: "EndpointSlice \<Rightarrow> nat" where
  "ready_count s = length (filter (\<lambda>e. deref (ec_Ready (ep_Conditions e)) False) (es_Endpoints s))"

definition merged :: "EndpointSlice \<Rightarrow> EndpointSlice \<Rightarrow> EndpointSlice" where
  "merged cur w = cur\<lparr>es_AddressType := es_AddressType w, es_Ports := es_Ports w, es_Endpoints := es_Endpoints w,
     es_Labels := gm_put_all fst snd (es_Labels w) (es_Labels cur),
     es_Annotations := gm_put_all fst snd (es_Annotations w) (es_Annotations cur),
     es_OwnerReferences := es_OwnerReferences w\<rparr>"

text \<open>One iteration of the first loop: the new world, and the operation done or the error returned.\<close>

definition apply_one :: "'w slice_api \<Rightarrow> (string, EndpointSlice) gomap \<Rightarrow> string \<times> EndpointSlice \<Rightarrow> 'w \<Rightarrow> 'w \<times> (go_error + sliceOp)" where
  "apply_one api old nw wd = (case nw of (name, w) \<Rightarrow>
     let mk = (\<lambda>op. \<lparr>so_Name = name, so_Op = op, so_ReadyCount = ready_count w, so_Total = length (es_Endpoints w)\<rparr>) in
     case gm_get old name of
       None \<Rightarrow> (case api_Create api wd w of
           (wd', Some e) \<Rightarrow> if e \<noteq> ErrApiAlreadyExists then (wd', Inl e) else (wd', Inr (mk ''create''))
         | (wd', None) \<Rightarrow> (wd', Inr (mk ''create'')))
     | Some cur \<Rightarrow>
         if sliceUpToDate cur w then (wd, Inr (mk ''nochange''))
         else (case api_Update api wd (merged cur w) of
             (wd', Some e) \<Rightarrow> (wd', Inl e)
           | (wd', None) \<Rightarrow> (wd', Inr (mk ''update''))))"

definition delete_one :: "'w slice_api \<Rightarrow> string \<times> EndpointSlice \<Rightarrow> 'w \<Rightarrow> 'w \<times> (go_error + sliceOp)" where
  "delete_one api ns wd = (case ns of (name, s) \<Rightarrow>
     let op = \<lparr>so_Name = name, so_Op = ''delete'', so_ReadyCount = 0, so_Total = 0\<rparr> in
     case api_Delete api wd s of
       (wd', Some e) \<Rightarrow> if e \<noteq> ErrApiNotFound then (wd', Inl e) else (wd', Inr op)
     | (wd', None) \<Rightarrow> (wd', Inr op))"

text \<open>A loop of fallible steps that returns at the first error, with the operations done so far.\<close>

fun run_steps :: "('a \<Rightarrow> 'w \<Rightarrow> 'w \<times> (go_error + sliceOp)) \<Rightarrow> 'a list \<Rightarrow> sliceOp list \<Rightarrow> 'w \<Rightarrow> 'w \<times> sliceOp list \<times> go_error option" where
  "run_steps f [] ops wd = (wd, ops, None)"
| "run_steps f (x # xs) ops wd = (case f x wd of
     (wd', Inl e) \<Rightarrow> (wd', ops, Some e)
   | (wd', Inr op) \<Rightarrow> run_steps f xs (ops @ [op]) wd')"

definition applySlices :: "'w slice_api \<Rightarrow> Service \<Rightarrow> (string, EndpointSlice) gomap \<Rightarrow> 'w \<Rightarrow> 'w \<times> sliceOp list \<times> go_error option" where
  "applySlices api svc want wd = (case api_List api wd (svc_Namespace svc) (owned_labels svc) of
      Inl e \<Rightarrow> (wd, [], Some e)
    | Inr items \<Rightarrow>
        let old = gm_put_all es_Name id items [] in
        (case run_steps (apply_one api old) (sort_key fst want) [] wd of
           (wd1, ops, Some e) \<Rightarrow> (wd1, ops, Some e)
         | (wd1, ops, None) \<Rightarrow>
             run_steps (delete_one api)
               (sort_key fst (filter (\<lambda>(name, _). gm_get want name = None) old)) ops wd1))"

section \<open>The server's contract\<close>

definition has_labels :: "(string, string) gomap \<Rightarrow> EndpointSlice \<Rightarrow> bool" where
  "has_labels labels s \<longleftrightarrow> (\<forall>(k, v) \<in> set labels. gm_get (es_Labels s) k = Some v)"

abbreviation es_key :: "EndpointSlice \<Rightarrow> nsname" where
  "es_key s \<equiv> (es_Namespace s, es_Name s)"

definition writes_ok :: "'w slice_api \<Rightarrow> ('w \<Rightarrow> nsname \<Rightarrow> EndpointSlice option) \<Rightarrow> bool" where
  "writes_ok api view \<longleftrightarrow>
     (\<forall>wd k s. view wd k = Some s \<longrightarrow> es_key s = k) \<and>
     (\<forall>wd s wd'. api_Create api wd s = (wd', None) \<longrightarrow> view wd (es_key s) = None \<and> view wd' = (view wd)(es_key s \<mapsto> s)) \<and>
     (\<forall>wd s wd'. api_Create api wd s = (wd', Some ErrApiAlreadyExists) \<longrightarrow> view wd (es_key s) \<noteq> None \<and> view wd' = view wd) \<and>
     (\<forall>wd s wd'. api_Update api wd s = (wd', None) \<longrightarrow> view wd' = (view wd)(es_key s \<mapsto> s)) \<and>
     (\<forall>wd s wd'. api_Delete api wd s = (wd', None) \<or> api_Delete api wd s = (wd', Some ErrApiNotFound) \<longrightarrow>
        view wd' = (view wd)(es_key s := None))"

text \<open>The cache is up to date: a list is what matches in the cluster now.\<close>

definition list_current :: "'w slice_api \<Rightarrow> ('w \<Rightarrow> nsname \<Rightarrow> EndpointSlice option) \<Rightarrow> bool" where
  "list_current api view \<longleftrightarrow> (\<forall>wd ns ls items. api_List api wd ns ls = Inr items \<longrightarrow>
     distinct (map es_Name items) \<and>
     (\<forall>s. s \<in> set items \<longleftrightarrow> (\<exists>n. view wd (ns, n) = Some s) \<and> has_labels ls s))"

definition api_ok :: "'w slice_api \<Rightarrow> ('w \<Rightarrow> nsname \<Rightarrow> EndpointSlice option) \<Rightarrow> bool" where
  "api_ok api view \<longleftrightarrow> writes_ok api view \<and> list_current api view"

section \<open>Lemmas on the comparison\<close>

lemma equal_from_iff: "length xs = n \<Longrightarrow> length ys = n \<Longrightarrow> equal_from n xs ys \<longleftrightarrow> xs = ys"
proof (induction n arbitrary: xs ys)
  case (Suc n)
  then show ?case by (cases xs; cases ys) auto
qed simp

lemma equalSlices_iff [simp]: "equalSlices a b \<longleftrightarrow> a = b"
  by (auto simp: equalSlices_def equal_from_iff)

lemma sliceUpToDate_iff:
  "sliceUpToDate h w \<longleftrightarrow> es_AddressType h = es_AddressType w \<and>
     gm_str (es_Labels h) LabelServiceName = gm_str (es_Labels w) LabelServiceName \<and>
     gm_str (es_Labels h) LabelManagedBy = gm_str (es_Labels w) LabelManagedBy \<and>
     gm_str (es_Annotations h) sliceNetworkAnnotation = gm_str (es_Annotations w) sliceNetworkAnnotation \<and>
     projectPorts h = projectPorts w \<and> projectEndpoints h = projectEndpoints w"
  by (auto simp: sliceUpToDate_def)

lemma sliceUpToDate_refl [simp]: "sliceUpToDate s s"
  by (simp add: sliceUpToDate_iff)

lemma sliceUpToDate_sym: "sliceUpToDate s t \<Longrightarrow> sliceUpToDate t s"
  by (simp add: sliceUpToDate_iff)

lemma gm_str_put_all:
  assumes "gm_get m k = Some v" and "gm_wf m"
  shows "gm_str (gm_put_all fst snd m m') k = v"
proof -
  have "\<exists>x \<in> set m. fst x = k" using gm_get_Some_mem [OF assms(1)] by force
  then have "find (\<lambda>x. fst x = k) (rev m) \<noteq> None" by (auto simp: find_None_iff)
  then obtain x where f: "find (\<lambda>x. fst x = k) (rev m) = Some x" by auto
  from find_rev_mem [OF f] have "x \<in> set m" "fst x = k" by auto
  then have "(k, snd x) \<in> set m" by (metis prod.collapse)
  then have "snd x = v" using gm_mem_get [OF assms(2)] assms(1) by fastforce
  then show ?thesis by (simp add: gm_str_def gm_get_put_all f)
qed

text \<open>What an update writes is up to date, whatever else the object carried.\<close>

definition carries :: "EndpointSlice \<Rightarrow> bool" where
  "carries w \<longleftrightarrow> gm_wf (es_Labels w) \<and> gm_wf (es_Annotations w) \<and>
     gm_get (es_Labels w) LabelServiceName \<noteq> None \<and> gm_get (es_Labels w) LabelManagedBy \<noteq> None \<and>
     gm_get (es_Annotations w) sliceNetworkAnnotation \<noteq> None"

lemma merged_UpToDate:
  assumes "carries w" shows "sliceUpToDate (merged cur w) w"
proof -
  have l: "gm_str (gm_put_all fst snd (es_Labels w) m) k = gm_str (es_Labels w) k"
    if "gm_get (es_Labels w) k \<noteq> None" for k m
    using that assms gm_str_put_all [of "es_Labels w" k] by (auto simp: carries_def gm_str_def)
  have a: "gm_str (gm_put_all fst snd (es_Annotations w) m) k = gm_str (es_Annotations w) k"
    if "gm_get (es_Annotations w) k \<noteq> None" for k m
    using that assms gm_str_put_all [of "es_Annotations w" k] by (auto simp: carries_def gm_str_def)
  show ?thesis
    using assms by (simp add: sliceUpToDate_iff merged_def l a carries_def projectPorts_def projectEndpoints_def)
qed

lemma merged_key [simp]: "es_Name (merged cur w) = es_Name cur" "es_Namespace (merged cur w) = es_Namespace cur"
  by (simp_all add: merged_def)


section \<open>Convergence\<close>

lemma writes_okD:
  assumes "writes_ok api view"
  shows "view wd k = Some s \<Longrightarrow> es_key s = k"
    and "api_Create api wd s = (wd', None) \<Longrightarrow> view wd (es_key s) = None \<and> view wd' = (view wd)(es_key s \<mapsto> s)"
    and "api_Create api wd s = (wd', Some ErrApiAlreadyExists) \<Longrightarrow> view wd (es_key s) \<noteq> None \<and> view wd' = view wd"
    and "api_Update api wd s = (wd', None) \<Longrightarrow> view wd' = (view wd)(es_key s \<mapsto> s)"
    and "api_Delete api wd s = (wd', None) \<or> api_Delete api wd s = (wd', Some ErrApiNotFound) \<Longrightarrow>
      view wd' = (view wd)(es_key s := None)"
proof -
  note ok = assms [unfolded writes_ok_def]
  note ok1 = conjunct1 [OF ok] and r1 = conjunct2 [OF ok]
  note ok2 = conjunct1 [OF r1] and r2 = conjunct2 [OF r1]
  note ok3 = conjunct1 [OF r2] and r3 = conjunct2 [OF r2]
  note ok4 = conjunct1 [OF r3] and ok5 = conjunct2 [OF r3]
  show "view wd k = Some s \<Longrightarrow> es_key s = k" using ok1 by blast
  show "api_Create api wd s = (wd', None) \<Longrightarrow> view wd (es_key s) = None \<and> view wd' = (view wd)(es_key s \<mapsto> s)"
    using ok2 by blast
  show "api_Create api wd s = (wd', Some ErrApiAlreadyExists) \<Longrightarrow> view wd (es_key s) \<noteq> None \<and> view wd' = view wd"
    using ok3 by blast
  show "api_Update api wd s = (wd', None) \<Longrightarrow> view wd' = (view wd)(es_key s \<mapsto> s)"
    using ok4 by blast
  show "api_Delete api wd s = (wd', None) \<or> api_Delete api wd s = (wd', Some ErrApiNotFound) \<Longrightarrow>
      view wd' = (view wd)(es_key s := None)"
    using ok5 by blast
qed

lemma api_okD:
  assumes "api_ok api view"
  shows "writes_ok api view"
    and "view wd k = Some s \<Longrightarrow> es_key s = k"
    and "api_List api wd ns ls = Inr items \<Longrightarrow> distinct (map es_Name items)"
    and "api_List api wd ns ls = Inr items \<Longrightarrow>
      s \<in> set items \<longleftrightarrow> (\<exists>n. view wd (ns, n) = Some s) \<and> has_labels ls s"
proof -
  show w: "writes_ok api view" using assms by (simp add: api_ok_def)
  show "view wd k = Some s \<Longrightarrow> es_key s = k" by (rule writes_okD(1) [OF w])
  have l: "list_current api view" using assms by (simp add: api_ok_def)
  show "api_List api wd ns ls = Inr items \<Longrightarrow> distinct (map es_Name items)"
    "api_List api wd ns ls = Inr items \<Longrightarrow> s \<in> set items \<longleftrightarrow> (\<exists>n. view wd (ns, n) = Some s) \<and> has_labels ls s"
    using l unfolding list_current_def by blast+
qed

text \<open>
  Where a wanted slice may end: agreeing with the wish, or as it was, if what the list said of it was
  not what was there.
\<close>

definition settled :: "EndpointSlice option \<Rightarrow> EndpointSlice option \<Rightarrow> EndpointSlice \<Rightarrow> EndpointSlice option \<Rightarrow> bool" where
  "settled cached before w after \<longleftrightarrow> (\<exists>s. after = Some s \<and> sliceUpToDate s w) \<or> after = before \<and> cached \<noteq> before"

lemma settledI: "sliceUpToDate s w \<Longrightarrow> settled cached before w (Some s)"
  by (simp add: settled_def)

lemma apply_one_view:
  assumes api: "writes_ok api view" and step: "apply_one api old (n, w) wd = (wd', Inr op)"
    and w: "es_key w = (ns, n)" "carries w"
    and old: "\<And>cur. gm_get old n = Some cur \<Longrightarrow> es_key cur = (ns, n)"
  shows "\<exists>s. view wd' = (view wd)((ns, n) := s) \<and> settled (gm_get old n) (view wd (ns, n)) w s"
proof (cases "gm_get old n")
  case None
  from step None consider "api_Create api wd w = (wd', None)" | "api_Create api wd w = (wd', Some ErrApiAlreadyExists)"
    by (auto simp: apply_one_def split: prod.splits option.splits if_splits)
  then show ?thesis
  proof cases
    case 1
    then show ?thesis using writes_okD(2) [OF api 1] w settledI [OF sliceUpToDate_refl] by metis
  next
    case 2
    from writes_okD(3) [OF api 2] w None have "view wd (ns, n) \<noteq> gm_get old n" "view wd' = view wd" by simp_all
    then show ?thesis by (intro exI [of _ "view wd (ns, n)"]) (auto simp: settled_def)
  qed
next
  case (Some cur)
  show ?thesis
  proof (cases "sliceUpToDate cur w")
    case True
    then have "wd' = wd" using step Some by (simp add: apply_one_def Let_def)
    then show ?thesis using True Some by (intro exI [of _ "view wd (ns, n)"]) (auto simp: settled_def)
  next
    case False
    with step Some have u: "api_Update api wd (merged cur w) = (wd', None)"
      by (auto simp: apply_one_def split: prod.splits option.splits if_splits)
    have "es_key (merged cur w) = (ns, n)" using old [OF Some] by simp
    then show ?thesis
      using writes_okD(4) [OF api u] settledI [OF merged_UpToDate [OF w(2)]] by metis
  qed
qed

lemma apply_loop_view:
  assumes api: "writes_ok api view" and old: "\<And>n cur. gm_get old n = Some cur \<Longrightarrow> es_key cur = (ns, n)"
  shows "run_steps (apply_one api old) xs ops wd = (wd', ops', None) \<Longrightarrow>
    distinct (map fst xs) \<Longrightarrow> \<forall>(n, w) \<in> set xs. es_key w = (ns, n) \<and> carries w \<Longrightarrow>
    (\<forall>(n, w) \<in> set xs. settled (gm_get old n) (view wd (ns, n)) w (view wd' (ns, n))) \<and>
    (\<forall>k. fst k \<noteq> ns \<or> snd k \<notin> fst ` set xs \<longrightarrow> view wd' k = view wd k)"
proof (induction xs arbitrary: ops wd)
  case Nil
  then show ?case by simp
next
  case (Cons x xs)
  obtain n w where x: "x = (n, w)" by fastforce
  from Cons.prems(1) x obtain wd1 op where step: "apply_one api old (n, w) wd = (wd1, Inr op)"
    and rest: "run_steps (apply_one api old) xs (ops @ [op]) wd1 = (wd', ops', None)"
    by (auto split: prod.splits sum.splits)
  from Cons.prems x have w: "es_key w = (ns, n)" "carries w" by auto
  obtain s where s: "view wd1 = (view wd)((ns, n) := s)" "settled (gm_get old n) (view wd (ns, n)) w s"
    using apply_one_view [OF api step w old] by blast
  have new: "n \<notin> fst ` set xs" using Cons.prems(2) x by auto
  from Cons.IH [OF rest] Cons.prems x
  have IH: "\<forall>(n, w) \<in> set xs. settled (gm_get old n) (view wd1 (ns, n)) w (view wd' (ns, n))"
    "\<forall>k. fst k \<noteq> ns \<or> snd k \<notin> fst ` set xs \<longrightarrow> view wd' k = view wd1 k"
    by auto
  have "view wd' (ns, n) = s" using IH(2) new s(1) by simp
  moreover have "view wd' k = view wd k" if "fst k \<noteq> ns \<or> snd k \<notin> fst ` set (x # xs)" for k
    using that IH(2) s(1) x by (cases k) auto
  moreover have "settled (gm_get old m) (view wd (ns, m)) v (view wd' (ns, m))" if "(m, v) \<in> set xs" for m v
  proof -
    have "m \<noteq> n" using new that by force
    then have "view wd1 (ns, m) = view wd (ns, m)" using s(1) by simp
    then show ?thesis using IH(1) that by fastforce
  qed
  ultimately show ?case using s(2) x by auto
qed

lemma delete_loop_view:
  assumes api: "writes_ok api view"
  shows "run_steps (delete_one api) xs ops wd = (wd', ops', None) \<Longrightarrow>
    view wd' = (\<lambda>k. if k \<in> es_key ` snd ` set xs then None else view wd k)"
proof (induction xs arbitrary: ops wd)
  case Nil
  then show ?case by simp
next
  case (Cons x xs)
  obtain n s where x: "x = (n, s)" by fastforce
  from Cons.prems x obtain wd1 op where step: "delete_one api (n, s) wd = (wd1, Inr op)"
    and rest: "run_steps (delete_one api) xs (ops @ [op]) wd1 = (wd', ops', None)"
    by (auto split: prod.splits sum.splits)
  from step have "api_Delete api wd s = (wd1, None) \<or> api_Delete api wd s = (wd1, Some ErrApiNotFound)"
    by (auto simp: delete_one_def Let_def split: prod.splits option.splits if_splits)
  then have "view wd1 = (view wd)(es_key s := None)" by (rule writes_okD(5) [OF api])
  then show ?case unfolding Cons.IH [OF rest] by (auto simp: x)
qed

text \<open>The slices the controller may touch: those it owns, and free names.\<close>

definition no_foreign :: "('w \<Rightarrow> nsname \<Rightarrow> EndpointSlice option) \<Rightarrow> Service \<Rightarrow> (string, EndpointSlice) gomap \<Rightarrow> 'w \<Rightarrow> bool" where
  "no_foreign view svc want wd \<longleftrightarrow> (\<forall>(n, _) \<in> set want. \<forall>s. view wd (svc_Namespace svc, n) = Some s \<longrightarrow>
     has_labels (owned_labels svc) s)"

definition well_named :: "Service \<Rightarrow> (string, EndpointSlice) gomap \<Rightarrow> bool" where
  "well_named svc want \<longleftrightarrow> gm_wf want \<and>
     (\<forall>(n, w) \<in> set want. es_key w = (svc_Namespace svc, n) \<and> carries w)"

lemma listed:
  assumes api: "api_ok api view" and l: "api_List api wd (svc_Namespace svc) (owned_labels svc) = Inr items"
  shows "gm_wf (gm_put_all es_Name id items [])"
    and "gm_get (gm_put_all es_Name id items []) n = (case view wd (svc_Namespace svc, n) of
      None \<Rightarrow> None | Some s \<Rightarrow> if has_labels (owned_labels svc) s then Some s else None)"
proof -
  let ?ns = "svc_Namespace svc" and ?m = "gm_put_all es_Name id items []"
  show "gm_wf ?m" by simp
  note mem = api_okD(4) [OF api l]
  have name: "es_Name s = n" "es_Namespace s = ?ns" if "view wd (?ns, n) = Some s" for s n
    using api_okD(2) [OF api that] by simp_all
  show "gm_get ?m n = (case view wd (?ns, n) of
      None \<Rightarrow> None | Some s \<Rightarrow> if has_labels (owned_labels svc) s then Some s else None)"
  proof (cases "find (\<lambda>x. es_Name x = n) (rev items)")
    case None
    then have "s \<notin> set items" if "es_Name s = n" for s using that by (auto simp: find_None_iff)
    then have "\<not> has_labels (owned_labels svc) s" if "view wd (?ns, n) = Some s" for s
      using mem name that by blast
    with None show ?thesis by (auto simp: gm_get_put_all split: option.split)
  next
    case (Some x)
    with find_rev_mem have x: "x \<in> set items" "es_Name x = n" by fastforce+
    with mem obtain n' where "view wd (?ns, n') = Some x" "has_labels (owned_labels svc) x" by blast
    with Some x name show ?thesis by (auto simp: gm_get_put_all)
  qed
qed

lemma find_append: "find P (xs @ ys) = (case find P xs of None \<Rightarrow> find P ys | Some z \<Rightarrow> Some z)"
  by (induction xs) auto

lemma find_rev_distinct: "distinct (map f xs) \<Longrightarrow> find (\<lambda>x. f x = k) (rev xs) = find (\<lambda>x. f x = k) xs"
proof (induction xs)
  case (Cons x xs)
  have "find (\<lambda>y. f y = f x) xs = None" using Cons.prems by (auto simp: find_None_iff) (metis imageI)
  then show ?case using Cons by (auto simp: find_append split: option.split)
qed simp

text \<open>A pass that succeeds, whatever the list said, as long as it names each slice once and of this namespace.\<close>

lemma applySlices_cached:
  assumes api: "writes_ok api view" and run: "applySlices api svc want wd = (wd', ops, None)" and want: "well_named svc want"
    and l: "api_List api wd (svc_Namespace svc) (owned_labels svc) = Inr items"
    and items: "distinct (map es_Name items)" "\<forall>s \<in> set items. es_Namespace s = svc_Namespace svc"
  shows "fst k \<noteq> svc_Namespace svc \<Longrightarrow> view wd' k = view wd k"
    and "gm_get want n = Some w \<Longrightarrow>
      settled (find (\<lambda>s. es_Name s = n) items) (view wd (svc_Namespace svc, n)) w (view wd' (svc_Namespace svc, n))"
    and "gm_get want n = None \<Longrightarrow> view wd' (svc_Namespace svc, n) =
      (if find (\<lambda>s. es_Name s = n) items = None then view wd (svc_Namespace svc, n) else None)"
proof -
  let ?ns = "svc_Namespace svc"
  define old where "old = gm_put_all es_Name id items []"
  define gone where "gone = sort_key fst (filter (\<lambda>(name, _). gm_get want name = None) old)"
  from run l obtain wd1 ops1 where r1: "run_steps (apply_one api old) (sort_key fst want) [] wd = (wd1, ops1, None)"
    and r2: "run_steps (delete_one api) gone ops1 wd1 = (wd', ops, None)"
    by (auto simp: applySlices_def Let_def old_def gone_def split: prod.splits option.splits)
  have wf: "gm_wf old" by (simp add: old_def)
  have old: "gm_get old n = find (\<lambda>s. es_Name s = n) items" for n
    by (simp add: old_def gm_get_put_all find_rev_distinct [OF items(1)] split: option.split)
  have key: "es_key cur = (?ns, n)" if "gm_get old n = Some cur" for n cur
    using that items(2) by (auto simp: old find_Some_iff dest: nth_mem)
  have d: "distinct (map fst (sort_key fst want))"
    using want by (simp add: well_named_def gm_wf_def distinct_map)
  have w: "\<forall>(n, w) \<in> set (sort_key fst want). es_key w = (?ns, n) \<and> carries w"
    using want by (simp add: well_named_def)
  note L1 = apply_loop_view [OF api key r1 d w]
  note L2 = delete_loop_view [OF api r2]
  have gone: "k \<in> es_key ` snd ` set gone \<longleftrightarrow>
      fst k = ?ns \<and> gm_get want (snd k) = None \<and> gm_get old (snd k) \<noteq> None" for k
  proof -
    have mem: "s \<in> snd ` set gone \<longleftrightarrow> (\<exists>n. (n, s) \<in> set old \<and> gm_get want n = None)" for s
      by (auto simp: gone_def image_iff split_paired_Ex)
    show ?thesis
    proof
      assume "k \<in> es_key ` snd ` set gone"
      then obtain s n where "k = es_key s" "(n, s) \<in> set old" "gm_get want n = None" using mem by blast
      then show "fst k = ?ns \<and> gm_get want (snd k) = None \<and> gm_get old (snd k) \<noteq> None"
        using key gm_mem_get [OF wf] by fastforce
    next
      assume r: "fst k = ?ns \<and> gm_get want (snd k) = None \<and> gm_get old (snd k) \<noteq> None"
      then obtain s where s: "gm_get old (snd k) = Some s" by auto
      then have "k = es_key s" using key [OF s] r by (simp add: prod_eq_iff)
      moreover have "s \<in> snd ` set gone" using mem gm_get_Some_mem [OF s] r by blast
      ultimately show "k \<in> es_key ` snd ` set gone" by blast
    qed
  qed
  show "view wd' k = view wd k" if "fst k \<noteq> ?ns"
    using L1 gone [of k] that by (auto simp: L2)
  show "settled (find (\<lambda>s. es_Name s = n) items) (view wd (?ns, n)) w (view wd' (?ns, n))" if "gm_get want n = Some w"
  proof -
    have "(n, w) \<in> set (sort_key fst want)" using gm_get_Some_mem [OF that] by simp
    then show ?thesis using L1 gone [of "(?ns, n)"] that by (auto simp: L2 old)
  qed
  show "view wd' (?ns, n) = (if find (\<lambda>s. es_Name s = n) items = None then view wd (?ns, n) else None)"
    if "gm_get want n = None"
  proof -
    have "n \<notin> fst ` set (sort_key fst want)"
      using that by (auto simp: gm_get_def map_of_eq_None_iff)
    then have "view wd1 (?ns, n) = view wd (?ns, n)" using L1 by simp
    then show ?thesis using gone [of "(?ns, n)"] that by (auto simp: L2 old)
  qed
qed

text \<open>With a current list and no foreign slice under a wanted name, the cluster ends as wanted.\<close>

lemma applySlices_view:
  assumes api: "api_ok api view" and run: "applySlices api svc want wd = (wd', ops, None)"
    and want: "well_named svc want" and free: "no_foreign view svc want wd"
  shows "view wd' k = view wd k \<or> fst k = svc_Namespace svc"
    and "gm_get want n = Some w \<Longrightarrow> \<exists>s. view wd' (svc_Namespace svc, n) = Some s \<and> sliceUpToDate s w"
    and "gm_get want n = None \<Longrightarrow> view wd' (svc_Namespace svc, n) = (case view wd (svc_Namespace svc, n) of
      None \<Rightarrow> None | Some s \<Rightarrow> if has_labels (owned_labels svc) s then None else Some s)"
proof -
  let ?ns = "svc_Namespace svc"
  from run obtain items where l: "api_List api wd ?ns (owned_labels svc) = Inr items"
    by (auto simp: applySlices_def split: sum.splits)
  note d = api_okD(3) [OF api l]
  have ns: "\<forall>s \<in> set items. es_Namespace s = ?ns"
    using api_okD(4) [OF api l] api_okD(2) [OF api] by fastforce
  have cached: "find (\<lambda>s. es_Name s = n) items = (case view wd (?ns, n) of
      None \<Rightarrow> None | Some s \<Rightarrow> if has_labels (owned_labels svc) s then Some s else None)" for n
    using listed(2) [OF api l, of n] by (auto simp: gm_get_put_all find_rev_distinct [OF d] split: option.splits if_splits)
  note C = applySlices_cached [OF api_okD(1) [OF api] run want l d ns]
  show "view wd' k = view wd k \<or> fst k = ?ns" using C(1) by blast
  show "view wd' (?ns, n) = (case view wd (?ns, n) of
      None \<Rightarrow> None | Some s \<Rightarrow> if has_labels (owned_labels svc) s then None else Some s)" if "gm_get want n = None"
    using C(3) [OF that] by (auto simp: cached split: option.splits)
  show "\<exists>s. view wd' (?ns, n) = Some s \<and> sliceUpToDate s w" if "gm_get want n = Some w"
  proof -
    have "(n, w) \<in> set want" using gm_get_Some_mem [OF that] .
    then have "find (\<lambda>s. es_Name s = n) items = view wd (?ns, n)"
      using free by (auto simp: no_foreign_def cached split: option.split)
    with C(2) [OF that] show ?thesis by (simp add: settled_def)
  qed
qed

text \<open>In a converged world another pass writes nothing.\<close>

lemma run_steps_idle:
  assumes "\<And>x. x \<in> set xs \<Longrightarrow> f x wd = (wd, Inr (mk x))"
  shows "run_steps f xs ops wd = (wd, ops @ map mk xs, None)"
  using assms by (induction xs arbitrary: ops) auto

definition idle_op :: "string \<times> EndpointSlice \<Rightarrow> sliceOp" where
  "idle_op nw = \<lparr>so_Name = fst nw, so_Op = ''nochange'', so_ReadyCount = ready_count (snd nw),
     so_Total = length (es_Endpoints (snd nw))\<rparr>"

lemma applySlices_idle:
  assumes api: "api_ok api view"
    and l: "api_List api wd (svc_Namespace svc) (owned_labels svc) = Inr items"
    and up: "\<forall>(n, w) \<in> set want. \<exists>s. view wd (svc_Namespace svc, n) = Some s \<and>
      has_labels (owned_labels svc) s \<and> sliceUpToDate s w"
    and only: "\<And>n s. gm_get want n = None \<Longrightarrow> view wd (svc_Namespace svc, n) = Some s \<Longrightarrow>
      \<not> has_labels (owned_labels svc) s"
  shows "applySlices api svc want wd = (wd, map idle_op (sort_key fst want), None)"
proof -
  define old where "old = gm_put_all es_Name id items []"
  note old = listed [OF api l, folded old_def]
  have "apply_one api old x wd = (wd, Inr (idle_op x))" if "x \<in> set (sort_key fst want)" for x
  proof -
    obtain n w where x: "x = (n, w)" by fastforce
    with that up obtain s where "view wd (svc_Namespace svc, n) = Some s"
      "has_labels (owned_labels svc) s" "sliceUpToDate s w" by auto
    then show ?thesis by (simp add: x old apply_one_def Let_def idle_op_def)
  qed
  then have r1: "run_steps (apply_one api old) (sort_key fst want) [] wd = (wd, map idle_op (sort_key fst want), None)"
    using run_steps_idle [of "sort_key fst want" "apply_one api old" wd idle_op "[]"] by simp
  have "filter (\<lambda>(name, _). gm_get want name = None) old = []"
  proof (rule filter_False, rule ballI)
    fix x assume mem: "x \<in> set old"
    obtain n s where x: "x = (n, s)" by fastforce
    with mem have "gm_get old n = Some s" using gm_mem_get [OF old(1)] by blast
    then have "gm_get want n \<noteq> None" using only [of n s] by (auto simp: old split: option.splits if_splits)
    then show "\<not> (case x of (name, _) \<Rightarrow> gm_get want name = None)" by (simp add: x)
  qed
  then show ?thesis by (simp add: applySlices_def l old_def [symmetric] Let_def r1)
qed

lemma UpToDate_owned:
  assumes "sliceUpToDate s w" and "es_Labels w = owned_labels svc" and "svc_Name svc \<noteq> []"
  shows "has_labels (owned_labels svc) s"
proof -
  have d: "LabelServiceName \<noteq> LabelManagedBy" by (simp add: LabelServiceName_def LabelManagedBy_def)
  have m: "ManagedBy \<noteq> []" by (simp add: ManagedBy_def)
  have v: "gm_get mp k = Some v" if "gm_str mp k = v" "v \<noteq> []" for mp k v
    using that by (auto simp: gm_str_def split: option.splits)
  have "gm_str (es_Labels w) LabelServiceName = svc_Name svc" "gm_str (es_Labels w) LabelManagedBy = ManagedBy"
    using d by (simp_all add: assms(2) owned_labels_def gm_str_def gm_get_def)
  then have "gm_get (es_Labels s) LabelServiceName = Some (svc_Name svc)" "gm_get (es_Labels s) LabelManagedBy = Some ManagedBy"
    using assms(1,3) m by (auto simp: sliceUpToDate_iff intro: v)
  then show ?thesis by (simp add: has_labels_def owned_labels_def)
qed

section \<open>The desired slices are well named\<close>

lemma new_slice_carries: "carries (new_slice svc nad t eps)"
  by (simp add: carries_def new_slice_def gm_wf_def gm_get_def LabelServiceName_def LabelManagedBy_def)

lemma new_slice_labels [simp]: "es_Labels (new_slice svc nad t eps) = owned_labels svc"
  by (simp add: new_slice_def owned_labels_def)

lemma desired_mem:
  assumes "(n, w) \<in> set (d_slices (desired_over svc nad scope fams v))" and "mset fams = mset (byFamily atts)"
  obtains t eps where "n = sliceName (svc_Name svc) t" and "w = new_slice svc nad t eps"
proof -
  have "gm_get (d_slices (desired_over svc nad scope fams v)) n = Some w"
    using assms(1) by (simp add: gm_mem_get)
  from desired_over_only [OF assms(2) this] show thesis using that by blast
qed

lemma desired_well_named:
  assumes "mset fams = mset (byFamily atts)"
  shows "well_named svc (d_slices (desired_over svc nad scope fams v))"
  unfolding well_named_def
proof (rule conjI)
  show "gm_wf (d_slices (desired_over svc nad scope fams v))" by simp
  show "\<forall>(n, w) \<in> set (d_slices (desired_over svc nad scope fams v)). es_key w = (svc_Namespace svc, n) \<and> carries w"
  proof clarify
    fix n w assume "(n, w) \<in> set (d_slices (desired_over svc nad scope fams v))"
    then obtain t eps where "n = sliceName (svc_Name svc) t" "w = new_slice svc nad t eps"
      using assms by (rule desired_mem)
    moreover have "es_key (new_slice svc nad t eps) = (svc_Namespace svc, sliceName (svc_Name svc) t)"
      by (simp add: new_slice_def)
    ultimately show "es_key w = (svc_Namespace svc, n) \<and> carries w"
      by (simp only: new_slice_carries simp_thms)
  qed
qed

section \<open>Properties\<close>

text \<open>
  C27. What a pass that ends without error has done. The pass works from a list that the manager's cache
  gave it, which may lag behind the cluster and does not show slices of other owners. A wanted slice then
  exists and agrees with what was wanted on every managed field, unless the list was wrong about its name
  and the slice is as it was: always when the list showed what is there. A slice that is not wanted is gone
  iff it was listed, and nothing outside the Service's namespace is touched. (For a list that is current
  and no foreign slice under a wanted name: \<open>applySlices_view\<close>; what a foreign one does:
  \<open>foreign_slice_is_swallowed\<close>.)
\<close>

theorem pass_converges:
  assumes "writes_ok api view" and "applySlices api svc (d_slices (desired_over svc nad scope fams v)) wd = (wd', ops, None)"
    and "mset fams = mset (byFamily atts)"
    and "api_List api wd (svc_Namespace svc) (owned_labels svc) = Inr items"
    and "distinct (map es_Name items)" and "\<forall>s \<in> set items. es_Namespace s = svc_Namespace svc"
  shows "(let cached = find (\<lambda>s. es_Name s = n) items;
              before = view wd (svc_Namespace svc, n); after = view wd' (svc_Namespace svc, n) in
     case gm_get (d_slices (desired_over svc nad scope fams v)) n of
       Some w \<Rightarrow> (\<exists>s. after = Some s \<and> sliceUpToDate s w) \<or> after = before \<and> cached \<noteq> before
     | None \<Rightarrow> after = (if cached = None then before else None)) \<and>
    (ns \<noteq> svc_Namespace svc \<longrightarrow> view wd' (ns, n) = view wd (ns, n))"
proof -
  note C = applySlices_cached [OF assms(1,2) desired_well_named [OF assms(3)] assms(4-6)]
  show ?thesis
    using C(1) [of "(ns, n)"] C(2,3) [of n] by (auto simp: settled_def Let_def split: option.split)
qed

text \<open>
  Reconciling is idempotent: a second pass over the same wish, in the world a successful pass
  left, calls nothing and reports no change for every slice.
\<close>

theorem second_pass_is_idle:
  assumes "api_ok api view" and "svc_Name svc \<noteq> []" and "mset fams = mset (byFamily atts)"
    and "applySlices api svc (d_slices (desired_over svc nad scope fams v)) wd = (wd', ops, None)"
    and "no_foreign view svc (d_slices (desired_over svc nad scope fams v)) wd"
    and "api_List api wd' (svc_Namespace svc) (owned_labels svc) = Inr items"
  shows "applySlices api svc (d_slices (desired_over svc nad scope fams v)) wd' =
    (wd', map idle_op (sort_key fst (d_slices (desired_over svc nad scope fams v))), None)"
proof (rule applySlices_idle [OF assms(1,6)])
  let ?want = "d_slices (desired_over svc nad scope fams v)"
  note V = applySlices_view [OF assms(1,4) desired_well_named [OF assms(3)] assms(5)]
  show "\<forall>(n, w) \<in> set ?want. \<exists>s. view wd' (svc_Namespace svc, n) = Some s \<and>
      has_labels (owned_labels svc) s \<and> sliceUpToDate s w"
  proof clarify
    fix n w assume m: "(n, w) \<in> set ?want"
    then have "gm_get ?want n = Some w" by (simp add: gm_mem_get)
    from V(2) [OF this] obtain s where s: "view wd' (svc_Namespace svc, n) = Some s" "sliceUpToDate s w" by blast
    obtain t eps where "w = new_slice svc nad t eps" using desired_mem [OF m assms(3)] by metis
    then have "has_labels (owned_labels svc) s" by (intro UpToDate_owned [OF s(2) _ assms(2)]) simp
    with s show "\<exists>s. view wd' (svc_Namespace svc, n) = Some s \<and> has_labels (owned_labels svc) s \<and> sliceUpToDate s w" by blast
  qed
  show "\<not> has_labels (owned_labels svc) s" if "gm_get ?want n = None" "view wd' (svc_Namespace svc, n) = Some s" for n s
    using V(3) [OF that(1)] that(2) by (auto split: option.splits if_splits)
qed


text \<open>A small server: a list of slices, refusing to list a corrupt one.\<close>

definition list_api :: "EndpointSlice list slice_api" where
  "list_api = \<lparr>api_List = (\<lambda>w ns ls. if distinct (map (\<lambda>s. es_key s) w)
        then Inr (filter (\<lambda>s. es_Namespace s = ns \<and> has_labels ls s) w) else Inl (ErrApi ''corrupt'')),
     api_Create = (\<lambda>w s. if find (\<lambda>t. es_key t = es_key s) w \<noteq> None then (w, Some ErrApiAlreadyExists) else (s # w, None)),
     api_Update = (\<lambda>w s. (s # filter (\<lambda>t. es_key t \<noteq> es_key s) w, None)),
     api_Delete = (\<lambda>w s. (filter (\<lambda>t. es_key t \<noteq> es_key s) w, None))\<rparr>"

definition list_view :: "EndpointSlice list \<Rightarrow> nsname \<Rightarrow> EndpointSlice option" where
  "list_view w k = find (\<lambda>t. es_key t = k) w"

lemma list_view_filter: "list_view (filter (\<lambda>t. es_key t \<noteq> k) w) = (list_view w)(k := None)"
  unfolding list_view_def by (rule ext, induction w) auto

lemma list_view_Cons: "list_view (s # w) = (list_view w)(es_key s \<mapsto> s)"
  unfolding list_view_def by (rule ext) auto

lemma list_view_Some: "distinct (map (\<lambda>s. es_key s) w) \<Longrightarrow> list_view w k = Some s \<longleftrightarrow> s \<in> set w \<and> es_key s = k"
  unfolding list_view_def by (induction w) auto

lemma distinct_names:
  "distinct (map (\<lambda>s. es_key s) w) \<Longrightarrow> distinct (map es_Name (filter (\<lambda>s. es_Namespace s = ns \<and> P s) w))"
  by (induction w) (auto simp: image_iff)

lemma list_api_ok: "api_ok list_api list_view"
proof -
  have key: "list_view w k = Some s \<Longrightarrow> es_key s = k" for w k s
    unfolding list_view_def by (induction w) (auto split: if_splits)
  have lst: "distinct (map es_Name items) \<and> (\<forall>s. s \<in> set items \<longleftrightarrow> (\<exists>n. list_view w (ns, n) = Some s) \<and> has_labels ls s)"
    if "api_List list_api w ns ls = Inr items" for w ns ls items
  proof -
    from that have d: "distinct (map (\<lambda>s. es_key s) w)" and i: "items = filter (\<lambda>s. es_Namespace s = ns \<and> has_labels ls s) w"
      by (auto simp: list_api_def split: if_splits)
    show ?thesis unfolding i list_view_Some [OF d] using distinct_names [OF d] by auto
  qed
  show ?thesis unfolding api_ok_def writes_ok_def list_current_def
  proof (intro conjI allI impI)
    fix w w' :: "EndpointSlice list" and s
    show "list_view w' = (list_view w)(es_key s := None)"
      if "api_Delete list_api w s = (w', None) \<or> api_Delete list_api w s = (w', Some ErrApiNotFound)"
    proof -
      have "w' = filter (\<lambda>t. es_key t \<noteq> es_key s) w" using that by (auto simp: list_api_def)
      then show ?thesis by (simp only: list_view_filter)
    qed
    show "list_view w' = (list_view w)(es_key s \<mapsto> s)" if "api_Update list_api w s = (w', None)"
    proof -
      have "w' = s # filter (\<lambda>t. es_key t \<noteq> es_key s) w" using that by (auto simp: list_api_def)
      then show ?thesis by (simp only: list_view_filter list_view_Cons fun_upd_upd)
    qed
    show "list_view w (es_key s) = None" "list_view w' = (list_view w)(es_key s \<mapsto> s)" if "api_Create list_api w s = (w', None)"
      using that by (auto simp: list_api_def list_view_Cons list_view_def split: if_splits)
    show "list_view w (es_key s) \<noteq> None" "list_view w' = list_view w" if "api_Create list_api w s = (w', Some ErrApiAlreadyExists)"
      using that by (auto simp: list_api_def list_view_def split: if_splits)
  qed (use key lst in blast)+
qed

definition example_slice :: "store_view \<Rightarrow> EndpointSlice" where
  "example_slice v = new_slice example_svc ''ns/net'' AddressTypeIPv4 (endpoints_at ScopeEndpoint v 0 [example_att ''p1'' ''10.0.0.1''])"

lemma example_desired:
  "d_slices (desired_over example_svc ''ns/net'' ScopeEndpoint (byFamily [example_att ''p1'' ''10.0.0.1'']) v)
     = [(''web-secondary-ipv4'', example_slice v)]"
proof -
  have "byFamily [example_att ''p1'' ''10.0.0.1''] = [(AddressTypeIPv4, [example_att ''p1'' ''10.0.0.1''])]"
    by (simp add: byFamily_def example_shown gm_put_def)
  moreover have "family AddressTypeIPv4 [example_att ''p1'' ''10.0.0.1''] = [example_att ''p1'' ''10.0.0.1'']"
    by (simp add: family_def example_shown)
  ultimately show ?thesis
    using example_shown(2,4) by (simp add: desired_over_def desired_family_slices gm_put_def example_slice_def)
qed

lemma example_pass:
  "applySlices list_api example_svc [(''web-secondary-ipv4'', example_slice v)] [] = ([example_slice v],
     [\<lparr>so_Name = ''web-secondary-ipv4'', so_Op = ''create'', so_ReadyCount = ready_count (example_slice v),
       so_Total = length (es_Endpoints (example_slice v))\<rparr>], None)"
  by (simp add: applySlices_def list_api_def apply_one_def)

lemma pass_converges_witness:
  "\<exists>s. list_view [example_slice example_view] (''ns'', ''web-secondary-ipv4'') = Some s \<and> sliceUpToDate s (example_slice example_view)"
proof -
  have w: "writes_ok list_api list_view" using list_api_ok by (rule api_okD(1))
  have l: "api_List list_api [] (svc_Namespace example_svc) (owned_labels example_svc) = Inr []" by (simp add: list_api_def)
  have "applySlices list_api example_svc (d_slices (desired_over example_svc ''ns/net'' ScopeEndpoint
      (byFamily [example_att ''p1'' ''10.0.0.1'']) example_view)) [] = ([example_slice example_view],
     [\<lparr>so_Name = ''web-secondary-ipv4'', so_Op = ''create'', so_ReadyCount = ready_count (example_slice example_view),
       so_Total = length (es_Endpoints (example_slice example_view))\<rparr>], None)"
    unfolding example_desired example_pass ..
  from pass_converges [OF w this refl l, of "''web-secondary-ipv4''"] show ?thesis
    unfolding example_desired by (simp add: list_view_def gm_get_def example_svc_def)
qed

lemma second_pass_is_idle_witness:
  "applySlices list_api example_svc [(''web-secondary-ipv4'', example_slice example_view)] [example_slice example_view] =
     ([example_slice example_view], [idle_op (''web-secondary-ipv4'', example_slice example_view)], None)"
  using second_pass_is_idle [OF list_api_ok _ refl, of example_svc "''ns/net''" ScopeEndpoint "[example_att ''p1'' ''10.0.0.1'']" example_view
      "[]" "[example_slice example_view]"]
  unfolding example_desired example_pass
  by (simp add: no_foreign_def list_view_def example_svc_def list_api_def)

text \<open>
  A slice somebody else created under a wanted name is never repaired: the pass ends without error
  and reports a create, but the cluster is as it was.
\<close>

theorem foreign_slice_is_swallowed:
  assumes "api_ok api view" and "api_List api wd (svc_Namespace svc) (owned_labels svc) = Inr items"
    and "view wd (svc_Namespace svc, n) = Some f" and "\<not> has_labels (owned_labels svc) f"
    and "es_key w = (svc_Namespace svc, n)" and "api_Create api wd w = (wd', Some ErrApiAlreadyExists)"
    and "\<And>m s. view wd (svc_Namespace svc, m) = Some s \<Longrightarrow> \<not> has_labels (owned_labels svc) s"
  shows "applySlices api svc [(n, w)] wd = (wd', [\<lparr>so_Name = n, so_Op = ''create'', so_ReadyCount = ready_count w,
      so_Total = length (es_Endpoints w)\<rparr>], None) \<and> view wd' = view wd"
proof -
  define old where "old = gm_put_all es_Name id items []"
  note L = listed [OF assms(1,2), folded old_def]
  have "gm_get old m = None" for m
    using assms(7) [of m] by (simp add: L split: option.split)
  moreover have "old = []"
  proof (cases old)
    case (Cons x xs)
    then have "gm_get old (fst x) = Some (snd x)" by (cases x) (simp add: gm_get_def)
    with calculation show ?thesis by simp
  qed
  ultimately show ?thesis
    using assms(6) writes_okD(3) [OF api_okD(1) [OF assms(1)] assms(6)]
    by (simp add: applySlices_def assms(2) old_def [symmetric] Let_def apply_one_def)
qed

lemma foreign_slice_is_swallowed_witness:
  "list_view (fst (applySlices list_api example_svc [(''web-secondary-ipv4'', example_slice example_view)]
      [(example_slice example_view)\<lparr>es_Labels := []\<rparr>])) (''ns'', ''web-secondary-ipv4'') = Some ((example_slice example_view)\<lparr>es_Labels := []\<rparr>)"
proof -
  let ?f = "(example_slice example_view)\<lparr>es_Labels := []\<rparr>"
  have k: "es_key (example_slice example_view) = (svc_Namespace example_svc, ''web-secondary-ipv4'')"
    by (simp add: example_slice_def new_slice_def example_shown(4))
  have no: "\<not> has_labels (owned_labels example_svc) ?f" by (auto simp: has_labels_def owned_labels_def)
  have v: "list_view [?f] (svc_Namespace example_svc, m) = (if m = ''web-secondary-ipv4'' then Some ?f else None)" for m
    using k by (auto simp: list_view_def)
  have l: "api_List list_api [?f] (svc_Namespace example_svc) (owned_labels example_svc) = Inr []"
    using no by (simp add: list_api_def)
  have c: "api_Create list_api [?f] (example_slice example_view) = ([?f], Some ErrApiAlreadyExists)"
    by (simp add: list_api_def)
  have none: "\<not> has_labels (owned_labels example_svc) s" if "list_view [?f] (svc_Namespace example_svc, m) = Some s" for m s
    using that no by (simp add: v split: if_splits)
  have f: "list_view [?f] (svc_Namespace example_svc, ''web-secondary-ipv4'') = Some ?f" by (simp add: v)
  note T = foreign_slice_is_swallowed [OF list_api_ok l f no k c none]
  have "svc_Namespace example_svc = ''ns''" by (simp add: example_svc_def)
  then show ?thesis using conjunct1 [OF T] f by simp
qed

end
