(* ===== verification/Service_Reconciler.thy ===== *)
theory Service_Reconciler
  imports Slice_Apply
begin

text \<open>
  \<^verbatim>\<open>internal/controller/service_controller.go\<close> and \<^verbatim>\<open>pod_controller.go\<close>: one reconcile of one
  Service, from the read of the object to the writes, and the map from a Pod to the Services to
  reconcile. The client is a parameter (\<open>cluster\<close>); its calls act on an abstract world. The
  readiness reads meet the store through a \<open>store_view\<close>, and \<open>re_order\<close> is the order in which
  the map of families is visited. Log lines are not modelled, nor the instants in the events.
\<close>

section \<open>State and environment\<close>

record ('w, 'sel) cluster =
  cl_Slices :: "'w slice_api"
  cl_Get :: "'w \<Rightarrow> nsname \<Rightarrow> go_error + Service"
  cl_Pods :: "'w \<Rightarrow> string \<Rightarrow> 'sel \<Rightarrow> go_error + Pod list"
  cl_Services :: "'w \<Rightarrow> string \<Rightarrow> go_error + Service list"

record recon_env =
  re_view :: store_view
  re_order :: "(AddressType, Attachment list) gomap \<Rightarrow> (AddressType, Attachment list) gomap"

record 'w ServiceReconciler =
  sr_Registry :: Registry
  sr_reasons :: "(string, string) gomap"
  sr_world :: 'w

text \<open>A Kubernetes warning event, or a measurement event.\<close>

datatype rec_out = RWarn string "ev_value list" | REmit event

section \<open>Withdrawing a Service\<close>

fun drop_owned :: "'w slice_api \<Rightarrow> Service \<Rightarrow> string \<Rightarrow> EndpointSlice list \<Rightarrow> rec_out list \<Rightarrow> 'w \<Rightarrow> 'w \<times> rec_out list \<times> go_error option" where
  "drop_owned api svc why [] outs wd = (wd, outs, None)"
| "drop_owned api svc why (s # l) outs wd =
     (let next = drop_owned api svc why l (outs @ [REmit (Event ''slice_patched'' [(''namespace'', VStr (svc_Namespace svc)),
            (''service'', VStr (svc_Name svc)), (''slice'', VStr (es_Name s)), (''op'', VStr ''delete''), (''reason'', VStr why)])]) in
      case api_Delete api wd s of
        (wd', Some e) \<Rightarrow> if e \<noteq> ErrApiNotFound then (wd', outs, Some e) else next wd'
      | (wd', None) \<Rightarrow> next wd')"

definition dropOwnedSlices :: "'w slice_api \<Rightarrow> Service \<Rightarrow> string \<Rightarrow> 'w \<Rightarrow> 'w \<times> rec_out list \<times> go_error option" where
  "dropOwnedSlices api svc why wd = (case api_List api wd (svc_Namespace svc) (owned_labels svc) of
      Inl e \<Rightarrow> (wd, [], Some e)
    | Inr items \<Rightarrow> drop_owned api svc why items [] wd)"

text \<open>\<^verbatim>\<open>RemoveService\<close>, then \<^verbatim>\<open>dropOwnedSlices\<close>, after the events \<open>outs\<close>.\<close>

definition withdraw :: "'w slice_api \<Rightarrow> Service \<Rightarrow> string \<Rightarrow> nsname \<Rightarrow> rec_out list \<Rightarrow> 'w ServiceReconciler
    \<Rightarrow> 'w ServiceReconciler \<times> rec_out list \<times> go_error option" where
  "withdraw api svc why req outs s = (case dropOwnedSlices api svc why (sr_world s) of (wd', outs', err) \<Rightarrow>
     (s\<lparr>sr_Registry := RemoveService req (sr_Registry s), sr_world := wd'\<rparr>, outs @ outs', err))"

section \<open>Discovering attachments\<close>

definition discovered_event :: "Service \<Rightarrow> string \<Rightarrow> Pod \<Rightarrow> Attachment \<Rightarrow> rec_out" where
  "discovered_event svc nad pod a = REmit (Event ''attachment_discovered'' [(''namespace'', VStr (svc_Namespace svc)),
     (''service'', VStr (svc_Name svc)), (''pod'', VStr (pod_Name pod)), (''pod_uid'', VStr (pod_UID pod)), (''nad'', VStr nad),
     (''interface'', VStr (att_Interface a)), (''ip'', VStr (att_IP a)), (''attachment_id'', VStr (ID a)),
     (''pod_ready'', VBool (att_PodReady a))])"

text \<open>One turn of the loop over the Pods.\<close>

definition pod_attachments :: "Service \<Rightarrow> string \<Rightarrow> Pod \<Rightarrow> Attachment list \<times> rec_out list" where
  "pod_attachments svc nad pod =
     (if \<not> Eligible pod then ([], [])
      else case FromPod pod nad of
        Inl e \<Rightarrow> ([],
          if e = ErrNoAttachment then []
          else if is_ErrAmbiguous e then
            [RWarn ''AmbiguousAttachment'' [VStr (pod_Name pod), VStr nad, VErr e],
             REmit (Event ''attachment_ambiguous'' [(''namespace'', VStr (svc_Namespace svc)), (''service'', VStr (svc_Name svc)),
               (''pod'', VStr (pod_Name pod)), (''nad'', VStr nad), (''error'', VErr e)])]
          else [RWarn ''BadNetworkStatus'' [VStr (pod_Name pod), VErr e]])
      | Inr found \<Rightarrow> (found, map (discovered_event svc nad pod) found))"

definition discovered :: "Service \<Rightarrow> string \<Rightarrow> Pod list \<Rightarrow> Attachment list" where
  "discovered svc nad pods = concat (map (fst \<circ> pod_attachments svc nad) pods)"

section \<open>Publishing\<close>

definition op_events :: "Service \<Rightarrow> sliceOp \<Rightarrow> rec_out list" where
  "op_events svc op =
     (if so_Op op = ''nochange'' then []
      else map (\<lambda>n. REmit (Event n [(''namespace'', VStr (svc_Namespace svc)), (''service'', VStr (svc_Name svc)),
             (''slice'', VStr (so_Name op)), (''op'', VStr (so_Op op)), (''endpoints'', VInt (int (so_Total op))),
             (''ready'', VInt (int (so_ReadyCount op)))])) [''slice_patch_begin'', ''slice_patched''])"

definition warning_events :: "Service \<Rightarrow> warning \<Rightarrow> rec_out list" where
  "warning_events svc w = [RWarn (w_Reason w) (w_Args w),
     REmit (Event ''attachment_warning'' [(''namespace'', VStr (svc_Namespace svc)), (''service'', VStr (svc_Name svc)),
       (''reason'', VStr (w_Reason w)), (''message'', VFmt (w_Reason w) (w_Args w))])]"

text \<open>One turn of the loop of \<^verbatim>\<open>emitReasons\<close>; the changes are kept as (id, from, to).\<close>

definition note_reason :: "Readiness \<Rightarrow> (string, string) gomap \<times> (string \<times> string \<times> string) list
    \<Rightarrow> (string, string) gomap \<times> (string \<times> string \<times> string) list" where
  "note_reason rd st = (case st of (m, changes) \<Rightarrow>
     if rd_AttachmentID rd = [] then (m, changes)
     else if gm_get m (rd_AttachmentID rd) = Some (rd_Reason rd) then (m, changes)
     else (gm_put (rd_AttachmentID rd) (rd_Reason rd) m,
           changes @ [(rd_AttachmentID rd, gm_str m (rd_AttachmentID rd), rd_Reason rd)]))"

definition emitReasons :: "Readiness list \<Rightarrow> (string, string) gomap \<Rightarrow> (string, string) gomap \<times> rec_out list" where
  "emitReasons rs m = (case fold note_reason rs (m, []) of (m', changes) \<Rightarrow>
     (m', map (\<lambda>(i, from, to). REmit (Event ''readiness_changed'' [(''attachment_id'', VStr i), (''from'', VStr from), (''to'', VStr to)])) changes))"

text \<open>From the registration to the end.\<close>

definition publish :: "('w, 'sel) cluster \<Rightarrow> recon_env \<Rightarrow> Service \<Rightarrow> string \<Rightarrow> Pod list \<Rightarrow> nsname \<Rightarrow> rec_out list
    \<Rightarrow> 'w ServiceReconciler \<Rightarrow> 'w ServiceReconciler \<times> rec_out list \<times> go_error option" where
  "publish cl env svc nad pods req outs s =
     (let atts = discovered svc nad pods;
          found = concat (map (snd \<circ> pod_attachments svc nad) pods);
          scope = ScopeEndpoint;
          s1 = s\<lparr>sr_Registry := SetService req atts scope (sr_Registry s)\<rparr>;
          d = desired_over svc nad scope (re_order env (byFamily atts)) (re_view env);
          warned = concat (map (warning_events svc) (d_warnings d)) in
      case applySlices (cl_Slices cl) svc (d_slices d) (sr_world s) of (wd', ops, err) \<Rightarrow>
        let s2 = s1\<lparr>sr_world := wd'\<rparr>; patched = concat (map (op_events svc) ops) in
        (case err of
           Some e \<Rightarrow> (s2, outs @ found @ warned @ patched, Some e)
         | None \<Rightarrow> (case emitReasons (d_readiness d) (sr_reasons s) of (m', changed) \<Rightarrow>
             (s2\<lparr>sr_reasons := m'\<rparr>, outs @ found @ warned @ patched @ changed, None))))"

section \<open>Reconcile\<close>

definition stray_warnings :: "Service \<Rightarrow> rec_out list" where
  "stray_warnings svc = (let stray = ProbeConfigOnService svc in
     if stray \<noteq> [] then [RWarn ''ProbeConfigOnService'' [VStrs stray]] else [])"

definition svc_Reconcile :: "'sel label_lib \<Rightarrow> ('w, 'sel) cluster \<Rightarrow> recon_env \<Rightarrow> nsname \<Rightarrow> 'w ServiceReconciler
    \<Rightarrow> 'w ServiceReconciler \<times> rec_out list \<times> go_error option" where
  "svc_Reconcile L cl env req s = (case cl_Get cl (sr_world s) req of
      Inl e \<Rightarrow> if e = ErrApiNotFound then (s\<lparr>sr_Registry := RemoveService req (sr_Registry s)\<rparr>, [], None)
               else (s, [], Some e)
    | Inr svc \<Rightarrow>
        if \<not> Managed svc then withdraw (cl_Slices cl) svc ''annotation removed'' req [] s
        else let stray = stray_warnings svc in
        (case Validate svc of
           Some e \<Rightarrow> withdraw (cl_Slices cl) svc ''invalid service'' req
             (stray @ [RWarn ''InvalidService'' [VErr e], REmit (Event ''service_invalid'' [(''namespace'', VStr (svc_Namespace svc)),
                (''service'', VStr (svc_Name svc)), (''error'', VErr e)])]) s
         | None \<Rightarrow> (case NAD_of svc of
             Inl e \<Rightarrow> withdraw (cl_Slices cl) svc ''invalid network annotation'' req
               (stray @ [RWarn ''InvalidNetwork'' [VStr AnnotationNetwork, VErr e]]) s
           | Inr nad \<Rightarrow> (case Selector_of L svc of
               Inl e \<Rightarrow> withdraw (cl_Slices cl) svc ''unusable workload selector'' req
                 (stray @ [RWarn ''InvalidSelector'' [VErr e]]) s
             | Inr sel \<Rightarrow> (case cl_Pods cl (sr_world s) (svc_Namespace svc) sel of
                 Inl e \<Rightarrow> (s, stray, Some e)
               | Inr pods \<Rightarrow> publish cl env svc nad pods req stray s)))))"

section \<open>From a Pod to its Services\<close>

text \<open>\<open>None\<close> is an object of another kind.\<close>

definition wants_pod :: "'sel label_lib \<Rightarrow> Pod \<Rightarrow> Service \<Rightarrow> bool" where
  "wants_pod L pod svc =
     (if \<not> Managed svc then False
      else case Selector_of L svc of Inl _ \<Rightarrow> False | Inr sel \<Rightarrow> lbl_Matches L sel (pod_Labels pod))"

definition servicesForPod :: "'sel label_lib \<Rightarrow> ('w, 'sel) cluster \<Rightarrow> 'w \<Rightarrow> Pod option \<Rightarrow> nsname list" where
  "servicesForPod L cl wd obj = (case obj of
      None \<Rightarrow> []
    | Some pod \<Rightarrow> (case cl_Services cl wd (pod_Namespace pod) of
        Inl _ \<Rightarrow> []
      | Inr svcs \<Rightarrow> map (\<lambda>svc. (svc_Namespace svc, svc_Name svc)) (filter (wants_pod L pod) svcs)))"

section \<open>What a withdrawal does\<close>

lemma drop_owned_view:
  assumes api: "api_ok api view"
  shows "drop_owned api svc why l outs wd = (wd', outs', None) \<Longrightarrow>
    view wd' = (\<lambda>k. if k \<in> es_key ` set l then None else view wd k)"
proof (induction l arbitrary: outs wd)
  case (Cons s l)
  then obtain wd1 outs1 where del: "api_Delete api wd s = (wd1, None) \<or> api_Delete api wd s = (wd1, Some ErrApiNotFound)"
    and rest: "drop_owned api svc why l outs1 wd1 = (wd', outs', None)"
    by (auto simp: Let_def split: prod.splits option.splits if_splits)
  have "view wd1 = (view wd)(es_key s := None)" by (rule writes_okD(5) [OF api_okD(1) [OF api] del])
  then show ?case unfolding Cons.IH [OF rest] by auto
qed simp

text \<open>What is left of the slices when those owned for a Service are gone.\<close>

definition disowned :: "Service \<Rightarrow> (nsname \<Rightarrow> EndpointSlice option) \<Rightarrow> nsname \<Rightarrow> EndpointSlice option" where
  "disowned svc V k = (case V k of None \<Rightarrow> None
     | Some sl \<Rightarrow> if fst k = svc_Namespace svc \<and> has_labels (owned_labels svc) sl then None else Some sl)"

lemma dropOwnedSlices_view:
  assumes api: "api_ok api view" and run: "dropOwnedSlices api svc why wd = (wd', outs, None)"
  shows "view wd' = disowned svc (view wd)"
proof -
  from run obtain items where l: "api_List api wd (svc_Namespace svc) (owned_labels svc) = Inr items"
    and d: "drop_owned api svc why items [] wd = (wd', outs, None)"
    by (auto simp: dropOwnedSlices_def split: sum.splits)
  note mem = api_okD(4) [OF api l] and key = api_okD(2) [OF api]
  have "k \<in> es_key ` set items \<longleftrightarrow>
      (\<exists>sl. view wd k = Some sl \<and> fst k = svc_Namespace svc \<and> has_labels (owned_labels svc) sl)" for k
  proof
    assume "k \<in> es_key ` set items"
    then obtain sl where sl: "sl \<in> set items" "k = es_key sl" by blast
    with mem obtain n where v: "view wd (svc_Namespace svc, n) = Some sl" "has_labels (owned_labels svc) sl" by blast
    with key [OF v(1)] sl(2) show "\<exists>sl. view wd k = Some sl \<and> fst k = svc_Namespace svc \<and> has_labels (owned_labels svc) sl"
      by auto
  next
    assume "\<exists>sl. view wd k = Some sl \<and> fst k = svc_Namespace svc \<and> has_labels (owned_labels svc) sl"
    then obtain sl where v: "view wd k = Some sl" "fst k = svc_Namespace svc" "has_labels (owned_labels svc) sl" by blast
    have "k = (svc_Namespace svc, snd k)" by (metis prod.collapse v(2))
    with v mem have "sl \<in> set items" by metis
    moreover have "es_key sl = k" by (rule key [OF v(1)])
    ultimately show "k \<in> es_key ` set items" by blast
  qed
  note owned = this
  show ?thesis
    unfolding drop_owned_view [OF api d]
    by (rule ext) (auto simp: owned disowned_def split: option.split)
qed

lemma withdraw_result:
  assumes "withdraw api svc why req outs s = (s', outs', err)"
  shows "sr_Registry s' = RemoveService req (sr_Registry s)" and "sr_reasons s' = sr_reasons s"
    and "api_ok api view \<Longrightarrow> err = None \<Longrightarrow> view (sr_world s') = disowned svc (view (sr_world s))"
proof -
  obtain wd' o' where d: "dropOwnedSlices api svc why (sr_world s) = (wd', o', err)"
    and s': "s' = s\<lparr>sr_Registry := RemoveService req (sr_Registry s), sr_world := wd'\<rparr>"
    using assms by (auto simp: withdraw_def split: prod.splits)
  show "sr_Registry s' = RemoveService req (sr_Registry s)" "sr_reasons s' = sr_reasons s" by (simp_all add: s')
  show "view (sr_world s') = disowned svc (view (sr_world s))" if "api_ok api view" "err = None"
    using dropOwnedSlices_view [OF that(1)] d that(2) by (simp add: s')
qed

definition unpublishable :: "'sel label_lib \<Rightarrow> Service \<Rightarrow> bool" where
  "unpublishable L svc \<longleftrightarrow> \<not> Managed svc \<or> Validate svc \<noteq> None \<or> (\<exists>e. NAD_of svc = Inl e) \<or> (\<exists>e. Selector_of L svc = Inl e)"

lemma Reconcile_unpublishable:
  assumes "cl_Get cl (sr_world s) req = Inr svc" and "unpublishable L svc"
  shows "\<exists>why outs. svc_Reconcile L cl env req s = withdraw (cl_Slices cl) svc why req outs s"
proof (cases "Managed svc")
  case False
  then show ?thesis using assms(1) by (auto simp: svc_Reconcile_def)
next
  case m: True
  show ?thesis
  proof (cases "Validate svc")
    case (Some e)
    then show ?thesis using assms(1) m by (auto simp: svc_Reconcile_def Let_def)
  next
    case v: None
    show ?thesis
    proof (cases "NAD_of svc")
      case (Inl e)
      then show ?thesis using assms(1) m v by (auto simp: svc_Reconcile_def Let_def)
    next
      case n: (Inr nad)
      then obtain e where "Selector_of L svc = Inl e" using assms(2) m v by (auto simp: unpublishable_def)
      then show ?thesis using assms(1) m v n by (auto simp: svc_Reconcile_def Let_def)
    qed
  qed
qed

section \<open>What publishing does\<close>

lemma discovered_iff:
  "a \<in> set (discovered svc nad pods) \<longleftrightarrow>
     (\<exists>pod l. pod \<in> set pods \<and> Eligible pod \<and> FromPod pod nad = Inr l \<and> a \<in> set l)"
proof -
  have "a \<in> set (fst (pod_attachments svc nad pod)) \<longleftrightarrow> (\<exists>l. Eligible pod \<and> FromPod pod nad = Inr l \<and> a \<in> set l)" for pod
    by (cases "FromPod pod nad") (auto simp: pod_attachments_def)
  then show ?thesis by (auto simp: discovered_def)
qed

definition publishable :: "'sel label_lib \<Rightarrow> Service \<Rightarrow> string \<Rightarrow> 'sel \<Rightarrow> bool" where
  "publishable L svc nad sel \<longleftrightarrow> Managed svc \<and> Validate svc = None \<and> NAD_of svc = Inr nad \<and> Selector_of L svc = Inr sel"

lemma Reconcile_publishable:
  assumes "cl_Get cl (sr_world s) req = Inr svc" and "publishable L svc nad sel"
    and "cl_Pods cl (sr_world s) (svc_Namespace svc) sel = Inr pods"
  shows "svc_Reconcile L cl env req s = publish cl env svc nad pods req (stray_warnings svc) s"
  using assms by (simp add: svc_Reconcile_def publishable_def Let_def)

lemma publish_result:
  assumes "publish cl env svc nad pods req outs s = (s', outs', err)"
  shows "sr_Registry s' = SetService req (discovered svc nad pods) ScopeEndpoint (sr_Registry s)"
    and "\<exists>ops. applySlices (cl_Slices cl) svc
      (d_slices (desired_over svc nad ScopeEndpoint (re_order env (byFamily (discovered svc nad pods))) (re_view env)))
      (sr_world s) = (sr_world s', ops, err)"
  using assms by (auto simp: publish_def Let_def split: prod.splits option.splits)

definition recon_ok :: "recon_env \<Rightarrow> bool" where
  "recon_ok env \<longleftrightarrow> (\<forall>m. mset (re_order env m) = mset m)"


lemma projectEndpoints_set: "set (projectEndpoints sl) = ep_key ` set (es_Endpoints sl)"
  by (simp add: projectEndpoints_def)

definition wanted :: "recon_env \<Rightarrow> Service \<Rightarrow> string \<Rightarrow> Pod list \<Rightarrow> (string, EndpointSlice) gomap" where
  "wanted env svc nad pods = d_slices (desired_over svc nad ScopeEndpoint
     (re_order env (byFamily (discovered svc nad pods))) (re_view env))"

lemma owned_after_publish:
  assumes api: "api_ok (cl_Slices cl) view" and env: "recon_ok env"
    and run: "publish cl env svc nad pods req outs s = (s', outs', None)"
    and free: "no_foreign view svc (wanted env svc nad pods) (sr_world s)"
    and sl: "view (sr_world s') (svc_Namespace svc, n) = Some sl" "has_labels (owned_labels svc) sl"
    and ep: "ep \<in> set (es_Endpoints sl)"
  obtains t k a where "a \<in> set (discovered svc nad pods)" and "alone (family t (discovered svc nad pods)) a"
    and "a \<in> set (family t (discovered svc nad pods))"
    and "ep_key ep = ep_key (endpoint_of a (ComputeReady a ScopeEndpoint (view_at (re_view env) k)))"
proof -
  let ?atts = "discovered svc nad pods"
  have perm: "mset (re_order env (byFamily ?atts)) = mset (byFamily ?atts)" using env by (simp add: recon_ok_def)
  obtain ops where a: "applySlices (cl_Slices cl) svc (wanted env svc nad pods) (sr_world s) = (sr_world s', ops, None)"
    using publish_result(2) [OF run] unfolding wanted_def by blast
  note V = applySlices_view [OF api a desired_well_named [OF perm, of svc nad ScopeEndpoint "re_view env", folded wanted_def] free]
  have "gm_get (wanted env svc nad pods) n \<noteq> None"
  proof
    assume "gm_get (wanted env svc nad pods) n = None"
    from V(3) [OF this] sl show False by (cases "view (sr_world s) (svc_Namespace svc, n)") (auto split: if_splits)
  qed
  then obtain w where w: "gm_get (wanted env svc nad pods) n = Some w" by blast
  from V(2) [OF w] sl(1) have up: "sliceUpToDate sl w" by auto
  from desired_over_only [OF perm w [unfolded wanted_def]] obtain t m where
    "w = new_slice svc nad t (endpoints_at ScopeEndpoint (re_view env) m (shown_of (family t ?atts)))" by blast
  then have eps: "es_Endpoints w = endpoints_at ScopeEndpoint (re_view env) m (shown_of (family t ?atts))"
    by (simp add: new_slice_def)
  have "ep_key ep \<in> ep_key ` set (es_Endpoints w)"
  proof -
    have "projectEndpoints sl = projectEndpoints w" using up by (simp add: sliceUpToDate_iff)
    then show ?thesis using ep projectEndpoints_set by (metis imageI)
  qed
  then obtain ep' where "ep' \<in> set (es_Endpoints w)" "ep_key ep = ep_key ep'" by blast
  with endpoints_mem [OF this(1) [unfolded eps]] obtain k a where
    "a \<in> set (shown_of (family t ?atts))" and
    key: "ep_key ep = ep_key (endpoint_of a (ComputeReady a ScopeEndpoint (view_at (re_view env) k)))" by metis
  then have "a \<in> set (family t ?atts)" "alone (family t ?atts) a" using shown_sound by blast+
  moreover then have "a \<in> set ?atts" by (simp add: family_def)
  ultimately show thesis using that key by blast
qed

section \<open>Reasons\<close>

lemma note_reason_fold:
  assumes "distinct (map rd_AttachmentID rs)"
  shows "fold note_reason rs (m, ch) =
    (let moved = filter (\<lambda>rd. rd_AttachmentID rd \<noteq> [] \<and> gm_get m (rd_AttachmentID rd) \<noteq> Some (rd_Reason rd)) rs in
     (gm_put_all rd_AttachmentID rd_Reason moved m,
      ch @ map (\<lambda>rd. (rd_AttachmentID rd, gm_str m (rd_AttachmentID rd), rd_Reason rd)) moved))"
  using assms
proof (induction rs arbitrary: m ch)
  case (Cons rd rs)
  let ?i = "rd_AttachmentID rd"
  have same: "filter (\<lambda>x. rd_AttachmentID x \<noteq> [] \<and> gm_get (gm_put ?i v m) (rd_AttachmentID x) \<noteq> Some (rd_Reason x)) rs
      = filter (\<lambda>x. rd_AttachmentID x \<noteq> [] \<and> gm_get m (rd_AttachmentID x) \<noteq> Some (rd_Reason x)) rs"
    and str: "x \<in> set rs \<Longrightarrow> gm_str (gm_put ?i v m) (rd_AttachmentID x) = gm_str m (rd_AttachmentID x)" for v x
    using Cons.prems by (auto intro!: filter_cong simp: gm_str_def image_iff)
  show ?case
  proof (cases "?i \<noteq> [] \<and> gm_get m ?i \<noteq> Some (rd_Reason rd)")
    case True
    then have "note_reason rd (m, ch) = (gm_put ?i (rd_Reason rd) m, ch @ [(?i, gm_str m ?i, rd_Reason rd)])"
      by (simp add: note_reason_def)
    moreover have "map (\<lambda>x. (rd_AttachmentID x, gm_str (gm_put ?i v m) (rd_AttachmentID x), rd_Reason x)) (filter P rs)
        = map (\<lambda>x. (rd_AttachmentID x, gm_str m (rd_AttachmentID x), rd_Reason x)) (filter P rs)" for v P
      by (simp add: str)
    ultimately show ?thesis
      using Cons.prems True by (simp add: Cons.IH same Let_def del: gm_get_put)
  next
    case False
    then have "note_reason rd (m, ch) = (m, ch)" by (auto simp: note_reason_def)
    moreover have "filter (\<lambda>rd. rd_AttachmentID rd \<noteq> [] \<and> gm_get m (rd_AttachmentID rd) \<noteq> Some (rd_Reason rd)) (rd # rs)
        = filter (\<lambda>rd. rd_AttachmentID rd \<noteq> [] \<and> gm_get m (rd_AttachmentID rd) \<noteq> Some (rd_Reason rd)) rs"
      using False by auto
    ultimately show ?thesis using Cons.prems by (simp only: fold.simps comp_apply Cons.IH distinct.simps list.map)
  qed
qed simp

lemma gm_get_put_all_distinct:
  assumes "distinct (map key xs)" and "x \<in> set xs"
  shows "gm_get (gm_put_all key val xs m) (key x) = Some (val x)"
  using assms
proof (induction xs arbitrary: m)
  case (Cons y xs)
  then show ?case
    by (cases "x = y") (auto simp: gm_get_put_all_other image_iff)
qed simp


section \<open>An example\<close>

definition example_net_svc :: Service where
  "example_net_svc = example_svc\<lparr>svc_Annotations := [(AnnotationNetwork, ''net''), (AnnotationSelector, ''web'')]\<rparr>"

definition example_labels :: "string label_lib" where
  "example_labels = \<lparr>lbl_Parse = Some, lbl_Matches = (\<lambda>sel ls. gm_str ls ''app'' = sel)\<rparr>"

definition example_status :: string where
  \<open>example_status = ''[{"name":"ns/net","interface":"net1","ips":["10.0.0.1"]}]''\<close>

definition example_web_pod :: Pod where
  \<open>example_web_pod = \<lparr>pod_UID = ''p1'', pod_Name = ''p1'', pod_Namespace = ''ns'',
     pod_Annotations = [(StatusAnnotation, example_status)],
     pod_Labels = [(''app'', ''web'')], pod_DeletionTimestamp = None, pod_Phase = ''Running'',
     pod_Conditions = [\<lparr>cond_Type = ''Ready'', cond_Status = ''True''\<rparr>], pod_NodeName = ''n1'', pod_ServiceAccountName = []\<rparr>\<close>

definition example_cluster :: "Service \<Rightarrow> (EndpointSlice list, string) cluster" where
  "example_cluster svc = \<lparr>cl_Slices = list_api,
     cl_Get = (\<lambda>_ k. if k = (''ns'', ''web'') then Inr svc else Inl ErrApiNotFound),
     cl_Pods = (\<lambda>_ ns sel. Inr [example_web_pod]), cl_Services = (\<lambda>_ ns. Inr [svc])\<rparr>"

definition example_recon :: "store_view \<Rightarrow> recon_env" where
  "example_recon v = \<lparr>re_view = v, re_order = (\<lambda>m. m)\<rparr>"

definition example_state :: "EndpointSlice list \<Rightarrow> EndpointSlice list ServiceReconciler" where
  "example_state w = \<lparr>sr_Registry = NewRegistry, sr_reasons = [], sr_world = w\<rparr>"

lemma example_lex: "lex example_status LNone = Some [TLBrack, TLBrace, TStr ''name'', TColon, TStr ''ns/net'', TComma,
    TStr ''interface'', TColon, TStr ''net1'', TComma, TStr ''ips'', TColon, TLBrack, TStr ''10.0.0.1'', TRBrack, TRBrace, TRBrack]"
  by code_simp

lemma example_json: "json_parse example_status = Some (JArr [JObj [(''name'', JStr ''ns/net''),
    (''interface'', JStr ''net1''), (''ips'', JArr [JStr ''10.0.0.1''])]])"
  by (simp add: json_parse_def example_lex value_token_def open_frame_def key_token_def unquote_plain plain_string_def max_depth_def)

lemma example_found: "FromPod example_web_pod ''ns/net'' = Inr [example_att ''p1'' ''10.0.0.1'']"
proof -
  let ?e = "zero_NetworkStatus\<lparr>ns_Name := ''ns/net'', ns_Interface := ''net1'', ns_IPs := [''10.0.0.1'']\<rparr>"
  have "decode_status_list (JArr [JObj [(''name'', JStr ''ns/net''), (''interface'', JStr ''net1''),
      (''ips'', JArr [JStr ''10.0.0.1''])]]) = Some [?e]"
    by (simp add: decode_status_list_def dec_status_def dec_field_def field_match_def dec_string_def dec_strings_def is_lower_def)
  moreover have "trim_space example_status = example_status"
    by (rule trim_space_plain) (simp_all add: example_status_def plain_char_def)
  moreover have "example_status \<noteq> []" by (simp add: example_status_def)
  ultimately have "Parse example_status = Inr [?e]" by (simp add: Parse_def Let_def example_json)
  moreover have "bare_address ''10.0.0.1'' = Some ''10.0.0.1''"
  proof -
    have "trim_space ''10.0.0.1'' = ''10.0.0.1''" by (rule trim_space_plain) (simp_all add: plain_char_def)
    moreover have "parse_ip ''10.0.0.1'' \<noteq> None" by code_simp
    ultimately show ?thesis by (simp add: bare_address_def Let_def str_before_id)
  qed
  then have "Addresses ?e = [''10.0.0.1'']" by (simp add: Addresses_def List.map_filter_simps)
  moreover have "gm_str (pod_Annotations example_web_pod) StatusAnnotation = example_status"
    by (simp add: example_web_pod_def gm_str_def gm_get_def)
  moreover have "PodReady example_web_pod" by (simp add: PodReady_def example_web_pod_def)
  ultimately show ?thesis
    by (simp add: FromPod_def Select_def selects_def zero_NetworkStatus_def)
       (simp add: example_web_pod_def example_att_def)
qed

lemma example_discovered: "discovered svc ''ns/net'' [example_web_pod] = [example_att ''p1'' ''10.0.0.1'']"
  by (simp add: discovered_def pod_attachments_def example_found) (simp add: Eligible_def example_web_pod_def)

lemma example_publishable: "publishable example_labels example_net_svc ''ns/net'' ''web''"
proof -
  have "Managed example_net_svc" and "Validate example_net_svc = None"
    and "Selector_of example_labels example_net_svc = Inr ''web''"
    by (simp_all add: Managed_def Validate_def Selector_of_def example_net_svc_def example_svc_def example_labels_def
        gm_get_def AnnotationNetwork_def AnnotationSelector_def)
  moreover have "trim_space ''net'' = ''net''" by (rule trim_space_plain) (simp_all add: plain_char_def)
  then have "NAD_of example_net_svc = Inr ''ns/net''"
    by (simp add: NAD_of_def CanonicalNAD_def Let_def str_before_def example_net_svc_def example_svc_def gm_str_def gm_get_def)
  ultimately show ?thesis by (simp add: publishable_def)
qed

definition example_net_slice :: "store_view \<Rightarrow> EndpointSlice" where
  "example_net_slice v = new_slice example_net_svc ''ns/net'' AddressTypeIPv4 (endpoints_at ScopeEndpoint v 0 [example_att ''p1'' ''10.0.0.1''])"

lemma example_wanted:
  "wanted (example_recon v) example_net_svc ''ns/net'' [example_web_pod] = [(''web-secondary-ipv4'', example_net_slice v)]"
proof -
  have b: "byFamily [example_att ''p1'' ''10.0.0.1''] = [(AddressTypeIPv4, [example_att ''p1'' ''10.0.0.1''])]"
    by (simp add: byFamily_def example_shown gm_put_def)
  moreover have f: "family AddressTypeIPv4 [example_att ''p1'' ''10.0.0.1''] = [example_att ''p1'' ''10.0.0.1'']"
    by (simp add: family_def example_shown)
  moreover have "svc_Name example_net_svc = svc_Name example_svc" by (simp add: example_net_svc_def)
  ultimately show ?thesis
    using example_shown(2,4)
    by (simp add: wanted_def example_discovered example_recon_def desired_over_def desired_family_slices gm_put_def example_net_slice_def)
qed

lemma example_reconciled:
  "\<exists>s' outs. svc_Reconcile example_labels (example_cluster example_net_svc) (example_recon v) (''ns'', ''web'') (example_state []) = (s', outs, None) \<and>
     sr_world s' = [example_net_slice v]"
proof -
  have a: "applySlices list_api example_net_svc (wanted (example_recon v) example_net_svc ''ns/net'' [example_web_pod]) []
      = ([example_net_slice v], [\<lparr>so_Name = ''web-secondary-ipv4'', so_Op = ''create'',
          so_ReadyCount = ready_count (example_net_slice v), so_Total = length (es_Endpoints (example_net_slice v))\<rparr>], None)"
    by (simp add: example_wanted applySlices_def list_api_def apply_one_def)
  have r: "svc_Reconcile example_labels (example_cluster example_net_svc) (example_recon v) (''ns'', ''web'') (example_state []) =
      publish (example_cluster example_net_svc) (example_recon v) example_net_svc ''ns/net'' [example_web_pod] (''ns'', ''web'')
        (stray_warnings example_net_svc) (example_state [])"
    by (rule Reconcile_publishable [OF _ example_publishable]) (simp_all add: example_cluster_def)
  show ?thesis
    using a unfolding r publish_def wanted_def
    by (simp add: Let_def example_cluster_def example_state_def split: prod.split)
qed

lemma example_ready:
  "rd_Ready (ComputeReady (example_att ''p1'' ''10.0.0.1'') ScopeEndpoint
     (frozen (fold store_run (ready_history (example_att ''p1'' ''10.0.0.1'')) (NewHealthStore time_Second)) 9))"
  by (simp add: ready_frozen ready_history_def AdoptInstance_def AcceptLocal_def AcceptPath_def currentLocked_def
      NewHealthStore_def in_order_def example_local_def example_path_def LocalState_held PathState_held verdict_def
      held_def new_entry_def time_sub_def lh_Ready_def zero_LocalHealth_def zero_PathHealth_def)
     (simp add: example_att_def)

section \<open>Properties\<close>

text \<open>
  C12. A Service that is not managed, breaks an invariant, or names an unusable network or selector is
  withdrawn: the registry vouches for none of its attachments any more, even when a delete fails,
  and without an error every slice owned for it is gone, and nothing else, if the list of them is
  current.
\<close>

theorem unpublishable_service_withdrawn:
  assumes "api_ok (cl_Slices cl) view" and "cl_Get cl (sr_world s) req = Inr svc" and "unpublishable L svc"
    and "svc_Reconcile L cl env req s = (s', outs, err)"
  shows "\<not> publishes (sr_Registry s') req sc a \<and>
    (k \<noteq> req \<longrightarrow> publishes (sr_Registry s') k sc a = publishes (sr_Registry s) k sc a) \<and>
    (err = None \<longrightarrow> view (sr_world s') = disowned svc (view (sr_world s)))"
proof -
  obtain why o' where "withdraw (cl_Slices cl) svc why req o' s = (s', outs, err)"
    using Reconcile_unpublishable [OF assms(2,3), of env] assms(4) by auto
  from withdraw_result [OF this] assms(1) show ?thesis by simp
qed

lemma unpublishable_service_withdrawn_witness:
  "\<exists>s' outs. svc_Reconcile example_labels (example_cluster example_svc) (example_recon example_view) (''ns'', ''web'')
      (example_state [example_slice example_view]) = (s', outs, None) \<and>
    \<not> publishes (sr_Registry s') (''ns'', ''web'') ScopeEndpoint (example_att ''p1'' ''10.0.0.1'') \<and>
    list_view (sr_world s') (''ns'', ''web-secondary-ipv4'') = None"
proof -
  have k: "es_key (example_slice example_view) = (''ns'', ''web-secondary-ipv4'')"
    and o: "has_labels (owned_labels example_svc) (example_slice example_view)"
    by (simp_all add: example_slice_def new_slice_def example_shown(4) has_labels_def)
       (simp_all add: example_svc_def owned_labels_def gm_get_def LabelServiceName_def LabelManagedBy_def)
  have m: "\<not> Managed example_svc" by (simp add: Managed_def example_svc_def)
  obtain s' outs where r: "svc_Reconcile example_labels (example_cluster example_svc) (example_recon example_view) (''ns'', ''web'')
      (example_state [example_slice example_view]) = (s', outs, None)"
    using k o m by (simp add: svc_Reconcile_def example_cluster_def example_state_def withdraw_def dropOwnedSlices_def list_api_def
        example_svc_def)
  have c: "api_ok (cl_Slices (example_cluster example_svc)) list_view" by (simp add: example_cluster_def list_api_ok)
  have g: "cl_Get (example_cluster example_svc) (sr_world (example_state [example_slice example_view])) (''ns'', ''web'') = Inr example_svc"
    by (simp add: example_cluster_def)
  have u: "unpublishable example_labels example_svc" using m by (simp add: unpublishable_def)
  note T = unpublishable_service_withdrawn [OF c g u r, of ScopeEndpoint "example_att ''p1'' ''10.0.0.1''"]
  have "disowned example_svc (list_view [example_slice example_view]) (''ns'', ''web-secondary-ipv4'') = None"
    using o by (simp add: disowned_def list_view_def k example_svc_def)
  with r T show ?thesis by (simp add: example_state_def)
qed

text \<open>
  C11. For a publishable Service the registry vouches afterwards for exactly the attachments of the
  listed Pods that are eligible and carry the network unambiguously. It does so before the slices
  are written, so also when a write fails, and other Services keep theirs.
\<close>

theorem reconcile_registers_discovery:
  assumes "cl_Get cl (sr_world s) req = Inr svc" and "publishable L svc nad sel"
    and "cl_Pods cl (sr_world s) (svc_Namespace svc) sel = Inr pods"
    and "svc_Reconcile L cl env req s = (s', outs, err)"
  shows "publishes (sr_Registry s') k sc a \<longleftrightarrow>
    (if k = req then sc = ScopeEndpoint \<and> (\<exists>pod l. pod \<in> set pods \<and> Eligible pod \<and> FromPod pod nad = Inr l \<and> a \<in> set l)
     else publishes (sr_Registry s) k sc a)"
  using publish_result(1) [OF assms(4) [unfolded Reconcile_publishable [OF assms(1-3)]]]
  by (simp add: discovered_iff)

lemma reconcile_registers_discovery_witness:
  "\<exists>s' outs. svc_Reconcile example_labels (example_cluster example_net_svc) (example_recon example_view) (''ns'', ''web'')
      (example_state []) = (s', outs, None) \<and>
    publishes (sr_Registry s') (''ns'', ''web'') ScopeEndpoint (example_att ''p1'' ''10.0.0.1'')"
proof -
  obtain s' outs where r: "svc_Reconcile example_labels (example_cluster example_net_svc) (example_recon example_view) (''ns'', ''web'')
      (example_state []) = (s', outs, None)"
    using example_reconciled by blast
  have "Eligible example_web_pod" by (simp add: Eligible_def example_web_pod_def)
  with reconcile_registers_discovery [OF _ example_publishable _ r, of "[example_web_pod]" "(''ns'', ''web'')" ScopeEndpoint
      "example_att ''p1'' ''10.0.0.1''"] r
  show ?thesis by (simp add: example_cluster_def example_found)
qed

text \<open>
  C2. What a client may rely on. After a reconcile without error, every endpoint of a slice the
  controller owns for the Service carries the address of an attachment of an eligible Pod that no
  other attachment of the family claims; and it is marked ready only if the Pod was ready and its
  interface and path were Healthy, by fresh reports, when the store was read. (The list the pass works
  from is taken to be current, and no slice of another owner to sit under a wanted name.)
\<close>

theorem published_ready_is_reachable:
  assumes "api_ok (cl_Slices cl) view" and "recon_ok env" and "cl_Get cl (sr_world s) req = Inr svc"
    and "publishable L svc nad sel" and "cl_Pods cl (sr_world s) (svc_Namespace svc) sel = Inr pods"
    and "svc_Reconcile L cl env req s = (s', outs, None)"
    and "no_foreign view svc (wanted env svc nad pods) (sr_world s)"
    and "view (sr_world s') (svc_Namespace svc, n) = Some sl" and "has_labels (owned_labels svc) sl"
    and "ep \<in> set (es_Endpoints sl)"
  shows "\<exists>pod l a i. pod \<in> set pods \<and> Eligible pod \<and> FromPod pod nad = Inr l \<and> a \<in> set l \<and>
    ek_addr (ep_key ep) = att_IP a \<and>
    (\<forall>b \<in> set (discovered svc nad pods). AddressType_of b = AddressType_of a \<and> att_IP b = att_IP a \<longrightarrow> b = a) \<and>
    (ek_ready (ep_key ep) \<longrightarrow> att_PodReady a \<and>
      LocalState (fst (re_view env i)) (snd (re_view env i)) (ID a) = StateHealthy \<and>
      PathState (fst (re_view env (i + 1))) (snd (re_view env (i + 1))) (PathKey a ScopeEndpoint) = StateHealthy)"
proof -
  note run = assms(6) [unfolded Reconcile_publishable [OF assms(3-5)]]
  obtain t k a where a: "a \<in> set (discovered svc nad pods)" "alone (family t (discovered svc nad pods)) a"
      "a \<in> set (family t (discovered svc nad pods))"
    and key: "ep_key ep = ep_key (endpoint_of a (ComputeReady a ScopeEndpoint (view_at (re_view env) k)))"
    by (rule owned_after_publish [OF assms(1,2) run assms(7-10)])
  from a(1) obtain pod l where pod: "pod \<in> set pods" "Eligible pod" "FromPod pod nad = Inr l" "a \<in> set l"
    unfolding discovered_iff by blast
  have addr: "ek_addr (ep_key ep) = att_IP a" and
    ready: "ek_ready (ep_key ep) = rd_Ready (ComputeReady a ScopeEndpoint (view_at (re_view env) k))"
    unfolding key by (simp_all add: ep_key_def endpoint_of_def deref_def)
  have uniq: "b = a" if "b \<in> set (discovered svc nad pods)" "AddressType_of b = AddressType_of a" "att_IP b = att_IP a" for b
  proof (rule alone_unique [OF a(2,3) _ that(3)])
    show "b \<in> set (family t (discovered svc nad pods))" using that(1,2) a(3) by (simp add: family_def)
  qed
  show ?thesis
    by (rule exI [of _ pod], rule exI [of _ l], rule exI [of _ a], rule exI [of _ "4 * k + 2"])
       (use pod addr uniq in \<open>auto simp: ready ready_iff view_at_def eval_nat_numeral\<close>)
qed

definition ready_view :: store_view where
  "ready_view = frozen (fold store_run (ready_history (example_att ''p1'' ''10.0.0.1'')) (NewHealthStore time_Second)) 9"

lemma published_ready_is_reachable_witness:
  "\<exists>a i. ek_ready (ep_key (hd (es_Endpoints (example_net_slice ready_view)))) \<and> att_IP a = ''10.0.0.1'' \<and>
     LocalState (fst (ready_view i)) (snd (ready_view i)) (ID a) = StateHealthy"
proof -
  let ?cl = "example_cluster example_net_svc" and ?a = "example_att ''p1'' ''10.0.0.1''"
  let ?sl = "example_net_slice ready_view"
  obtain s' outs where r: "svc_Reconcile example_labels ?cl (example_recon ready_view) (''ns'', ''web'') (example_state []) = (s', outs, None)"
    and w: "sr_world s' = [?sl]"
    using example_reconciled by blast
  have eps: "es_Endpoints ?sl = [endpoint_of ?a (ComputeReady ?a ScopeEndpoint (view_at ready_view 0))]"
    by (simp add: example_net_slice_def new_slice_def endpoints_at_def)
  have v: "view_at ready_view 0 = ready_view" by (simp add: view_at_def)
  have k: "es_key ?sl = (''ns'', ''web-secondary-ipv4'')"
    using example_shown(4) by (simp add: example_net_slice_def new_slice_def example_net_svc_def) (simp add: example_svc_def)
  have ns: "svc_Namespace example_net_svc = ''ns''" by (simp add: example_net_svc_def example_svc_def)
  have o: "has_labels (owned_labels example_net_svc) ?sl"
    by (simp add: example_net_slice_def has_labels_def)
       (simp add: owned_labels_def gm_get_def LabelServiceName_def LabelManagedBy_def)
  have ready: "ek_ready (ep_key (hd (es_Endpoints ?sl)))"
    using example_ready [folded ready_view_def] by (simp add: eps ep_key_def endpoint_of_def deref_def v)
  have addr: "ek_addr (ep_key (hd (es_Endpoints ?sl))) = ''10.0.0.1''"
    by (simp add: eps ep_key_def endpoint_of_def example_att_def)
  have c: "api_ok (cl_Slices ?cl) list_view" by (simp add: example_cluster_def list_api_ok)
  have e: "recon_ok (example_recon ready_view)" by (simp add: recon_ok_def example_recon_def)
  have g: "cl_Get ?cl (sr_world (example_state [])) (''ns'', ''web'') = Inr example_net_svc"
    "cl_Pods ?cl (sr_world (example_state [])) (svc_Namespace example_net_svc) ''web'' = Inr [example_web_pod]"
    by (simp_all add: example_cluster_def)
  have f: "no_foreign list_view example_net_svc (wanted (example_recon ready_view) example_net_svc ''ns/net'' [example_web_pod]) (sr_world (example_state []))"
    by (simp add: no_foreign_def list_view_def example_state_def)
  have s: "list_view (sr_world s') (svc_Namespace example_net_svc, ''web-secondary-ipv4'') = Some ?sl"
    using k by (simp add: w list_view_def ns)
  have m: "hd (es_Endpoints ?sl) \<in> set (es_Endpoints ?sl)" by (simp add: eps)
  from published_ready_is_reachable [OF c e g(1) example_publishable g(2) r f s o m] ready addr
  show ?thesis by (auto simp: example_recon_def)
qed

text \<open>
  Of a pass over attachments with distinct ids, the events are exactly the changes of reason, in
  order, each with the reason remembered before; a second pass with the same verdicts reports nothing.
\<close>

theorem reason_changes_reported_once:
  assumes "distinct (map rd_AttachmentID rs)" and "\<forall>rd \<in> set rs. rd_AttachmentID rd \<noteq> []"
  shows "snd (emitReasons rs m) =
      map (\<lambda>rd. REmit (Event ''readiness_changed'' [(''attachment_id'', VStr (rd_AttachmentID rd)),
          (''from'', VStr (gm_str m (rd_AttachmentID rd))), (''to'', VStr (rd_Reason rd))]))
        (filter (\<lambda>rd. gm_get m (rd_AttachmentID rd) \<noteq> Some (rd_Reason rd)) rs) \<and>
    emitReasons rs (fst (emitReasons rs m)) = (fst (emitReasons rs m), [])"
proof -
  define moved where "moved = filter (\<lambda>rd. rd_AttachmentID rd \<noteq> [] \<and> gm_get m (rd_AttachmentID rd) \<noteq> Some (rd_Reason rd)) rs"
  define m' where "m' = gm_put_all rd_AttachmentID rd_Reason moved m"
  have step: "emitReasons rs m = (m', map (\<lambda>rd. REmit (Event ''readiness_changed'' [(''attachment_id'', VStr (rd_AttachmentID rd)),
        (''from'', VStr (gm_str m (rd_AttachmentID rd))), (''to'', VStr (rd_Reason rd))])) moved)"
    by (simp add: emitReasons_def note_reason_fold [OF assms(1)] moved_def m'_def Let_def)
  have moved: "moved = filter (\<lambda>rd. gm_get m (rd_AttachmentID rd) \<noteq> Some (rd_Reason rd)) rs"
    unfolding moved_def using assms(2) by (auto intro: filter_cong)
  have d: "distinct (map rd_AttachmentID moved)" using assms(1) by (simp add: moved_def distinct_map_filter)
  have now: "gm_get m' (rd_AttachmentID rd) = Some (rd_Reason rd)" if "rd \<in> set rs" for rd
  proof (cases "rd \<in> set moved")
    case True
    then show ?thesis unfolding m'_def by (rule gm_get_put_all_distinct [OF d])
  next
    case False
    have "rd_AttachmentID rd \<notin> rd_AttachmentID ` set moved"
    proof
      assume "rd_AttachmentID rd \<in> rd_AttachmentID ` set moved"
      then obtain x where x: "x \<in> set moved" "rd_AttachmentID x = rd_AttachmentID rd" by auto
      moreover then have "x \<in> set rs" by (simp add: moved_def)
      ultimately have "x = rd" using assms(1) that by (metis (mono_tags) distinct_map inj_onD)
      with x False show False by simp
    qed
    then show ?thesis using that False by (simp add: m'_def gm_get_put_all_other moved)
  qed
  have "filter (\<lambda>rd. rd_AttachmentID rd \<noteq> [] \<and> gm_get m' (rd_AttachmentID rd) \<noteq> Some (rd_Reason rd)) rs = []"
    using now by simp
  then have "emitReasons rs m' = (m', [])"
    by (simp add: emitReasons_def note_reason_fold [OF assms(1)] Let_def)
  then show ?thesis by (simp add: step moved)
qed

lemma reason_changes_reported_once_witness:
  "snd (emitReasons [\<lparr>rd_AttachmentID = ''a'', rd_Ready = False, rd_Reason = ''PodNotReady'', rd_Local = StateUnknown, rd_Path = StateUnknown\<rparr>]
     [(''a'', ''Healthy'')]) = [REmit (Event ''readiness_changed'' [(''attachment_id'', VStr ''a''), (''from'', VStr ''Healthy''), (''to'', VStr ''PodNotReady'')])]"
  using reason_changes_reported_once [of "[\<lparr>rd_AttachmentID = ''a'', rd_Ready = False, rd_Reason = ''PodNotReady'', rd_Local = StateUnknown, rd_Path = StateUnknown\<rparr>]"
      "[(''a'', ''Healthy'')]"]
  by (simp add: gm_get_def gm_str_def)

text \<open>
  A Pod event reconciles exactly the managed Services of its namespace whose workload selector
  selects the Pod, so every Service a reconcile publishes the Pod for is among them.
\<close>

theorem pod_event_wakes_its_services:
  assumes "cl_Services cl wd (pod_Namespace pod) = Inr svcs"
  shows "k \<in> set (servicesForPod L cl wd (Some pod)) \<longleftrightarrow>
    (\<exists>svc \<in> set svcs. k = (svc_Namespace svc, svc_Name svc) \<and> Managed svc \<and>
      (\<exists>sel. Selector_of L svc = Inr sel \<and> lbl_Matches L sel (pod_Labels pod)))"
proof -
  have "wants_pod L pod svc \<longleftrightarrow> Managed svc \<and> (\<exists>sel. Selector_of L svc = Inr sel \<and> lbl_Matches L sel (pod_Labels pod))" for svc
    by (cases "Selector_of L svc") (auto simp: wants_pod_def)
  then show ?thesis using assms by (auto simp: servicesForPod_def)
qed

lemma pod_event_wakes_its_services_witness:
  "(''ns'', ''web'') \<in> set (servicesForPod example_labels (example_cluster example_net_svc) [] (Some example_web_pod))"
proof -
  have l: "cl_Services (example_cluster example_net_svc) [] (pod_Namespace example_web_pod) = Inr [example_net_svc]"
    by (simp add: example_cluster_def)
  have k: "(svc_Namespace example_net_svc, svc_Name example_net_svc) = (''ns'', ''web'')"
    by (simp add: example_net_svc_def example_svc_def)
  have m: "Managed example_net_svc" "Selector_of example_labels example_net_svc = Inr ''web''"
    using example_publishable by (simp_all add: publishable_def)
  have "lbl_Matches example_labels ''web'' (pod_Labels example_web_pod)"
    by (simp add: example_labels_def example_web_pod_def gm_str_def gm_get_def)
  with m k show ?thesis by (simp add: pod_event_wakes_its_services [OF l])
qed

end
