(* ===== verification/Expiry.thy ===== *)
theory Expiry
  imports Service_Reconciler Health_Server
begin

text \<open>
  \<^verbatim>\<open>internal/controller/expiry.go\<close>, \<^verbatim>\<open>Enqueue\<close> of \<^verbatim>\<open>service_controller.go\<close>, and how
  \<^verbatim>\<open>cmd/controller/main.go\<close> joins them: the sweeper turns the passage of time into wakeups, the
  wakeups go through a bounded channel. One tick is one step: the registry does not move while
  the expired entries are visited.
\<close>

section \<open>The channel of wakeups\<close>

text \<open>A channel is the list of the keys in it; \<open>None\<close> is the nil channel.\<close>

definition HealthEvents_cap :: nat where
  "HealthEvents_cap = 1024"

definition Enqueue :: "nat \<Rightarrow> nsname \<Rightarrow> nsname list option \<Rightarrow> nsname list option" where
  "Enqueue cap key ch = (case ch of
      None \<Rightarrow> None
    | Some q \<Rightarrow> if length q < cap then Some (q @ [key]) else Some q)"

text \<open>The notifications of a handler, through the channel.\<close>

definition deliver :: "nat \<Rightarrow> srv_out list \<Rightarrow> nsname list option \<Rightarrow> nsname list option" where
  "deliver cap outs ch = fold (\<lambda>x ch. case x of ONotify k \<Rightarrow> Enqueue cap k ch | _ \<Rightarrow> ch) outs ch"

section \<open>The sweeper\<close>

text \<open>\<^verbatim>\<open>healthTTL / 3\<close>, with Go's division toward zero.\<close>

definition sweeper_Interval :: "int \<Rightarrow> int" where
  "sweeper_Interval ttl = sgn ttl * (\<bar>ttl\<bar> div 3)"

definition sweep_interval :: "int \<Rightarrow> int" where
  "sweep_interval interval = (if interval \<le> 0 then time_Second else interval)"

definition prune_every :: "int \<Rightarrow> int" where
  "prune_every interval = (let k = (30 * time_Second) div interval in if k < 1 then 1 else k)"

definition Milliseconds :: "int \<Rightarrow> int" where
  "Milliseconds d = sgn d * (\<bar>d\<bar> div 1000000)"

definition expired_owners :: "Registry \<Rightarrow> Expired \<Rightarrow> nsname list" where
  "expired_owners r x = (if x_Kind x = ''local''
     then (case reg_Attachment r (x_ID x) of (_, o1, ok) \<Rightarrow> if ok then o1 else [])
     else (case reg_PathKey r (x_ID x) of (o1, ok) \<Rightarrow> if ok then o1 else []))"

definition expired_outs :: "Registry \<Rightarrow> int \<Rightarrow> Expired \<Rightarrow> srv_out list" where
  "expired_outs r ttl x = OEmit (Event ''health_expired'' [(''kind'', VStr (x_Kind x)), (''id'', VStr (x_ID x)),
     (''node'', VStr (x_Node x)), (''ttl_ms'', VInt (Milliseconds ttl))]) # map ONotify (expired_owners r x)"

text \<open>One tick: the store and the counter \<^verbatim>\<open>n\<close>; \<open>now\<close> and \<open>now'\<close> are the clocks of the two calls.\<close>

definition sweep_tick :: "Registry \<Rightarrow> int \<Rightarrow> int \<Rightarrow> int \<Rightarrow> HealthStore \<times> int \<Rightarrow> (HealthStore \<times> int) \<times> srv_out list" where
  "sweep_tick r every now now' st = (case st of (s, n) \<Rightarrow> case SweepExpired now s of (s1, xs) \<Rightarrow>
     (if n + 1 \<ge> every then (fst (Prune now' s1), 0) else (s1, n + 1), concat (map (expired_outs r (hs_ttl s)) xs)))"

fun sweep_run :: "Registry \<Rightarrow> int \<Rightarrow> (int \<times> int) list \<Rightarrow> HealthStore \<times> int \<Rightarrow> HealthStore \<times> int" where
  "sweep_run r every [] st = st"
| "sweep_run r every ((now, now') # ts) st = sweep_run r every ts (fst (sweep_tick r every now now' st))"

section \<open>Lemmas\<close>

lemma deliver_full: "length q = cap \<Longrightarrow> deliver cap outs (Some q) = Some q"
  unfolding deliver_def by (induction outs) (auto simp: Enqueue_def split: srv_out.split)

text \<open>With room for all of them, every notification is in the channel afterwards.\<close>

lemma deliver_room:
  "length q + length (filter (\<lambda>x. \<exists>k. x = ONotify k) outs) \<le> cap \<Longrightarrow>
    \<exists>q'. deliver cap outs (Some q) = Some q' \<and> set q' = set q \<union> {k. ONotify k \<in> set outs}"
proof (induction outs arbitrary: q)
  case Nil
  then show ?case by (simp add: deliver_def)
next
  case (Cons x outs)
  show ?case
  proof (cases x)
    case (ONotify k)
    then have "deliver cap (x # outs) (Some q) = deliver cap outs (Some (q @ [k]))"
      using Cons.prems by (simp add: deliver_def Enqueue_def)
    moreover have "length (q @ [k]) + length (filter (\<lambda>x. \<exists>k. x = ONotify k) outs) \<le> cap" using Cons.prems ONotify by simp
    ultimately show ?thesis using Cons.IH [of "q @ [k]"] ONotify by auto
  qed (use Cons in \<open>auto simp: deliver_def\<close>)
qed

text \<open>An entry is marked only after it went stale.\<close>

definition flags_ok :: "int \<Rightarrow> int \<Rightarrow> (string, 'r health_entry) gomap \<Rightarrow> bool" where
  "flags_ok T ttl m \<longleftrightarrow> (\<forall>i e. gm_get m i = Some e \<and> e_expired e \<longrightarrow> stale ttl T e)"

lemma flags_ok_put: "flags_ok T ttl m \<Longrightarrow> flags_ok T ttl (gm_put i (new_entry og now r) m)"
  by (auto simp: flags_ok_def new_entry_def)

lemma flags_ok_snapshot: "gm_wf m \<Longrightarrow> flags_ok T ttl m \<Longrightarrow> flags_ok T ttl (snapshot_half key node og now rs m)"
  by (auto simp: flags_ok_def snapshot_get new_entry_def split: option.splits if_splits)

lemma flags_ok_prune: "gm_wf m \<Longrightarrow> flags_ok T ttl m \<Longrightarrow> flags_ok T ttl (prune_half cutoff m)"
  by (auto simp: flags_ok_def prune_get split: option.splits if_splits)

lemma flags_ok_sweep:
  assumes "flags_ok T ttl m" and "now \<le> T"
  shows "flags_ok T ttl (fst (sweep_half kind node ttl now m))"
  unfolding flags_ok_def
proof (intro allI impI)
  fix i e assume "gm_get (fst (sweep_half kind node ttl now m)) i = Some e \<and> e_expired e"
  then obtain e0 where e0: "gm_get m i = Some e0" "e = (if \<not> e_expired e0 \<and> stale ttl now e0 then e0\<lparr>e_expired := True\<rparr> else e0)"
    "e_expired e"
    by (auto simp: sweep_get)
  show "stale ttl T e"
  proof (cases "\<not> e_expired e0 \<and> stale ttl now e0")
    case True
    then show ?thesis using e0(2) stale_mono [of ttl now e0 T] assms(2) by simp
  next
    case False
    then have "e = e0" using e0(2) by simp
    then show ?thesis using e0 assms(1) by (auto simp: flags_ok_def)
  qed
qed

definition store_flags_ok :: "int \<Rightarrow> HealthStore \<Rightarrow> bool" where
  "store_flags_ok T s \<longleftrightarrow> flags_ok T (hs_ttl s) (hs_local s) \<and> flags_ok T (hs_ttl s) (hs_path s)"

lemma store_flags_run:
  assumes "hs_ok s" and "store_flags_ok T s" and "\<forall>t. op = OpSweep t \<longrightarrow> t \<le> T"
  shows "store_flags_ok T (store_run op s)"
proof (cases op)
  case (OpSweep t)
  then show ?thesis using assms by (simp add: store_flags_ok_def SweepExpired_fst flags_ok_sweep)
qed (use assms hs_ok_wf [OF assms(1)] in \<open>auto simp: store_flags_ok_def AdoptInstance_def AcceptLocal_def AcceptPath_def
    ApplySnapshot_def ForgetLocal_def Prune_def Let_def flags_ok_put flags_ok_snapshot flags_ok_prune\<close>,
    auto simp: flags_ok_def)

lemma store_flags_history:
  "hs_ok s \<Longrightarrow> store_flags_ok T s \<Longrightarrow> \<forall>t. OpSweep t \<in> set ops \<longrightarrow> t \<le> T \<Longrightarrow> store_flags_ok T (fold store_run ops s)"
proof (induction ops arbitrary: s)
  case (Cons op ops)
  from Cons.prems have "store_flags_ok T (store_run op s)" by (intro store_flags_run) auto
  moreover have "hs_ok (store_run op s)" using hs_ok_run [OF Cons.prems(1)] by simp
  ultimately show ?case using Cons.IH Cons.prems(3) by simp
qed simp

text \<open>What was known at \<open>t0\<close> and is not at \<open>now\<close> is reported by the sweep at \<open>now\<close>.\<close>

lemma lapsed_reported:
  assumes "gm_wf m" and "flags_ok T ttl m" and "T \<le> t0"
    and "verdict ready ttl t0 (held m i) \<noteq> StateUnknown" and "verdict ready ttl now (held m i) = StateUnknown"
  shows "\<exists>n. Expired kind i n \<in> set (snd (sweep_half kind node ttl now m))"
proof -
  from assms(4,5) obtain e where e: "gm_get m i = Some e" and fresh: "\<not> stale ttl t0 e" and now: "stale ttl now e"
    by (auto simp: verdict_def held_def stale_def split: option.splits if_splits)
  have "\<not> e_expired e"
  proof
    assume "e_expired e"
    with e assms(2) have "stale ttl T e" by (auto simp: flags_ok_def)
    with fresh assms(3) stale_mono show False by blast
  qed
  then show ?thesis using e now by (auto simp: sweep_reports [OF assms(1)])
qed

lemma prune_counter:
  "0 < every \<Longrightarrow> 0 \<le> n \<Longrightarrow> n < every \<Longrightarrow> snd (sweep_run r every ts (s, n)) = (n + int (length ts)) mod every"
proof (induction ts arbitrary: s n)
  case (Cons t ts)
  obtain now now' where t: "t = (now, now')" by fastforce
  obtain s1 where "fst (sweep_tick r every now now' (s, n)) = (s1, if n + 1 \<ge> every then 0 else n + 1)"
    by (cases "SweepExpired now s"; cases "every \<le> n + 1") (auto simp: sweep_tick_def)
  then have "snd (sweep_run r every (t # ts) (s, n)) = ((if n + 1 \<ge> every then 0 else n + 1) + int (length ts)) mod every"
    using Cons.IH [of "if n + 1 \<ge> every then 0 else n + 1"] Cons.prems by (simp add: t)
  also have "\<dots> = (n + int (length (t # ts))) mod every"
  proof (cases "n + 1 = every")
    case True
    then have "n + int (length (t # ts)) = int (length ts) + every" by simp
    then show ?thesis using True by (simp only: mod_add_self2) simp
  next
    case False
    then show ?thesis using Cons.prems(3) by (simp add: algebra_simps)
  qed
  finally show ?case .
qed simp


lemma tick_outs: "snd (sweep_tick r every now now' (s, n)) = concat (map (expired_outs r (hs_ttl s)) (snd (SweepExpired now s)))"
  by (cases "SweepExpired now s") (simp add: sweep_tick_def)

section \<open>Properties\<close>

text \<open>
  C13. A lapsed lease is noticed. If the local state of a published attachment, or the state of its path, was
  known (good or bad) at some instant after the last sweep and, nothing reported since, is unknown when the
  sweeper ticks, that tick emits a wakeup for every Service that publishes the attachment. Its key is then in
  the channel of wakeups, provided the channel has room for all the wakeups of the tick; a full channel drops
  them for good (see \<open>full_channel_loses_expiry\<close>).
\<close>

theorem expiry_wakes_publishers:
  assumes "reg_ok r" and "publishes r k sc a" and "s = fold store_run ops (NewHealthStore ttl)"
    and "\<forall>t. OpSweep t \<in> set ops \<longrightarrow> t \<le> t0"
    and "LocalState s t0 (ID a) \<noteq> StateUnknown \<and> LocalState s now (ID a) = StateUnknown \<or>
      PathState s t0 (PathKey a sc) \<noteq> StateUnknown \<and> PathState s now (PathKey a sc) = StateUnknown"
  shows "let outs = snd (sweep_tick r every now now' (s, n)) in
    ONotify k \<in> set outs \<and>
    (length q + length (filter (\<lambda>x. \<exists>k. x = ONotify k) outs) \<le> cap \<longrightarrow>
       (\<exists>q'. deliver cap outs (Some q) = Some q' \<and> k \<in> set q' \<and> set q \<subseteq> set q'))"
proof -
  have ok: "hs_ok s"
    unfolding assms(3) by (rule fold_invariant) (simp_all add: hs_ok_run)
  have "store_flags_ok t0 (NewHealthStore ttl)" by (simp add: store_flags_ok_def flags_ok_def NewHealthStore_def)
  then have "store_flags_ok t0 s"
    unfolding assms(3) by (rule store_flags_history [OF hs_ok_New _ assms(4)])
  then have fl: "flags_ok t0 (hs_ttl s) (hs_local s)" "flags_ok t0 (hs_ttl s) (hs_path s)" by (simp_all add: store_flags_ok_def)
  note wf = hs_ok_wf [OF ok]
  from assms(5) obtain x where x: "x \<in> set (snd (SweepExpired now s))" and k: "k \<in> set (expired_owners r x)"
  proof (elim disjE conjE)
    assume l: "LocalState s t0 (ID a) \<noteq> StateUnknown" "LocalState s now (ID a) = StateUnknown"
    obtain m where m: "Expired ''local'' (ID a) m \<in> set (snd (SweepExpired now s))"
      using lapsed_reported [OF wf(1) fl(1) order.refl l [unfolded LocalState_held]] unfolding SweepExpired_snd by fastforce
    obtain a' ks where "reg_Attachment r (ID a) = (a', ks, True)" "k \<in> set ks"
      by (rule reg.owners_complete [OF assms(1,2)])
    then show thesis by (intro that [OF m]) (simp add: expired_owners_def)
  next
    assume p: "PathState s t0 (PathKey a sc) \<noteq> StateUnknown" "PathState s now (PathKey a sc) = StateUnknown"
    obtain m where m: "Expired ''path'' (PathKey a sc) m \<in> set (snd (SweepExpired now s))"
      using lapsed_reported [OF wf(2) fl(2) order.refl p [unfolded PathState_held]] unfolding SweepExpired_snd by fastforce
    obtain ks where "reg_PathKey r (PathKey a sc) = (ks, True)" "k \<in> set ks"
      by (rule reg.path_owners_complete [OF assms(1,2)])
    then show thesis by (intro that [OF m]) (simp add: expired_owners_def)
  qed
  then have "ONotify k \<in> set (snd (sweep_tick r every now now' (s, n)))"
    unfolding tick_outs by (auto simp: expired_outs_def intro!: bexI [OF _ x])
  then show ?thesis using deliver_room [of q "snd (sweep_tick r every now now' (s, n))" cap] unfolding Let_def by fastforce
qed

lemma expiry_wakes_publishers_witness:
  "let outs = snd (sweep_tick
      (SetService (''ns'', ''web'') [example_att ''p1'' ''10.0.0.1''] ScopeEndpoint NewRegistry) 90 (2 * time_Second) (2 * time_Second)
      (fold store_run (ready_history (example_att ''p1'' ''10.0.0.1'')) (NewHealthStore time_Second), 0)) in
   ONotify (''ns'', ''web'') \<in> set outs \<and>
   (\<exists>cap q'. deliver cap outs (Some [(''ns'', ''other'')]) = Some q' \<and> (''ns'', ''web'') \<in> set q')"
proof -
  let ?a = "example_att ''p1'' ''10.0.0.1''"
  let ?s = "fold store_run (ready_history ?a) (NewHealthStore time_Second)"
  let ?r = "SetService (''ns'', ''web'') [?a] ScopeEndpoint NewRegistry"
  have r: "reg_ok ?r" "publishes ?r (''ns'', ''web'') ScopeEndpoint ?a" by simp_all
  have o: "\<forall>t. OpSweep t \<in> set (ready_history ?a) \<longrightarrow> t \<le> 9" by (simp add: ready_history_def)
  have "LocalState ?s 9 (ID ?a) \<noteq> StateUnknown" using example_ready by (simp add: ready_frozen)
  moreover have "LocalState ?s (2 * time_Second) (ID ?a) = StateUnknown"
    by (simp add: ready_history_def AdoptInstance_def AcceptLocal_def AcceptPath_def currentLocked_def
        NewHealthStore_def in_order_def example_local_def example_path_def LocalState_held verdict_def
        held_def new_entry_def time_sub_def zero_LocalHealth_def)
  ultimately have l: "LocalState ?s 9 (ID ?a) \<noteq> StateUnknown \<and> LocalState ?s (2 * time_Second) (ID ?a) = StateUnknown \<or>
      PathState ?s 9 (PathKey ?a ScopeEndpoint) \<noteq> StateUnknown \<and> PathState ?s (2 * time_Second) (PathKey ?a ScopeEndpoint) = StateUnknown" by blast
  show ?thesis
    using expiry_wakes_publishers [OF r refl o l, of 90 "2 * time_Second" 0 "[(''ns'', ''other'')]",
        unfolded Let_def, of "1 + length (filter (\<lambda>x. \<exists>k. x = ONotify k) (snd (sweep_tick ?r 90 (2 * time_Second) (2 * time_Second) (?s, 0))))"]
    unfolding Let_def by auto
qed

text \<open>
  The sweeper's period and its prune counter. The interval is positive, a prune happens every
  \<open>prune_every\<close>-th tick and never later than thirty seconds after the last when the interval allows
  it: after m ticks the counter is m modulo \<open>prune_every\<close>.
\<close>

theorem prune_schedule:
  fixes interval :: int
  defines "i \<equiv> sweep_interval interval" and "every \<equiv> prune_every (sweep_interval interval)"
  shows "0 < i \<and> 0 < every \<and> every * i \<le> max i (30 * time_Second) \<and>
    snd (sweep_run r every ts (s, 0)) = int (length ts) mod every"
proof -
  have i: "0 < i" by (simp add: i_def sweep_interval_def)
  have e: "0 < every" by (simp add: every_def prune_every_def Let_def)
  have "every * i \<le> max i (30 * time_Second)"
  proof (cases "(30 * time_Second) div i < 1")
    case True
    then show ?thesis by (simp add: every_def prune_every_def i_def [symmetric] Let_def)
  next
    case False
    then have "every = (30 * time_Second) div i" by (simp add: every_def prune_every_def i_def [symmetric] Let_def)
    moreover have "(30 * time_Second) div i * i \<le> 30 * time_Second"
      using i div_mult_mod_eq [of "30 * time_Second" i] pos_mod_sign [of i "30 * time_Second"] by linarith
    ultimately show ?thesis by simp
  qed
  with i e show ?thesis using prune_counter [OF e, of 0] by simp
qed

text \<open>
  C37. A wakeup can be lost for good. \<^verbatim>\<open>Enqueue\<close> drops a key when the channel is full although what is
  pending there need not be that key; the expiries of such a tick are marked as reported, so no later
  tick reports them again while nothing new arrives.
\<close>

theorem full_channel_loses_expiry:
  assumes "hs_ok s" and "now \<le> now2" and "length q = cap" and "n + 1 < every"
    and "x \<in> set (snd (SweepExpired now s))" and "k \<in> set (expired_owners r x)" and "k \<notin> set q"
    and "sweep_tick r every now now' (s, n) = ((s1, n1), outs)"
  shows "ONotify k \<in> set outs \<and> deliver cap outs (Some q) = Some q \<and> x \<notin> set (snd (SweepExpired now2 s1))"
proof -
  have s1: "s1 = fst (SweepExpired now s)"
    using assms(4,8) by (cases "SweepExpired now s") (auto simp: sweep_tick_def)
  have outs: "outs = concat (map (expired_outs r (hs_ttl s)) (snd (SweepExpired now s)))"
    using tick_outs [of r every now now' s n] by (simp add: assms(8))
  note wf = hs_ok_wf [OF assms(1)]
  note again = sweep_again(1) [OF wf(1) assms(2)] sweep_again(1) [OF wf(2) assms(2)]
  have "set (snd (sweep_half ''local'' lh_NodeName (hs_ttl s) u (hs_local s))) \<inter>
      set (snd (sweep_half ''path'' ph_NodeName (hs_ttl s) u' (hs_path s))) = {}" for u u'
    by (auto simp: sweep_reports [OF wf(1)] sweep_reports [OF wf(2)])
  then have "x \<notin> set (snd (SweepExpired now2 s1))"
    using assms(5) by (simp add: s1 SweepExpired_snd SweepExpired_fst again) blast
  moreover have "ONotify k \<in> set outs"
    unfolding outs using assms(5,6) by (auto simp: expired_outs_def intro!: bexI [of _ x])
  ultimately show ?thesis using deliver_full [OF assms(3)] by simp
qed

lemma full_channel_loses_expiry_witness:
  "\<exists>x s1 n1 outs. sweep_tick (SetService (''ns'', ''web'') [example_att ''p1'' ''10.0.0.1''] ScopeEndpoint NewRegistry) 90
      (2 * time_Second) (2 * time_Second) (fold store_run (ready_history (example_att ''p1'' ''10.0.0.1'')) (NewHealthStore time_Second), 0)
      = ((s1, n1), outs) \<and> ONotify (''ns'', ''web'') \<in> set outs \<and>
    deliver 1 outs (Some [(''ns'', ''other'')]) = Some [(''ns'', ''other'')] \<and> x \<notin> set (snd (SweepExpired (9 * time_Second) s1))"
proof -
  let ?a = "example_att ''p1'' ''10.0.0.1''"
  let ?r = "SetService (''ns'', ''web'') [?a] ScopeEndpoint NewRegistry"
  let ?s = "fold store_run (ready_history ?a) (NewHealthStore time_Second)"
  obtain s1 n1 outs where t: "sweep_tick ?r 90 (2 * time_Second) (2 * time_Second) (?s, 0) = ((s1, n1), outs)"
    by (metis prod.exhaust)
  have x: "Expired ''local'' (ID ?a) ''n1'' \<in> set (snd (SweepExpired (2 * time_Second) ?s))"
    by (simp add: ready_history_def AdoptInstance_def AcceptLocal_def AcceptPath_def currentLocked_def SweepExpired_snd
        NewHealthStore_def in_order_def example_local_def example_path_def sweep_half_def stale_def gm_put_def
        gm_get_def new_entry_def time_sub_def zero_LocalHealth_def)
  obtain a' ks where "reg_Attachment ?r (ID ?a) = (a', ks, True)" "(''ns'', ''web'') \<in> set ks"
    by (rule reg.owners_complete [of ?r "(''ns'', ''web'')" ScopeEndpoint ?a]) simp_all
  then have k: "(''ns'', ''web'') \<in> set (expired_owners ?r (Expired ''local'' (ID ?a) ''n1''))"
    by (simp add: expired_owners_def)
  have ok: "hs_ok ?s" by (rule fold_invariant) (simp_all add: hs_ok_run)
  from full_channel_loses_expiry [OF ok _ _ _ x k _ t, of "9 * time_Second" "[(''ns'', ''other'')]" 1] t
  show ?thesis by auto
qed

end
