(* ===== verification/Controller_Main.thy ===== *)
theory Controller_Main
  imports Control_Plane Expiry
begin

text \<open>
  \<^verbatim>\<open>cmd/controller/main.go\<close> and \<^verbatim>\<open>Serve\<close> of \<^verbatim>\<open>health_server.go\<close>: from the flags to the controller
  that runs. Parsing the flags and the calls into controller-runtime, client-go and gRPC are
  parameters: whether each of them fails.
\<close>

section \<open>The flags\<close>

record controller_flags =
  cf_metricsAddr :: string
  cf_probeAddr :: string
  cf_leaderElect :: bool
  cf_eventsFile :: string
  cf_healthTTL :: int
  cf_healthAddr :: string
  cf_healthAud :: string
  cf_agentNS :: string
  cf_agentSA :: string
  cf_agentLabel :: string
  cf_tlsDir :: string
  cf_requireAuth :: bool
  cf_authMode :: string

definition default_flags :: controller_flags where
  "default_flags = \<lparr>cf_metricsAddr = '':8080'', cf_probeAddr = '':8081'', cf_leaderElect = False, cf_eventsFile = [],
     cf_healthTTL = 3 * time_Second, cf_healthAddr = '':9090'', cf_healthAud = ''health-controller'',
     cf_agentNS = ''multus-service-system'', cf_agentSA = ''multus-service-agent'', cf_agentLabel = ''app=multus-service-agent'',
     cf_tlsDir = ''/etc/multus-service/tls'', cf_requireAuth = True, cf_authMode = ''full''\<rparr>"

section \<open>The health transport\<close>

record Serve =
  se_Addr :: string
  se_TLSCert :: string
  se_TLSKey :: string

datatype serve_error = ListenFailed string go_error | TLSFailed go_error

text \<open>
  \<^verbatim>\<open>Serve.Start\<close> up to the call that serves. The first two arguments are the outcomes of
  \<^verbatim>\<open>net.Listen\<close> and of loading a key pair; the result is the key pair in use, \<open>None\<close> for plaintext.
\<close>

definition serve_Start ::
  "(string \<Rightarrow> go_error option) \<Rightarrow> (string \<Rightarrow> string \<Rightarrow> go_error option) \<Rightarrow> Serve \<Rightarrow> serve_error + (string \<times> string) option" where
  "serve_Start listen load g = (case listen (se_Addr g) of
      Some err \<Rightarrow> Inl (ListenFailed (se_Addr g) err)
    | None \<Rightarrow>
        if se_TLSCert g \<noteq> [] \<and> se_TLSKey g \<noteq> [] then
          (case load (se_TLSCert g) (se_TLSKey g) of
             Some err \<Rightarrow> Inl (TLSFailed err)
           | None \<Rightarrow> Inr (Some (se_TLSCert g, se_TLSKey g)))
        else Inr None)"

section \<open>The wiring\<close>

text \<open>\<^verbatim>\<open>strings.Cut\<close> at the first \<open>=\<close>.\<close>

definition agent_label :: "string \<Rightarrow> (string \<times> string) option" where
  "agent_label s = (case str_splitN2 CHR ''='' s of [k, v] \<Rightarrow> Some (k, v) | _ \<Rightarrow> None)"

definition tls_paths :: "string \<Rightarrow> string \<times> string" where
  "tls_paths dir = (if dir \<noteq> [] then (dir @ ''/tls.crt'', dir @ ''/tls.key'') else ([], []))"

record controller_wiring =
  cw_TTL :: int
  cw_Label :: "string \<times> string"
  cw_Auth :: Authenticator
  cw_RequireAuth :: bool
  cw_Serve :: Serve
  cw_Interval :: int
  cw_HealthEvents :: "nsname list option"
  cw_started :: event

text \<open>\<open>fails msg\<close> says whether the call that is logged as \<open>msg\<close> fails; \<open>Inl msg\<close> is exit 1.\<close>

definition controller_main :: "(string \<Rightarrow> bool) \<Rightarrow> controller_flags \<Rightarrow> string + controller_wiring" where
  "controller_main fails f =
     (if fails ''opening events file'' then Inl ''opening events file''
      else if fails ''creating manager'' then Inl ''creating manager''
      else case agent_label (cf_agentLabel f) of
        None \<Rightarrow> Inl ''--agent-label must be key=value''
      | Some lbl \<Rightarrow>
          if fails ''building TokenReview client'' then Inl ''building TokenReview client''
          else case select_auth (cf_requireAuth f) (cf_authMode f) (cf_healthAud f) (cf_agentNS f) (cf_agentSA f) of
            None \<Rightarrow> Inl ''--auth-mode must be full, token-sa, token or none''
          | Some (auth, req) \<Rightarrow>
              if fails ''registering agent-pod controller'' then Inl ''registering agent-pod controller''
              else if fails ''registering service controller'' then Inl ''registering service controller''
              else case tls_paths (cf_tlsDir f) of (cert, key) \<Rightarrow>
                if fails ''registering health transport'' then Inl ''registering health transport''
                else if fails ''registering expiry sweeper'' then Inl ''registering expiry sweeper''
                else if fails ''adding healthz'' then Inl ''adding healthz''
                else if fails ''adding readyz'' then Inl ''adding readyz''
                else Inr \<lparr>cw_TTL = cf_healthTTL f, cw_Label = lbl, cw_Auth = auth, cw_RequireAuth = req,
                  cw_Serve = \<lparr>se_Addr = cf_healthAddr f, se_TLSCert = cert, se_TLSKey = key\<rparr>,
                  cw_Interval = sweeper_Interval (cf_healthTTL f), cw_HealthEvents = Some [],
                  cw_started = Event ''controller_started'' [(''health_ttl_ms'', VInt (Milliseconds (cf_healthTTL f))),
                    (''health_addr'', VStr (cf_healthAddr f)), (''health_audience'', VStr (cf_healthAud f)),
                    (''tls'', VBool (cert \<noteq> [])),
                    (''auth_mode'', VStr (if \<not> cf_requireAuth f then ''none'' else cf_authMode f))]\<rparr>)"

section \<open>Lemmas\<close>

lemma main_wired:
  assumes "controller_main fails f = Inr w"
  obtains lbl where "agent_label (cf_agentLabel f) = Some lbl" and "cw_Label w = lbl"
    and "select_auth (cf_requireAuth f) (cf_authMode f) (cf_healthAud f) (cf_agentNS f) (cf_agentSA f)
      = Some (cw_Auth w, cw_RequireAuth w)"
    and "cw_Serve w = \<lparr>se_Addr = cf_healthAddr f, se_TLSCert = fst (tls_paths (cf_tlsDir f)), se_TLSKey = snd (tls_paths (cf_tlsDir f))\<rparr>"
    and "cw_TTL w = cf_healthTTL f" and "cw_Interval w = sweeper_Interval (cf_healthTTL f)"
  using assms
  by (auto simp: controller_main_def split: if_splits option.splits prod.splits)

text \<open>The authenticator of the full mode.\<close>

definition full_k :: "controller_flags \<Rightarrow> K8sAuthenticator" where
  "full_k f = \<lparr>ka_Audience = cf_healthAud f, ka_ExpectNamespace = cf_agentNS f, ka_ExpectServiceAccount = cf_agentSA f,
     ka_Authorize = True\<rparr>"

lemma full_mode_wired:
  assumes "controller_main fails f = Inr w" and "cf_requireAuth f" and "cf_authMode f = ''full''"
  shows "cw_Auth w = K8sAuth (full_k f) \<and> cw_RequireAuth w"
  by (rule main_wired [OF assms(1)]) (use assms(2,3) in \<open>simp add: select_auth_def Let_def full_k_def\<close>)

lemma authenticate_None: "authenticate r a api agents md = Inr None \<longleftrightarrow> \<not> r \<or> a = NoAuth"
proof -
  have n: "map_sum id Some x \<noteq> Inr None" for x :: "go_error + AuthenticatedAgent" by (cases x) simp_all
  show ?thesis by (cases a) (simp_all add: authenticate_def Let_def n)
qed

lemma mode_asks:
  "select_auth ra m aud ns sa = Some (a, r) \<Longrightarrow> (r \<longleftrightarrow> ra \<and> m \<noteq> ''none'') \<and> (r \<longrightarrow> a \<noteq> NoAuth)"
  by (auto simp: select_auth_def Let_def split: if_splits)

lemma anonymous_iff:
  assumes "controller_main fails f = Inr w"
  shows "(\<exists>api agents md. authenticate (cw_RequireAuth w) (cw_Auth w) api agents md = Inr None)
    \<longleftrightarrow> \<not> cf_requireAuth f \<or> cf_authMode f = ''none''"
  unfolding authenticate_None by (rule main_wired [OF assms]) (use mode_asks in blast)

section \<open>Properties\<close>

text \<open>
  C26. A controller that starts and listens is as closed as its flags say. The transport is plaintext only
  when no TLS directory was given: with one, it uses that directory's key pair or does not start.
  Streams without an identity are accepted only with authentication off. In the full mode an
  accepted stream speaks for a live agent of the configured namespace and service account, on the
  node the directory has for it.
\<close>

theorem started_controller_is_closed:
  assumes "controller_main fails f = Inr w" and "serve_Start listen load (cw_Serve w) = Inr tls"
  shows "tls = (if cf_tlsDir f = [] then None else Some (cf_tlsDir f @ ''/tls.crt'', cf_tlsDir f @ ''/tls.key'')) \<and>
    ((\<exists>api agents md. authenticate (cw_RequireAuth w) (cw_Auth w) api agents md = Inr None)
      \<longleftrightarrow> \<not> cf_requireAuth f \<or> cf_authMode f = ''none'') \<and>
    (cf_requireAuth f \<and> cf_authMode f = ''full'' \<longrightarrow> (\<forall>api agents md who outs.
      ar_ok agents \<and> sync_start (cw_RequireAuth w) (cw_Auth w) api agents md = Inr (new_Stream who, outs) \<longrightarrow>
      (\<exists>ag. who = Some ag \<and> agent_fits (full_k f) ag \<and> agent_on agents (aa_PodUID ag) (aa_NodeName ag))))"
proof (intro conjI impI allI)
  show "tls = (if cf_tlsDir f = [] then None else Some (cf_tlsDir f @ ''/tls.crt'', cf_tlsDir f @ ''/tls.key''))"
    by (rule main_wired [OF assms(1)])
       (use assms(2) in \<open>auto simp: serve_Start_def tls_paths_def split: option.splits if_splits\<close>)
  show "(\<exists>api agents md. authenticate (cw_RequireAuth w) (cw_Auth w) api agents md = Inr None)
      \<longleftrightarrow> \<not> cf_requireAuth f \<or> cf_authMode f = ''none''" by (rule anonymous_iff [OF assms(1)])
  fix api agents md who outs
  assume f: "cf_requireAuth f \<and> cf_authMode f = ''full''"
    and a: "ar_ok agents \<and> sync_start (cw_RequireAuth w) (cw_Auth w) api agents md = Inr (new_Stream who, outs)"
  have w: "cw_Auth w = K8sAuth (full_k f) \<and> cw_RequireAuth w" using full_mode_wired [OF assms(1)] f by blast
  then have s: "sync_start True (K8sAuth (full_k f)) api agents md = Inr (new_Stream who, outs)" using a by simp
  then obtain token ag where ag: "who = Some ag" "K8s_Authenticate api (full_k f) agents token = Inr ag"
    by (rule start_identity)
  with full.identity [OF ag(2)] start_fits [of agents "full_k f" api md ag outs] s a
  show "\<exists>ag. who = Some ag \<and> agent_fits (full_k f) ag \<and> agent_on agents (aa_PodUID ag) (aa_NodeName ag)" by blast
qed

lemma started_controller_is_closed_witness:
  "\<exists>w. controller_main (\<lambda>_. False) default_flags = Inr w \<and> cw_Label w = (''app'', ''multus-service-agent'') \<and>
    serve_Start (\<lambda>_. None) (\<lambda>_ _. None) (cw_Serve w) = Inr (Some (''/etc/multus-service/tls/tls.crt'', ''/etc/multus-service/tls/tls.key'')) \<and>
    (\<forall>api agents md. authenticate (cw_RequireAuth w) (cw_Auth w) api agents md \<noteq> Inr None)"
proof -
  have l: "agent_label ''app=multus-service-agent'' = Some (''app'', ''multus-service-agent'')"
    by (simp add: agent_label_def str_splitN2_def str_contains_def str_before_def)
  then obtain w where w: "controller_main (\<lambda>_. False) default_flags = Inr w" and wl: "cw_Label w = (''app'', ''multus-service-agent'')"
    by (simp add: controller_main_def default_flags_def select_auth_def tls_paths_def)
  have s: "serve_Start (\<lambda>_. None) (\<lambda>_ _. None) (cw_Serve w)
      = Inr (Some (''/etc/multus-service/tls/tls.crt'', ''/etc/multus-service/tls/tls.key''))"
    by (rule main_wired [OF w]) (simp add: serve_Start_def tls_paths_def default_flags_def)
  have "\<forall>api agents md. authenticate (cw_RequireAuth w) (cw_Auth w) api agents md \<noteq> Inr None"
    using started_controller_is_closed [OF w s] by (simp add: default_flags_def)
  with w wl s show ?thesis by blast
qed

end
