(* ===== verification/Probe_Machine.thy ===== *)
theory Probe_Machine
  imports Model
begin

text \<open>
  \<^verbatim>\<open>internal/agent/probe/state.go\<close> and the types of \<^verbatim>\<open>probe.go\<close>: one debounced path state. The
  reference it is proved equivalent to reads the whole history of samples.
\<close>

section \<open>Samples\<close>

datatype ErrorKind = ErrKNone | ErrKTimeout | ErrKUnreachable | ErrKSocket | ErrKSend

record Result =
  res_Success :: bool
  res_RTT :: int
  res_ErrorKind :: ErrorKind
  res_Detail :: string
  res_ObservedAt :: int

record Spec =
  ps_ScopeKey :: string
  ps_Scope :: ProbeScope
  ps_NAD :: string
  ps_AttachmentID :: string
  ps_PodName :: string
  ps_NetnsPath :: string
  ps_Interface :: string
  ps_SourceIP :: string
  ps_Target :: string
  ps_Timeout :: int

section \<open>The machine\<close>

record Machine =
  mc_FailureThreshold :: int
  mc_SuccessThreshold :: int
  mc_state :: State
  mc_consecutiveSuccess :: int
  mc_consecutiveFailure :: int
  mc_samples :: int

definition NewMachine :: "int \<Rightarrow> int \<Rightarrow> Machine" where
  "NewMachine failureThreshold successThreshold =
     \<lparr>mc_FailureThreshold = (if failureThreshold < 1 then 1 else failureThreshold),
      mc_SuccessThreshold = (if successThreshold < 1 then 1 else successThreshold),
      mc_state = StateUnknown, mc_consecutiveSuccess = 0, mc_consecutiveFailure = 0, mc_samples = 0\<rparr>"

definition Streak :: "Machine \<Rightarrow> int \<times> int" where
  "Streak m = (mc_consecutiveSuccess m, mc_consecutiveFailure m)"

text \<open>The new machine, and from, to and changed.\<close>

definition Observe :: "Result \<Rightarrow> Machine \<Rightarrow> Machine \<times> State \<times> State \<times> bool" where
  "Observe r m = (let from = mc_state m; m1 = m\<lparr>mc_samples := mc_samples m + 1\<rparr>;
       m2 = (if res_Success r then
               let m' = m1\<lparr>mc_consecutiveSuccess := mc_consecutiveSuccess m1 + 1, mc_consecutiveFailure := 0\<rparr> in
               if mc_state m' \<noteq> StateHealthy \<and> mc_consecutiveSuccess m' \<ge> mc_SuccessThreshold m'
               then m'\<lparr>mc_state := StateHealthy\<rparr> else m'
             else
               let m' = m1\<lparr>mc_consecutiveFailure := mc_consecutiveFailure m1 + 1, mc_consecutiveSuccess := 0\<rparr> in
               if mc_state m' \<noteq> StateUnhealthy \<and> mc_consecutiveFailure m' \<ge> mc_FailureThreshold m'
               then m'\<lparr>mc_state := StateUnhealthy\<rparr> else m') in
     (m2, from, mc_state m2, from \<noteq> mc_state m2))"

definition observe_all :: "Result list \<Rightarrow> Machine \<Rightarrow> Machine" where
  "observe_all rs m = fold (\<lambda>r. fst \<circ> Observe r) rs m"

section \<open>The reference\<close>

text \<open>Somewhere in the history there are n samples \<open>b\<close> in a row, and none of length k of the other kind since.\<close>

definition has_run :: "bool \<Rightarrow> nat \<Rightarrow> bool list \<Rightarrow> bool" where
  "has_run b n h \<longleftrightarrow> (\<exists>pre post. h = pre @ replicate n b @ post)"

definition last_run :: "bool \<Rightarrow> nat \<Rightarrow> nat \<Rightarrow> bool list \<Rightarrow> bool" where
  "last_run b n k h \<longleftrightarrow> (\<exists>pre post. h = pre @ replicate n b @ post \<and> \<not> has_run (\<not> b) k post)"

text \<open>The length of the run at the end.\<close>

definition tail_run :: "bool \<Rightarrow> bool list \<Rightarrow> nat" where
  "tail_run b h = length (takeWhile (\<lambda>x. x = b) (rev h))"

section \<open>Lemmas\<close>

lemma tail_run_snoc [simp]: "tail_run b (h @ [x]) = (if x = b then Suc (tail_run b h) else 0)"
  by (simp add: tail_run_def)

lemma tail_run_Nil [simp]: "tail_run b [] = 0"
  by (simp add: tail_run_def)

lemma replicate_snoc: "replicate (Suc n) b = replicate n b @ [b]"
  by (simp add: replicate_append_same)

lemma tail_run_split: "n \<le> tail_run b h \<longleftrightarrow> (\<exists>pre. h = pre @ replicate n b)"
proof (induction n arbitrary: h)
  case (Suc n)
  show ?case
  proof (cases h rule: rev_cases)
    case Nil
    then show ?thesis by simp
  next
    case (snoc ys y)
    have "Suc n \<le> tail_run b h \<longleftrightarrow> y = b \<and> n \<le> tail_run b ys" by (simp add: snoc)
    also have "\<dots> \<longleftrightarrow> y = b \<and> (\<exists>pre. ys = pre @ replicate n b)" by (simp only: Suc)
    also have "\<dots> \<longleftrightarrow> (\<exists>pre. h = pre @ replicate (Suc n) b)"
      unfolding snoc replicate_snoc by (auto simp del: replicate.simps)
    finally show ?thesis .
  qed
qed simp

lemma has_run_Nil: "0 < n \<Longrightarrow> \<not> has_run b n []"
  by (simp add: has_run_def)

lemma has_run_snoc: "has_run b n (h @ [x]) \<longleftrightarrow> has_run b n h \<or> n \<le> tail_run b (h @ [x])"
proof
  assume "has_run b n (h @ [x])"
  then obtain pre post where e: "h @ [x] = pre @ replicate n b @ post" by (auto simp: has_run_def)
  show "has_run b n h \<or> n \<le> tail_run b (h @ [x])"
  proof (cases post rule: rev_cases)
    case Nil
    then show ?thesis using e unfolding tail_run_split by auto
  next
    case (snoc ys y)
    then show ?thesis using e by (auto simp: has_run_def)
  qed
next
  assume "has_run b n h \<or> n \<le> tail_run b (h @ [x])"
  then show "has_run b n (h @ [x])"
    unfolding tail_run_split has_run_def by (metis append.assoc append.right_neutral)
qed

lemma tail_run_block: "0 < n \<Longrightarrow> tail_run (\<not> b) (pre @ replicate n b @ post) = tail_run (\<not> b) post"
proof (induction post rule: rev_induct)
  case Nil
  then obtain m where "n = Suc m" by (cases n) auto
  then have "pre @ replicate n b = (pre @ replicate m b) @ [b]" by (simp add: replicate_append_same)
  then have "tail_run (\<not> b) (pre @ replicate n b) = 0" by (simp only: tail_run_snoc) simp
  then show ?case by simp
next
  case (snoc x post)
  have "pre @ replicate n b @ post @ [x] = (pre @ replicate n b @ post) @ [x]" by simp
  then show ?case using snoc by (simp only: tail_run_snoc)
qed

lemma last_run_snoc:
  assumes "0 < n" and "0 < k"
  shows "last_run b n k (h @ [x]) \<longleftrightarrow>
    (if x = b then n \<le> tail_run b (h @ [x]) \<or> last_run b n k h
     else last_run b n k h \<and> \<not> k \<le> tail_run (\<not> b) (h @ [x]))" (is "?L \<longleftrightarrow> ?R")
proof
  assume ?L
  then obtain pre post where e: "h @ [x] = pre @ replicate n b @ post" and no: "\<not> has_run (\<not> b) k post"
    by (auto simp: last_run_def)
  show ?R
  proof (cases post rule: rev_cases)
    case Nil
    then have "n \<le> tail_run b (h @ [x])" using e unfolding tail_run_split by auto
    then show ?thesis using assms(1) by (auto split: if_splits)
  next
    case (snoc ys y)
    then have h: "h = pre @ replicate n b @ ys" and y: "y = x" using e by auto
    from no have no': "\<not> has_run (\<not> b) k ys" "\<not> k \<le> tail_run (\<not> b) (ys @ [x])"
      unfolding snoc has_run_snoc y by blast+
    then have "last_run b n k h" using h by (auto simp: last_run_def)
    moreover have "tail_run (\<not> b) (h @ [x]) = tail_run (\<not> b) (ys @ [x])"
      by (simp add: h tail_run_block [OF assms(1)])
    ultimately show ?thesis using no'(2) by (simp only: if_True if_False simp_thms split: if_split)
  qed
next
  assume r: ?R
  show ?L
  proof (cases "x = b \<and> n \<le> tail_run b (h @ [x])")
    case True
    then obtain pre where "h @ [x] = pre @ replicate n b @ []" unfolding tail_run_split by auto
    then show ?thesis using has_run_Nil [OF assms(2)] unfolding last_run_def by blast
  next
    case False
    with r have "last_run b n k h" and k: "x \<noteq> b \<Longrightarrow> \<not> k \<le> tail_run (\<not> b) (h @ [x])" by (auto split: if_splits)
    then obtain pre post where h: "h = pre @ replicate n b @ post" and no: "\<not> has_run (\<not> b) k post"
      by (auto simp: last_run_def)
    have "\<not> k \<le> tail_run (\<not> b) (post @ [x])"
      using k assms(2) tail_run_block [OF assms(1), of b pre "post @ [x]"] by (cases "x = b") (simp_all add: h del: tail_run_snoc, simp)
    with no have "\<not> has_run (\<not> b) k (post @ [x])" unfolding has_run_snoc by blast
    with h show ?thesis unfolding last_run_def by (intro exI [of _ pre] exI [of _ "post @ [x]"]) simp
  qed
qed

lemma last_run_Nil: "0 < n \<Longrightarrow> \<not> last_run b n k []"
  by (simp add: last_run_def)

text \<open>The machine after a history, in terms of the history alone.\<close>

definition tracks :: "nat \<Rightarrow> nat \<Rightarrow> bool list \<Rightarrow> Machine \<Rightarrow> bool" where
  "tracks f g h m \<longleftrightarrow>
     mc_FailureThreshold m = int f \<and> mc_SuccessThreshold m = int g \<and> mc_samples m = int (length h) \<and>
     mc_consecutiveSuccess m = int (tail_run True h) \<and> mc_consecutiveFailure m = int (tail_run False h) \<and>
     (mc_state m = StateHealthy \<longleftrightarrow> last_run True g f h) \<and> (mc_state m = StateUnhealthy \<longleftrightarrow> last_run False f g h)"

lemma tracks_step:
  assumes "tracks f g h m" and "0 < f" and "0 < g"
  shows "tracks f g (h @ [res_Success r]) (fst (Observe r m))"
proof -
  note S = last_run_snoc [OF assms(3,2), where b = True and h = h]
    and F = last_run_snoc [OF assms(2,3), where b = False and h = h]
  have one: "\<not> (last_run True g f h \<and> last_run False f g h)" using assms(1) by (auto simp: tracks_def)
  show ?thesis
  proof (cases "res_Success r")
    case True
    then show ?thesis using assms(1) one S [of True] F [of True]
      by (auto simp: tracks_def Observe_def Let_def)
  next
    case False
    then show ?thesis using assms(1) one S [of False] F [of False]
      by (auto simp: tracks_def Observe_def Let_def)
  qed
qed

lemma tracks_all:
  assumes "tracks f g h m" and "0 < f" and "0 < g"
  shows "tracks f g (h @ map res_Success rs) (observe_all rs m)"
  using assms(1)
proof (induction rs arbitrary: h m)
  case (Cons r rs)
  from Cons.IH [OF tracks_step [OF Cons.prems assms(2,3), of r]] show ?case by (simp add: observe_all_def)
qed (simp add: observe_all_def)

definition threshold :: "int \<Rightarrow> nat" where
  "threshold t = nat (max 1 t)"

lemma tracks_New: "tracks (threshold f) (threshold g) [] (NewMachine f g)"
  by (auto simp: tracks_def NewMachine_def threshold_def last_run_def)

section \<open>Properties\<close>

text \<open>
  C29. Hysteresis, against the whole history. After any samples the machine is Healthy exactly when
  somewhere \<open>SuccessThreshold\<close> successes came in a row and never \<open>FailureThreshold\<close> failures in a row
  since; Unhealthy exactly the other way round; Unknown while neither run ever came. Thresholds below
  one count as one.
\<close>

theorem hysteresis_reads_history:
  "mc_state (observe_all rs (NewMachine f g)) = (let h = map res_Success rs; F = threshold f; G = threshold g in
     if last_run True G F h then StateHealthy else if last_run False F G h then StateUnhealthy else StateUnknown)"
proof -
  have "tracks (threshold f) (threshold g) ([] @ map res_Success rs) (observe_all rs (NewMachine f g))"
    by (rule tracks_all [OF tracks_New]) (simp_all add: threshold_def)
  then show ?thesis by (cases "mc_state (observe_all rs (NewMachine f g))") (auto simp: tracks_def Let_def)
qed

end
