(* ===== verification/Probe_Manager.thy ===== *)
theory Probe_Manager
  imports Probe_Machine
begin

text \<open>
  \<^verbatim>\<open>internal/agent/probe/manager.go\<close>: the targets, one machine per scope key, and the probe
  round. A round is a goroutine of its own: it reads the targets, takes its samples, and folds
  them in one critical section at a time, between which the agent may call \<^verbatim>\<open>SetTargets\<close> or
  \<^verbatim>\<open>TakeChanged\<close>. The relation \<open>probe_step\<close> has one rule per critical section; the outcome of a
  sample is any result.
\<close>

section \<open>State\<close>

record Manager =
  mg_Interval :: int
  mg_FailureThreshold :: int
  mg_SuccessThreshold :: int
  mg_NodeName :: string
  mg_targets :: "(string, Spec) gomap"
  mg_machines :: "(string, Machine) gomap"
  mg_changed :: "(string, bool) gomap"
  mg_inFlight :: bool
  mg_wake :: bool

definition NewManager :: "int \<Rightarrow> int \<Rightarrow> int \<Rightarrow> string \<Rightarrow> Manager" where
  "NewManager interval failureThreshold successThreshold nodeName =
     \<lparr>mg_Interval = interval, mg_FailureThreshold = failureThreshold, mg_SuccessThreshold = successThreshold,
      mg_NodeName = nodeName, mg_targets = [], mg_machines = [], mg_changed = [], mg_inFlight = False, mg_wake = False\<rparr>"

section \<open>Operations\<close>

definition fresh_machine :: "Manager \<Rightarrow> string \<Rightarrow> (string, Machine) gomap \<Rightarrow> (string, Machine) gomap" where
  "fresh_machine m k ms = (if gm_get ms k = None
     then gm_put k (NewMachine (mg_FailureThreshold m) (mg_SuccessThreshold m)) ms else ms)"

definition SetTargets :: "Spec list \<Rightarrow> Manager \<Rightarrow> Manager" where
  "SetTargets specs m = (let nxt = gm_put_all ps_ScopeKey id specs [];
       kept = gm_drop (\<lambda>k _. gm_get nxt k = None) (mg_machines m);
       changed = gm_drop (\<lambda>k _. gm_get (mg_machines m) k \<noteq> None \<and> gm_get nxt k = None) (mg_changed m) in
     m\<lparr>mg_targets := nxt, mg_machines := fold (fresh_machine m) (gm_keys nxt) kept, mg_changed := changed\<rparr>)"

definition state_of :: "Manager \<Rightarrow> int \<Rightarrow> string \<Rightarrow> PathHealth option" where
  "state_of m now k = (case gm_get (mg_machines m) k of
      None \<Rightarrow> None
    | Some mc \<Rightarrow> if mc_state mc = StateUnknown then None
        else (case gm_get (mg_targets m) k of
            None \<Rightarrow> None
          | Some s \<Rightarrow> Some \<lparr>ph_Scope = ps_Scope s, ph_ScopeID = k, ph_NodeName = mg_NodeName m, ph_NAD = ps_NAD s,
              ph_Target = ps_Target s, ph_PathReady = (mc_state mc = StateHealthy), ph_ObservedAt = now\<rparr>))"

definition States :: "int \<Rightarrow> Manager \<Rightarrow> PathHealth list" where
  "States now m = List.map_filter (state_of m now) (sort (gm_keys (mg_targets m)))"

definition TakeChanged :: "Manager \<Rightarrow> Manager \<times> (string, bool) gomap" where
  "TakeChanged m = (m\<lparr>mg_changed := []\<rparr>, mg_changed m)"

definition scope_str :: "ProbeScope \<Rightarrow> string" where
  "scope_str sc = (case sc of ScopeEndpoint \<Rightarrow> ''Endpoint'' | ScopeNode \<Rightarrow> ''Node'' | ScopeUnset \<Rightarrow> [])"

definition state_str :: "State \<Rightarrow> string" where
  "state_str st = (case st of StateHealthy \<Rightarrow> ''Healthy'' | StateUnhealthy \<Rightarrow> ''Unhealthy'' | StateUnknown \<Rightarrow> ''Unknown'')"

definition error_str :: "ErrorKind \<Rightarrow> string" where
  "error_str e = (case e of ErrKNone \<Rightarrow> [] | ErrKTimeout \<Rightarrow> ''timeout'' | ErrKUnreachable \<Rightarrow> ''unreachable''
     | ErrKSocket \<Rightarrow> ''socket'' | ErrKSend \<Rightarrow> ''send'')"

text \<open>
  One turn of the loop at the end of a round: the new manager, the events, and whether the state
  moved. The round-trip time in the event is in nanoseconds, not the float of the source.
\<close>

definition fold_sample :: "Spec \<Rightarrow> Result \<Rightarrow> Manager \<Rightarrow> Manager \<times> event list \<times> bool" where
  "fold_sample s r m = (let probed = Event ''path_probe'' [(''scope_id'', VStr (ps_ScopeKey s)), (''scope'', VStr (scope_str (ps_Scope s))),
         (''attachment_id'', VStr (ps_AttachmentID s)), (''pod'', VStr (ps_PodName s)), (''interface'', VStr (ps_Interface s)),
         (''source_ip'', VStr (ps_SourceIP s)), (''target'', VStr (ps_Target s)), (''nad'', VStr (ps_NAD s)),
         (''success'', VBool (res_Success r)), (''rtt_ms'', VInt (res_RTT r)), (''error_kind'', VStr (error_str (res_ErrorKind r)))] in
     case gm_get (mg_machines m) (ps_ScopeKey s) of
       None \<Rightarrow> (m, [probed], False)
     | Some mc \<Rightarrow> (case Observe r mc of (mc', from, to, changed) \<Rightarrow>
         let m1 = m\<lparr>mg_machines := gm_put (ps_ScopeKey s) mc' (mg_machines m)\<rparr>;
             m2 = (if changed then m1\<lparr>mg_changed := gm_put (ps_ScopeKey s) True (mg_changed m1)\<rparr> else m1) in
         (m2, probed # (if changed then [Event ''path_state_changed'' [(''scope_id'', VStr (ps_ScopeKey s)),
              (''scope'', VStr (scope_str (ps_Scope s))), (''attachment_id'', VStr (ps_AttachmentID s)), (''pod'', VStr (ps_PodName s)),
              (''interface'', VStr (ps_Interface s)), (''source_ip'', VStr (ps_SourceIP s)), (''target'', VStr (ps_Target s)),
              (''from'', VStr (state_str from)), (''to'', VStr (state_str to)),
              (''consecutive_success'', VInt (fst (Streak mc'))), (''consecutive_failure'', VInt (snd (Streak mc')))]] else []),
          changed)))"

section \<open>The probe loop\<close>

text \<open>
  \<open>py_round\<close> is the running round: the targets still to fold in, and \<^verbatim>\<open>anyChanged\<close>. \<open>py_owed\<close> says
  that the agent received a wakeup and has not called \<^verbatim>\<open>TakeChanged\<close> since.
\<close>

record probe_sys =
  py_mgr :: Manager
  py_round :: "(Spec list \<times> bool) option"
  py_owed :: bool

text \<open>The steps by name: what the agent calls, the ticks of the loop, and what the round does.\<close>

datatype probe_op = PTargets "Spec list" | PTake | PSkip | PIdle | PStart | PSample Spec Result | PFinish | PWoken

inductive probe_step :: "probe_op \<Rightarrow> probe_sys \<Rightarrow> probe_sys \<Rightarrow> bool" where
  targets: "probe_step (PTargets specs) y (y\<lparr>py_mgr := SetTargets specs (py_mgr y)\<rparr>)"
| take: "probe_step PTake y (y\<lparr>py_mgr := fst (TakeChanged (py_mgr y)), py_owed := False\<rparr>)"
| skip: "mg_inFlight (py_mgr y) \<Longrightarrow> probe_step PSkip y y"
| idle: "\<not> mg_inFlight (py_mgr y) \<Longrightarrow> mg_targets (py_mgr y) = [] \<Longrightarrow> probe_step PIdle y y"
| start: "\<not> mg_inFlight (py_mgr y) \<Longrightarrow> mg_targets (py_mgr y) \<noteq> [] \<Longrightarrow> mset specs = mset (map snd (mg_targets (py_mgr y))) \<Longrightarrow>
    probe_step PStart y (y\<lparr>py_mgr := (py_mgr y)\<lparr>mg_inFlight := True\<rparr>, py_round := Some (specs, False)\<rparr>)"
| sample: "py_round y = Some (s # specs, any) \<Longrightarrow> fold_sample s r (py_mgr y) = (m', evs, changed) \<Longrightarrow>
    probe_step (PSample s r) y (y\<lparr>py_mgr := m', py_round := Some (specs, any \<or> changed)\<rparr>)"
| finish: "py_round y = Some ([], any) \<Longrightarrow>
    probe_step PFinish y (y\<lparr>py_mgr := (py_mgr y)\<lparr>mg_wake := mg_wake (py_mgr y) \<or> any, mg_inFlight := False\<rparr>, py_round := None\<rparr>)"
| woken: "mg_wake (py_mgr y) \<Longrightarrow> probe_step PWoken y (y\<lparr>py_mgr := (py_mgr y)\<lparr>mg_wake := False\<rparr>, py_owed := True\<rparr>)"

definition probe_init :: "int \<Rightarrow> int \<Rightarrow> int \<Rightarrow> string \<Rightarrow> probe_sys" where
  "probe_init i f g node = \<lparr>py_mgr = NewManager i f g node, py_round = None, py_owed = False\<rparr>"

inductive probe_reach :: "int \<Rightarrow> int \<Rightarrow> int \<Rightarrow> string \<Rightarrow> probe_sys \<Rightarrow> bool" for i f g node where
  init: "probe_reach i f g node (probe_init i f g node)"
| step: "probe_reach i f g node y \<Longrightarrow> probe_step op y y' \<Longrightarrow> probe_reach i f g node y'"

inductive_cases probe_stepE: "probe_step op y y'"

text \<open>The same with the steps taken, oldest first.\<close>

inductive probe_run :: "int \<Rightarrow> int \<Rightarrow> int \<Rightarrow> string \<Rightarrow> probe_op list \<Rightarrow> probe_sys \<Rightarrow> bool" for i f g node where
  start: "probe_run i f g node [] (probe_init i f g node)"
| step: "probe_run i f g node ops y \<Longrightarrow> probe_step op y y' \<Longrightarrow> probe_run i f g node (ops @ [op]) y'"

text \<open>
  What a run did to one key, read off the steps alone: the spec the last \<^verbatim>\<open>SetTargets\<close> gave it, and
  the samples taken of it since it was last added, oldest first; \<open>None\<close> while it is not a target.
\<close>

fun aimed_step :: "string \<Rightarrow> probe_op \<Rightarrow> Spec option \<Rightarrow> Spec option" where
  "aimed_step k (PTargets specs) t = find (\<lambda>s. ps_ScopeKey s = k) (rev specs)"
| "aimed_step k _ t = t"

definition aimed_at :: "string \<Rightarrow> probe_op list \<Rightarrow> Spec option" where
  "aimed_at k ops = fold (aimed_step k) ops None"

fun sampled_step :: "string \<Rightarrow> probe_op \<Rightarrow> (Spec \<times> Result) list option \<Rightarrow> (Spec \<times> Result) list option" where
  "sampled_step k (PTargets specs) h = (if k \<in> ps_ScopeKey ` set specs then Some (case h of None \<Rightarrow> [] | Some l \<Rightarrow> l) else None)"
| "sampled_step k (PSample s r) h = (if ps_ScopeKey s = k then map_option (\<lambda>l. l @ [(s, r)]) h else h)"
| "sampled_step k _ h = h"

definition sampled :: "string \<Rightarrow> probe_op list \<Rightarrow> (Spec \<times> Result) list option" where
  "sampled k ops = fold (sampled_step k) ops None"

section \<open>Lemmas\<close>

lemma fresh_get: "gm_get (fold (fresh_machine m) ks ms) k =
    (case gm_get ms k of Some mc \<Rightarrow> Some mc | None \<Rightarrow> if k \<in> set ks
       then Some (NewMachine (mg_FailureThreshold m) (mg_SuccessThreshold m)) else None)"
  by (induction ks arbitrary: ms) (auto simp: fresh_machine_def split: option.splits)

lemma fresh_wf: "gm_wf ms \<Longrightarrow> gm_wf (fold (fresh_machine m) ks ms)"
  by (induction ks arbitrary: ms) (auto simp: fresh_machine_def)

definition has_key :: "Spec list \<Rightarrow> string \<Rightarrow> bool" where
  "has_key specs k \<longleftrightarrow> k \<in> ps_ScopeKey ` set specs"

lemma next_get: "gm_get (gm_put_all ps_ScopeKey id specs []) k = find (\<lambda>s. ps_ScopeKey s = k) (rev specs)"
  by (auto simp: gm_get_put_all split: option.split)

lemma next_None: "gm_get (gm_put_all ps_ScopeKey id specs []) k = None \<longleftrightarrow> \<not> has_key specs k"
  by (auto simp: next_get find_None_iff has_key_def)

lemma SetTargets_targets: "mg_targets (SetTargets specs m) = gm_put_all ps_ScopeKey id specs []"
  by (simp add: SetTargets_def Let_def)

lemma SetTargets_machines:
  assumes "gm_wf (mg_machines m)"
  shows "gm_get (mg_machines (SetTargets specs m)) k = (if has_key specs k
    then Some (case gm_get (mg_machines m) k of Some mc \<Rightarrow> mc
      | None \<Rightarrow> NewMachine (mg_FailureThreshold m) (mg_SuccessThreshold m)) else None)"
  using assms by (auto simp: SetTargets_def Let_def fresh_get gm_get_drop gm_keys_iff next_None split: option.split)

lemma SetTargets_changed:
  assumes "gm_wf (mg_changed m)"
  shows "gm_get (mg_changed (SetTargets specs m)) k = (if gm_get (mg_machines m) k \<noteq> None \<and> \<not> has_key specs k
    then None else gm_get (mg_changed m) k)"
  using assms by (auto simp: SetTargets_def Let_def gm_get_drop next_None split: option.split)

lemma SetTargets_rest [simp]: "mg_inFlight (SetTargets specs m) = mg_inFlight m" "mg_wake (SetTargets specs m) = mg_wake m"
  "mg_NodeName (SetTargets specs m) = mg_NodeName m"
  "mg_FailureThreshold (SetTargets specs m) = mg_FailureThreshold m" "mg_SuccessThreshold (SetTargets specs m) = mg_SuccessThreshold m"
  by (simp_all add: SetTargets_def Let_def)

text \<open>Machines and targets have the same keys; every machine is one that its samples explain.\<close>

definition mgr_ok :: "int \<Rightarrow> int \<Rightarrow> Manager \<Rightarrow> bool" where
  "mgr_ok f g m \<longleftrightarrow> mg_FailureThreshold m = f \<and> mg_SuccessThreshold m = g \<and>
     gm_wf (mg_targets m) \<and> gm_wf (mg_machines m) \<and> gm_wf (mg_changed m) \<and>
     (\<forall>k. gm_get (mg_targets m) k = None \<longleftrightarrow> gm_get (mg_machines m) k = None) \<and>
     (\<forall>k s. gm_get (mg_targets m) k = Some s \<longrightarrow> ps_ScopeKey s = k) \<and>
     (\<forall>k. gm_get (mg_changed m) k \<noteq> None \<longrightarrow> gm_get (mg_machines m) k \<noteq> None) \<and>
     (\<forall>k mc. gm_get (mg_machines m) k = Some mc \<longrightarrow> (\<exists>h. tracks (threshold f) (threshold g) h mc))"

lemma mgr_ok_New: "mgr_ok f g (NewManager i f g node)"
  by (simp add: mgr_ok_def NewManager_def)

lemma next_Some:
  assumes "gm_get (gm_put_all ps_ScopeKey id specs []) k = Some s"
  shows "ps_ScopeKey s = k \<and> s \<in> set specs"
proof -
  from assms have "find (\<lambda>s. ps_ScopeKey s = k) (rev specs) = Some s" by (simp only: next_get)
  then show ?thesis by (metis (mono_tags, lifting) find_Some_iff nth_mem set_rev)
qed

lemma mgr_ok_Set:
  assumes "mgr_ok f g m" shows "mgr_ok f g (SetTargets specs m)"
proof -
  let ?m = "SetTargets specs m"
  note ok = assms [unfolded mgr_ok_def]
  have wf: "gm_wf (mg_machines m)" "gm_wf (mg_changed m)" using ok by blast+
  have "gm_wf (mg_targets ?m)" "gm_wf (mg_machines ?m)" "gm_wf (mg_changed ?m)"
    using wf by (simp_all add: SetTargets_def Let_def fresh_wf)
  moreover have "gm_get (mg_targets ?m) k = None \<longleftrightarrow> gm_get (mg_machines ?m) k = None" for k
    by (simp add: SetTargets_targets next_None SetTargets_machines [OF wf(1)])
  moreover have "ps_ScopeKey s = k" if "gm_get (mg_targets ?m) k = Some s" for k s
    using next_Some [of specs k s] that by (simp add: SetTargets_targets)
  moreover have "gm_get (mg_machines ?m) k \<noteq> None" if "gm_get (mg_changed ?m) k \<noteq> None" for k
    using that ok by (auto simp: SetTargets_machines [OF wf(1)] SetTargets_changed [OF wf(2)] split: if_splits)
  moreover have "\<exists>h. tracks (threshold f) (threshold g) h mc" if "gm_get (mg_machines ?m) k = Some mc" for k mc
    using that ok tracks_New [of f g]
    by (auto simp: SetTargets_machines [OF wf(1)] split: if_splits option.splits)
  ultimately show ?thesis using ok unfolding mgr_ok_def SetTargets_rest by blast
qed

lemma mgr_ok_sample:
  assumes ok: "mgr_ok f g m" and st: "fold_sample s r m = (m', evs, changed)"
  shows "mgr_ok f g m'"
proof (cases "gm_get (mg_machines m) (ps_ScopeKey s)")
  case None
  then show ?thesis using assms by (auto simp: fold_sample_def Let_def)
next
  case (Some mc)
  obtain mc' st1 st2 ch where o: "Observe r mc = (mc', st1, st2, ch)" by (metis prod_cases4)
  from ok Some obtain h where "tracks (threshold f) (threshold g) h mc" unfolding mgr_ok_def by blast
  from tracks_step [OF this, of r] have t: "tracks (threshold f) (threshold g) (h @ [res_Success r]) mc'"
    by (simp add: o threshold_def)
  have m': "mg_machines m' = gm_put (ps_ScopeKey s) mc' (mg_machines m)" "mg_targets m' = mg_targets m"
    "mg_FailureThreshold m' = mg_FailureThreshold m" "mg_SuccessThreshold m' = mg_SuccessThreshold m"
    "mg_changed m' = mg_changed m \<or> mg_changed m' = gm_put (ps_ScopeKey s) True (mg_changed m)"
    using st Some o by (auto simp: fold_sample_def Let_def split: if_splits)
  show ?thesis using ok m' t Some unfolding mgr_ok_def by auto
qed

lemma mgr_ok_step: "probe_step op y y' \<Longrightarrow> mgr_ok f g (py_mgr y) \<Longrightarrow> mgr_ok f g (py_mgr y')"
proof (induction rule: probe_step.induct)
  case (targets specs y)
  then show ?case by (simp add: mgr_ok_Set)
next
  case (sample y s specs any r m' evs changed)
  then show ?case by (simp add: mgr_ok_sample)
qed (auto simp: mgr_ok_def TakeChanged_def)


definition sys_ok :: "int \<Rightarrow> int \<Rightarrow> probe_sys \<Rightarrow> bool" where
  "sys_ok f g y \<longleftrightarrow> mgr_ok f g (py_mgr y) \<and> (mg_inFlight (py_mgr y) \<longleftrightarrow> py_round y \<noteq> None) \<and>
     (mg_changed (py_mgr y) \<noteq> [] \<longrightarrow> mg_wake (py_mgr y) \<or> py_owed y \<or> (\<exists>specs. py_round y = Some (specs, True)))"

lemma fold_sample_signals:
  assumes "fold_sample s r m = (m', evs, changed)"
  shows "mg_inFlight m' = mg_inFlight m" and "mg_wake m' = mg_wake m"
    and "mg_changed m' \<noteq> [] \<Longrightarrow> changed \<or> mg_changed m \<noteq> []"
  using assms by (auto simp: fold_sample_def Let_def split: option.splits prod.splits if_splits)

lemma SetTargets_no_new_change: "mg_changed m = [] \<Longrightarrow> mg_changed (SetTargets specs m) = []"
  by (simp add: SetTargets_def Let_def gm_drop_def)

lemma sys_ok_step: "probe_step op y y' \<Longrightarrow> sys_ok f g y \<Longrightarrow> sys_ok f g y'"
proof (induction rule: probe_step.induct)
  case (targets specs y)
  then show ?case using SetTargets_no_new_change [of "py_mgr y" specs] by (auto simp: sys_ok_def mgr_ok_Set)
next
  case (sample y s specs any r m' evs changed)
  note sig = fold_sample_signals [OF sample(2)]
  have "mg_inFlight (py_mgr y)" using sample(1,3) by (simp add: sys_ok_def)
  moreover have "mg_wake m' \<or> py_owed y \<or> any \<or> changed" if "mg_changed m' \<noteq> []"
    using sig(2) sig(3) [OF that] sample(1,3) by (auto simp: sys_ok_def)
  moreover have "mgr_ok f g m'" by (rule mgr_ok_sample [OF _ sample(2)]) (use sample(3) in \<open>simp add: sys_ok_def\<close>)
  ultimately show ?case using sig(1) by (auto simp: sys_ok_def)
qed (auto simp: sys_ok_def mgr_ok_def TakeChanged_def)

lemma sys_ok_reach: "probe_reach i f g node y \<Longrightarrow> sys_ok f g y"
proof (induction rule: probe_reach.induct)
  case init
  then show ?case by (simp add: sys_ok_def probe_init_def mgr_ok_New) (simp add: NewManager_def)
next
  case (step y op y')
  then show ?case using sys_ok_step by blast
qed

lemma run_reach: "probe_run i f g node ops y \<Longrightarrow> probe_reach i f g node y"
  by (induction rule: probe_run.induct) (auto intro: probe_reach.intros)

lemma reach_run: "probe_reach i f g node y \<Longrightarrow> \<exists>ops. probe_run i f g node ops y"
  by (induction rule: probe_reach.induct) (auto intro: probe_run.intros)

text \<open>What the manager holds of a key is what the run did to it.\<close>

definition in_step :: "int \<Rightarrow> int \<Rightarrow> string \<Rightarrow> probe_op list \<Rightarrow> Manager \<Rightarrow> bool" where
  "in_step f g k ops m \<longleftrightarrow> gm_get (mg_targets m) k = aimed_at k ops \<and>
     (case gm_get (mg_machines m) k of None \<Rightarrow> sampled k ops = None
      | Some mc \<Rightarrow> \<exists>l. sampled k ops = Some l \<and> tracks (threshold f) (threshold g) (map (res_Success \<circ> snd) l) mc)"

lemma aimed_at_snoc: "aimed_at k (ops @ [op]) = aimed_step k op (aimed_at k ops)"
  by (simp add: aimed_at_def)

lemma sampled_snoc: "sampled k (ops @ [op]) = sampled_step k op (sampled k ops)"
  by (simp add: sampled_def)

lemma in_step_targets:
  assumes "mgr_ok f g m" and "in_step f g k ops m"
  shows "in_step f g k (ops @ [PTargets specs]) (SetTargets specs m)"
proof -
  have wf: "gm_wf (mg_machines m)" and th: "mg_FailureThreshold m = f" "mg_SuccessThreshold m = g" using assms(1) by (simp_all add: mgr_ok_def)
  from assms(2) show ?thesis
    by (auto simp: in_step_def aimed_at_snoc sampled_snoc SetTargets_targets next_get SetTargets_machines [OF wf] has_key_def th tracks_New
        split: option.splits)
qed

lemma in_step_sample:
  assumes "in_step f g k ops m" and "fold_sample s r m = (m', evs, changed)"
  shows "in_step f g k (ops @ [PSample s r]) m'"
proof (cases "gm_get (mg_machines m) (ps_ScopeKey s)")
  case None
  then have "m' = m" using assms(2) by (simp add: fold_sample_def Let_def)
  then show ?thesis using assms(1) None by (auto simp: in_step_def aimed_at_snoc sampled_snoc split: option.splits)
next
  case (Some mc)
  obtain mc' st1 st2 ch where o: "Observe r mc = (mc', st1, st2, ch)" by (metis prod_cases4)
  have m': "mg_machines m' = gm_put (ps_ScopeKey s) mc' (mg_machines m)" "mg_targets m' = mg_targets m"
    using assms(2) Some o by (auto simp: fold_sample_def Let_def split: if_splits)
  show ?thesis
  proof (cases "ps_ScopeKey s = k")
    case True
    with assms(1) Some obtain l where l: "sampled k ops = Some l" "tracks (threshold f) (threshold g) (map (res_Success \<circ> snd) l) mc"
      by (auto simp: in_step_def)
    from tracks_step [OF l(2), of r] have "tracks (threshold f) (threshold g) (map (res_Success \<circ> snd) (l @ [(s, r)])) mc'"
      by (simp add: o threshold_def)
    then show ?thesis using assms(1) True l(1) m' by (auto simp: in_step_def aimed_at_snoc sampled_snoc)
  next
    case False
    then show ?thesis using assms(1) m' by (auto simp: in_step_def aimed_at_snoc sampled_snoc split: option.splits)
  qed
qed

lemma in_step_step:
  assumes "probe_step op y y'" and "mgr_ok f g (py_mgr y)" and "in_step f g k ops (py_mgr y)"
  shows "in_step f g k (ops @ [op]) (py_mgr y') \<and> mg_NodeName (py_mgr y') = mg_NodeName (py_mgr y)"
  using assms
proof (induction rule: probe_step.induct)
  case (targets specs y)
  then show ?case by (simp add: in_step_targets)
next
  case (sample y s specs any r m' evs changed)
  moreover from sample(2) have "mg_NodeName m' = mg_NodeName (py_mgr y)"
    by (auto simp: fold_sample_def Let_def split: option.splits prod.splits if_splits)
  ultimately show ?case by (simp add: in_step_sample)
qed (auto simp: in_step_def aimed_at_snoc sampled_snoc TakeChanged_def split: option.splits)

lemma in_step_run: "probe_run i f g node ops y \<Longrightarrow> in_step f g k ops (py_mgr y) \<and> mg_NodeName (py_mgr y) = node"
proof (induction rule: probe_run.induct)
  case start
  then show ?case by (simp add: in_step_def probe_init_def NewManager_def aimed_at_def sampled_def)
next
  case (step ops y op y')
  have "mgr_ok f g (py_mgr y)" using sys_ok_reach [OF run_reach [OF step(1)]] by (simp add: sys_ok_def)
  from in_step_step [OF step(2) this, of k ops] step(3) show ?case by simp
qed

lemma state_of_Some:
  assumes "mgr_ok f g m" and "state_of m now k = Some p"
  shows "\<exists>h. ph_ScopeID p = k \<and> ph_PathReady p = last_run True (threshold g) (threshold f) h \<and>
    (last_run True (threshold g) (threshold f) h \<or> last_run False (threshold f) (threshold g) h) \<and>
    (\<exists>mc. gm_get (mg_machines m) k = Some mc \<and> mc_samples mc = int (length h))"
proof -
  from assms(2) obtain mc where mc: "gm_get (mg_machines m) k = Some mc" "mc_state mc \<noteq> StateUnknown"
    and p: "ph_ScopeID p = k" "ph_PathReady p = (mc_state mc = StateHealthy)"
    by (auto simp: state_of_def split: option.splits if_splits)
  from assms(1) mc(1) obtain h where h: "tracks (threshold f) (threshold g) h mc" unfolding mgr_ok_def by blast
  have "mc_state mc = StateHealthy \<or> mc_state mc = StateUnhealthy" using mc(2) by (cases "mc_state mc") auto
  with h mc p show ?thesis by (auto simp: tracks_def intro!: exI [of _ h])
qed

section \<open>Properties\<close>

text \<open>
  However the probe round interleaves with the agent: targets and machines always have the same
  keys, at most one round runs at a time, and a change of state is never stranded, since while any is
  untaken a wakeup is pending, or was received and not acted on, or the running round will send one.
\<close>

theorem probe_changes_are_signalled:
  assumes "probe_reach i f g node y"
  shows "(\<forall>k. gm_get (mg_targets (py_mgr y)) k = None \<longleftrightarrow> gm_get (mg_machines (py_mgr y)) k = None) \<and>
    (mg_inFlight (py_mgr y) \<longleftrightarrow> py_round y \<noteq> None) \<and>
    (mg_changed (py_mgr y) \<noteq> [] \<longrightarrow> mg_wake (py_mgr y) \<or> py_owed y \<or> (\<exists>specs. py_round y = Some (specs, True)))"
  using sys_ok_reach [OF assms] unfolding sys_ok_def mgr_ok_def by blast

definition example_spec :: Spec where
  "example_spec = \<lparr>ps_ScopeKey = ''a'', ps_Scope = ScopeEndpoint, ps_NAD = ''ns/net'', ps_AttachmentID = ''a'', ps_PodName = ''p1'',
     ps_NetnsPath = ''/run/netns/x'', ps_Interface = ''net1'', ps_SourceIP = ''10.0.0.1'', ps_Target = ''10.0.0.254'', ps_Timeout = 1\<rparr>"

definition good_result :: Result where
  "good_result = \<lparr>res_Success = True, res_RTT = 1, res_ErrorKind = ErrKNone, res_Detail = [], res_ObservedAt = 0\<rparr>"

text \<open>One target, one round, one good sample.\<close>

definition example_sys :: probe_sys where
  "example_sys = \<lparr>py_mgr = fst (fold_sample example_spec good_result ((SetTargets [example_spec] (NewManager 1 3 1 ''n1''))\<lparr>mg_inFlight := True\<rparr>)),
     py_round = Some ([], True), py_owed = False\<rparr>"

lemma example_sample:
  "snd (snd (fold_sample example_spec good_result ((SetTargets [example_spec] (NewManager 1 3 1 ''n1''))\<lparr>mg_inFlight := True\<rparr>)))"
  by code_simp

lemma example_run:
  "probe_run 1 3 1 ''n1'' [PTargets [example_spec], PStart, PSample example_spec good_result] example_sys"
proof -
  let ?y0 = "probe_init 1 3 1 ''n1''"
  let ?m1 = "SetTargets [example_spec] (NewManager 1 3 1 ''n1'')"
  let ?y1 = "?y0\<lparr>py_mgr := ?m1\<rparr>"
  let ?y2 = "?y1\<lparr>py_mgr := ?m1\<lparr>mg_inFlight := True\<rparr>, py_round := Some ([example_spec], False)\<rparr>"
  have "probe_run 1 3 1 ''n1'' [PTargets [example_spec]] ?y1"
    using probe_run.step [OF probe_run.start probe_step.targets, of 1 3 1 "''n1''" "[example_spec]"] by (simp add: probe_init_def)
  moreover have "probe_step PStart ?y1 ?y2"
    using probe_step.start [of ?y1 "[example_spec]"]
    by (simp add: SetTargets_targets gm_put_all_def gm_put_def) (simp add: NewManager_def)
  ultimately have r2: "probe_run 1 3 1 ''n1'' [PTargets [example_spec], PStart] ?y2"
    using probe_run.step [of 1 3 1 "''n1''" "[PTargets [example_spec]]" ?y1 PStart ?y2] by simp
  obtain m' evs where s: "fold_sample example_spec good_result (?m1\<lparr>mg_inFlight := True\<rparr>) = (m', evs, True)"
    using example_sample by (metis prod.collapse)
  have "probe_step (PSample example_spec good_result) ?y2 example_sys"
    using probe_step.sample [of ?y2 example_spec "[]" False good_result m' evs True] s
    by (simp add: example_sys_def probe_init_def)
  from probe_run.step [OF r2 this] show ?thesis by simp
qed

lemma example_reach: "probe_reach 1 3 1 ''n1'' example_sys"
  by (rule run_reach [OF example_run])

lemma probe_changes_are_signalled_witness:
  "mg_changed (py_mgr example_sys) \<noteq> [] \<and> (\<exists>specs. py_round example_sys = Some (specs, True))"
proof -
  have c: "mg_changed (py_mgr example_sys) \<noteq> []" and n: "\<not> mg_wake (py_mgr example_sys)" "\<not> py_owed example_sys"
    unfolding example_sys_def by code_simp+
  with probe_changes_are_signalled [OF example_reach] show ?thesis by blast
qed

lemma States_verdict:
  assumes "probe_reach i f g node y" and "p \<in> set (States now (py_mgr y))"
  shows "\<exists>s h. gm_get (mg_targets (py_mgr y)) (ph_ScopeID p) = Some s \<and> ph_Target p = ps_Target s \<and> ph_NAD p = ps_NAD s \<and>
    ph_NodeName p = mg_NodeName (py_mgr y) \<and> ph_PathReady p = last_run True (threshold g) (threshold f) h \<and>
    (last_run True (threshold g) (threshold f) h \<or> last_run False (threshold f) (threshold g) h) \<and>
    (\<exists>mc. gm_get (mg_machines (py_mgr y)) (ph_ScopeID p) = Some mc \<and> mc_samples mc = int (length h))"
proof -
  have ok: "mgr_ok f g (py_mgr y)" using sys_ok_reach [OF assms(1)] by (simp add: sys_ok_def)
  from assms(2) obtain k where k: "state_of (py_mgr y) now k = Some p"
    by (auto simp: States_def List.map_filter_def)
  then obtain s where "gm_get (mg_targets (py_mgr y)) k = Some s" "ph_Target p = ps_Target s" "ph_NAD p = ps_NAD s"
    "ph_NodeName p = mg_NodeName (py_mgr y)"
    by (auto simp: state_of_def split: option.splits if_splits)
  with state_of_Some [OF ok k] show ?thesis by auto
qed

text \<open>
  C30. Exactly what is reported, in any run. A state of key k is reported iff k is a target now and the
  results the probe loop folded in for k since k was last added decide it, that is, among them the
  successes reached their threshold in a row and the failures have not since, or the other way round. The
  report then says which, and names the scope, the network and the target of the latest spec given for k.
  The results counted are those of key k, whichever target, source or namespace it had when they were
  taken, and a round that was under way when k was added counts too (see \<open>retarget_keeps_verdict\<close>).
\<close>

theorem states_report_verdicts:
  assumes "probe_run i f g node ops y"
  shows "p \<in> set (States now (py_mgr y)) \<longleftrightarrow>
    (\<exists>s l. aimed_at (ph_ScopeID p) ops = Some s \<and> sampled (ph_ScopeID p) ops = Some l \<and>
      (let h = map (res_Success \<circ> snd) l; up = last_run True (threshold g) (threshold f) h; down = last_run False (threshold f) (threshold g) h in
       (up \<or> down) \<and>
       p = \<lparr>ph_Scope = ps_Scope s, ph_ScopeID = ph_ScopeID p, ph_NodeName = node, ph_NAD = ps_NAD s, ph_Target = ps_Target s,
         ph_PathReady = up, ph_ObservedAt = now\<rparr>))"
proof -
  have ok: "mgr_ok f g (py_mgr y)" using sys_ok_reach [OF run_reach [OF assms]] by (simp add: sys_ok_def)
  have in_step: "in_step f g k ops (py_mgr y)" and node: "mg_NodeName (py_mgr y) = node" for k using in_step_run [OF assms] by auto
  have "p \<in> set (States now (py_mgr y)) \<longleftrightarrow> (\<exists>k. k \<in> set (gm_keys (mg_targets (py_mgr y))) \<and> state_of (py_mgr y) now k = Some p)"
    by (force simp: States_def List.map_filter_def)
  also have "\<dots> \<longleftrightarrow> state_of (py_mgr y) now (ph_ScopeID p) = Some p"
  proof -
    have "ph_ScopeID p = k \<and> k \<in> set (gm_keys (mg_targets (py_mgr y)))" if "state_of (py_mgr y) now k = Some p" for k
      using that by (auto simp: state_of_def gm_keys_iff split: option.splits if_splits)
    then show ?thesis by blast
  qed
  also have "\<dots> \<longleftrightarrow> (\<exists>s l. aimed_at (ph_ScopeID p) ops = Some s \<and> sampled (ph_ScopeID p) ops = Some l \<and>
      (let h = map (res_Success \<circ> snd) l; up = last_run True (threshold g) (threshold f) h; down = last_run False (threshold f) (threshold g) h in
       (up \<or> down) \<and>
       p = \<lparr>ph_Scope = ps_Scope s, ph_ScopeID = ph_ScopeID p, ph_NodeName = node, ph_NAD = ps_NAD s, ph_Target = ps_Target s,
         ph_PathReady = up, ph_ObservedAt = now\<rparr>))"
  proof (cases "gm_get (mg_machines (py_mgr y)) (ph_ScopeID p)")
    case None
    then show ?thesis using in_step [of "ph_ScopeID p"] by (simp add: state_of_def in_step_def)
  next
    case (Some mc)
    with in_step [of "ph_ScopeID p"] obtain l where l: "sampled (ph_ScopeID p) ops = Some l"
      "tracks (threshold f) (threshold g) (map (res_Success \<circ> snd) l) mc" "gm_get (mg_targets (py_mgr y)) (ph_ScopeID p) = aimed_at (ph_ScopeID p) ops"
      by (auto simp: in_step_def)
    from l(2) have st: "mc_state mc = StateHealthy \<longleftrightarrow> last_run True (threshold g) (threshold f) (map (res_Success \<circ> snd) l)"
      "mc_state mc = StateUnknown \<longleftrightarrow> \<not> last_run True (threshold g) (threshold f) (map (res_Success \<circ> snd) l) \<and>
         \<not> last_run False (threshold f) (threshold g) (map (res_Success \<circ> snd) l)"
      by (cases "mc_state mc", auto simp: tracks_def)+
    show ?thesis
      by (cases "aimed_at (ph_ScopeID p) ops") (auto simp: state_of_def Some l(1,3) st node Let_def)
  qed
  finally show ?thesis .
qed

lemma states_report_verdicts_witness:
  "\<lparr>ph_Scope = ScopeEndpoint, ph_ScopeID = ''a'', ph_NodeName = ''n1'', ph_NAD = ''ns/net'', ph_Target = ''10.0.0.254'', ph_PathReady = True,
     ph_ObservedAt = 7\<rparr> \<in> set (States 7 (py_mgr example_sys))"
proof -
  have l: "last_run True (threshold 1) (threshold 3) [True]"
    by (simp add: last_run_def threshold_def has_run_def) (intro exI [of _ "[]"], simp)
  have "aimed_at ''a'' [PTargets [example_spec], PStart, PSample example_spec good_result] = Some example_spec"
    "sampled ''a'' [PTargets [example_spec], PStart, PSample example_spec good_result] = Some [(example_spec, good_result)]"
    by (simp_all add: aimed_at_def sampled_def example_spec_def)
  with l show ?thesis
    unfolding states_report_verdicts [OF example_run] by (simp add: good_result_def Let_def) (simp add: example_spec_def)
qed

text \<open>
  A verdict outlives what it was formed about. When \<^verbatim>\<open>SetTargets\<close> gives a key another target, source
  or namespace, its machine stays, and the next report attributes the old verdict to the new target.
\<close>

theorem retarget_keeps_verdict:
  assumes "mgr_ok f g m" and "gm_get (mg_machines m) (ps_ScopeKey s) = Some mc" and "mc_state mc \<noteq> StateUnknown"
  shows "map (\<lambda>p. (ph_ScopeID p, ph_Target p, ph_PathReady p)) (States now (SetTargets [s] m)) =
    [(ps_ScopeKey s, ps_Target s, mc_state mc = StateHealthy)]"
proof -
  have wf: "gm_wf (mg_machines m)" using assms(1) by (simp add: mgr_ok_def)
  have t: "mg_targets (SetTargets [s] m) = [(ps_ScopeKey s, s)]"
    by (simp add: SetTargets_targets gm_put_all_def gm_put_def)
  have "gm_get (mg_machines (SetTargets [s] m)) (ps_ScopeKey s) = Some mc"
    by (simp add: SetTargets_machines [OF wf] has_key_def assms(2))
  then show ?thesis
    using assms(3) by (simp add: States_def t gm_keys_def state_of_def gm_get_def List.map_filter_simps)
qed

lemma retarget_keeps_verdict_witness:
  "map (\<lambda>p. (ph_ScopeID p, ph_Target p, ph_PathReady p))
     (States 7 (SetTargets [example_spec\<lparr>ps_Target := ''10.9.9.9'', ps_NetnsPath := ''/run/netns/y''\<rparr>] (py_mgr example_sys))) =
     [(''a'', ''10.9.9.9'', True)]"
proof -
  have ok: "mgr_ok 3 1 (py_mgr example_sys)" using sys_ok_reach [OF example_reach] by (simp add: sys_ok_def)
  have "map_option mc_state (gm_get (mg_machines (py_mgr example_sys)) ''a'') = Some StateHealthy"
    unfolding example_sys_def by code_simp
  then obtain mc where mc: "gm_get (mg_machines (py_mgr example_sys)) ''a'' = Some mc" "mc_state mc = StateHealthy" by auto
  from retarget_keeps_verdict [OF ok, of "example_spec\<lparr>ps_Target := ''10.9.9.9'', ps_NetnsPath := ''/run/netns/y''\<rparr>" mc 7] mc
  show ?thesis by (simp add: example_spec_def)
qed

end
