(* ===== verification/ICMP_Probe.thy ===== *)
theory ICMP_Probe
  imports Probe_Machine
begin

text \<open>
  \<^verbatim>\<open>internal/agent/probe/icmp.go\<close>: one echo request from a bound socket, the socket cache, and the
  namespace switch around the opening of a socket. \<^verbatim>\<open>golang.org/x/net/icmp\<close> (\<open>icmp_lib\<close>) and the
  operating system (\<open>sys_calls\<close>, the reads) are parameters. The loop that skips foreign packets
  is a partial function of the sequence of reads: not returning is \<open>None\<close>.
\<close>

section \<open>Addresses as text\<close>

text \<open>\<^verbatim>\<open>net.IP.String\<close> on the sixteen bytes of a parsed address.\<close>

function nat_string :: "nat \<Rightarrow> string" where
  "nat_string n = (if n < 10 then [char_of (48 + n)] else nat_string (n div 10) @ [char_of (48 + n mod 10)])"
  by pat_completeness auto
termination
  by (relation "measure id") auto

declare nat_string.simps [simp del]

function hex_string :: "nat \<Rightarrow> string" where
  "hex_string n = (if n < 16 then [hex_digit n] else hex_string (n div 16) @ [hex_digit (n mod 16)])"
  by pat_completeness auto
termination
  by (relation "measure id") auto

declare hex_string.simps [simp del]

fun byte_pairs :: "nat list \<Rightarrow> nat list" where
  "byte_pairs (a # b # l) = (a * 256 + b) # byte_pairs l"
| "byte_pairs _ = []"

text \<open>The first longest run of at least two zero groups, as its start and end.\<close>

definition zero_run :: "nat list \<Rightarrow> nat \<times> nat" where
  "zero_run gs = fold (\<lambda>i (a, b). let l = length (takeWhile (\<lambda>g. g = 0) (drop i gs)) in
     if l \<ge> 2 \<and> l > b - a then (i, i + l) else (a, b)) [0..<length gs] (0, 0)"

definition ip_string :: "nat list \<Rightarrow> string" where
  "ip_string ip = (if is_v4 ip then str_join ''.'' (map nat_string (drop 12 ip))
     else let gs = byte_pairs ip in (case zero_run gs of (a, b) \<Rightarrow>
       if a = b then str_join '':'' (map hex_string gs)
       else str_join '':'' (map hex_string (take a gs)) @ ''::'' @ str_join '':'' (map hex_string (drop b gs))))"

section \<open>The system\<close>

datatype errno = EHOSTUNREACH | ENETUNREACH | ENETDOWN | EHOSTDOWN | EOTHER string

record io_error =
  io_Timeout :: bool
  io_Errno :: errno
  io_Text :: string

definition classify :: "io_error \<Rightarrow> ErrorKind" where
  "classify err = (if io_Timeout err then ErrKTimeout
     else if io_Errno err \<in> {EHOSTUNREACH, ENETUNREACH, ENETDOWN, EHOSTDOWN} then ErrKUnreachable
     else ErrKSend)"

text \<open>
  The calls of \<^verbatim>\<open>openSocket\<close>; \<open>None\<close> is success. \<open>sc_Set n\<close> is the n-th switch of the namespace,
  \<open>sc_Listen\<close> is told the namespace the thread is in, and \<open>sc_Raw\<close> says whether the raw
  descriptor could be had.
\<close>

record sys_calls =
  sc_Get :: "io_error option"
  sc_FromPath :: "string \<Rightarrow> io_error option"
  sc_Set :: "nat \<Rightarrow> io_error option"
  sc_Listen :: "string \<Rightarrow> string \<Rightarrow> string \<Rightarrow> io_error option"
  sc_Raw :: bool
  sc_Bind :: "string \<Rightarrow> io_error option"

text \<open>
  What the kernel keeps of a packet connection: the namespace it was opened in, the network and the
  address it listens on, the device it is pinned to.
\<close>

record packet_conn =
  cn_home :: string
  cn_network :: string
  cn_addr :: string
  cn_device :: "string option"

definition ListenPacket :: "sys_calls \<Rightarrow> string \<Rightarrow> string \<Rightarrow> string \<Rightarrow> io_error + packet_conn" where
  "ListenPacket os ns network addr = (case sc_Listen os ns network addr of
      Some e \<Rightarrow> Inl e
    | None \<Rightarrow> Inr \<lparr>cn_home = ns, cn_network = network, cn_addr = addr, cn_device = None\<rparr>)"

definition BindToDevice :: "sys_calls \<Rightarrow> string \<Rightarrow> packet_conn \<Rightarrow> io_error + packet_conn" where
  "BindToDevice os iface pc = (case sc_Bind os iface of
      Some e \<Rightarrow> Inl e
    | None \<Rightarrow> Inr (pc\<lparr>cn_device := Some iface\<rparr>))"

record socket =
  sk_pc :: packet_conn
  sk_v6 :: bool
  sk_nsPath :: string
  sk_src :: string
  sk_iface :: string

section \<open>Opening a socket\<close>

definition socketKey :: "Spec \<Rightarrow> string" where
  "socketKey s = ps_NetnsPath s @ ''|'' @ ps_SourceIP s @ ''|'' @ ps_Interface s"

text \<open>After the namespace switch, in namespace \<open>ns\<close>.\<close>

definition listen_bound :: "sys_calls \<Rightarrow> Spec \<Rightarrow> bool \<Rightarrow> string \<Rightarrow> string + socket" where
  "listen_bound os s v6 ns =
     (let network = (if v6 then ''ip6:ipv6-icmp'' else ''ip4:icmp'');
          mk = (\<lambda>pc. \<lparr>sk_pc = pc, sk_v6 = v6, sk_nsPath = ps_NetnsPath s, sk_src = ps_SourceIP s, sk_iface = ps_Interface s\<rparr>) in
      case ListenPacket os ns network (ps_SourceIP s) of
        Inl e \<Rightarrow> Inl (''icmp socket on '' @ ps_SourceIP s @ '': '' @ io_Text e)
      | Inr pc \<Rightarrow>
          if ps_Interface s \<noteq> [] \<and> sc_Raw os then
            (case BindToDevice os (ps_Interface s) pc of
               Inl e \<Rightarrow> Inl (''bind to '' @ ps_Interface s @ '': '' @ io_Text e)
             | Inr pc' \<Rightarrow> Inr (mk pc'))
          else Inr (mk pc))"

text \<open>\<open>ns\<close> is the namespace of the locked thread; the second result is the one it is left in.\<close>

definition openSocket :: "sys_calls \<Rightarrow> Spec \<Rightarrow> string \<Rightarrow> (string + socket) \<times> string" where
  "openSocket os s ns = (case parse_ip (ps_SourceIP s) of
      None \<Rightarrow> (Inl (''unparseable source '' @ ps_SourceIP s), ns)
    | Some ip \<Rightarrow>
        let v6 = (\<not> is_v4 ip) in
        if ps_NetnsPath s = [] then (listen_bound os s v6 ns, ns)
        else (case sc_Get os of
            Some e \<Rightarrow> (Inl (''current netns: '' @ io_Text e), ns)
          | None \<Rightarrow> (case sc_FromPath os (ps_NetnsPath s) of
              Some e \<Rightarrow> (Inl (''open netns '' @ ps_NetnsPath s @ '': '' @ io_Text e), ns)
            | None \<Rightarrow> (case sc_Set os 0 of
                Some e \<Rightarrow> (Inl (''enter netns '' @ ps_NetnsPath s @ '': '' @ io_Text e), ns)
              | None \<Rightarrow> (listen_bound os s v6 (ps_NetnsPath s),
                  (case sc_Set os 1 of Some _ \<Rightarrow> ps_NetnsPath s | None \<Rightarrow> ns))))))"

section \<open>The cache of sockets\<close>

record ICMPProber =
  ip_conns :: "(string, socket) gomap"
  ip_seq :: "32 word"
  ip_id :: nat

definition NewICMPProber :: "nat \<Rightarrow> ICMPProber" where
  "NewICMPProber pid = \<lparr>ip_conns = [], ip_seq = 0, ip_id = pid mod 65536\<rparr>"

text \<open>
  \<open>opened\<close> is the result of \<^verbatim>\<open>openSocket\<close>, taken between the two critical sections; \<open>later\<close> is what
  other probes did to the map meanwhile. The last result is the socket closed, if any.
\<close>

definition socketFor :: "Spec \<Rightarrow> string + socket \<Rightarrow> ((string, socket) gomap \<Rightarrow> (string, socket) gomap)
    \<Rightarrow> (string, socket) gomap \<Rightarrow> (string + socket) \<times> (string, socket) gomap \<times> socket option" where
  "socketFor s opened later conns = (let key = socketKey s in
     case gm_get conns key of
       Some sk \<Rightarrow> (Inr sk, conns, None)
     | None \<Rightarrow> let conns1 = later conns in
         (case opened of
            Inl e \<Rightarrow> (Inl e, conns1, None)
          | Inr sk \<Rightarrow> (case gm_get conns1 key of
              Some prev \<Rightarrow> (Inr prev, conns1, Some sk)
            | None \<Rightarrow> (Inr sk, gm_put key sk conns1, None))))"

definition Retain :: "(string, bool) gomap \<Rightarrow> (string, socket) gomap \<Rightarrow> (string, socket) gomap \<times> socket list" where
  "Retain keys conns = (gm_drop (\<lambda>k _. gm_get keys k \<noteq> Some True) conns,
     map snd (filter (\<lambda>(k, _). gm_get keys k \<noteq> Some True) conns))"

definition Close_all :: "(string, socket) gomap \<Rightarrow> (string, socket) gomap \<times> socket list" where
  "Close_all conns = ([], map snd conns)"

section \<open>One echo\<close>

datatype icmp_body = EchoBody nat nat string | OtherBody

record icmp_message =
  im_Type :: nat
  im_Body :: icmp_body

record icmp_lib =
  il_Marshal :: "icmp_message \<Rightarrow> io_error + string"
  il_Parse :: "nat \<Rightarrow> string \<Rightarrow> icmp_message option"

text \<open>A read: its error, or the packet, its sender as text, and the instant it returned.\<close>

datatype read = ReadErr io_error int | ReadPacket string string int

definition echo_type :: "bool \<Rightarrow> nat" where
  "echo_type v6 = (if v6 then 128 else 8)"

definition icmp_proto :: "bool \<Rightarrow> nat" where
  "icmp_proto v6 = (if v6 then 58 else 1)"

definition failed :: "ErrorKind \<Rightarrow> string \<Rightarrow> int \<Rightarrow> Result" where
  "failed kind detail now = \<lparr>res_Success = False, res_RTT = 0, res_ErrorKind = kind, res_Detail = detail, res_ObservedAt = now\<rparr>"

text \<open>The body of the read loop: a result, or \<open>None\<close> for \<^verbatim>\<open>continue\<close>.\<close>

definition on_read :: "icmp_lib \<Rightarrow> bool \<Rightarrow> nat \<Rightarrow> nat \<Rightarrow> string \<Rightarrow> int \<Rightarrow> read \<Rightarrow> Result option" where
  "on_read lib v6 i sq target start rd = (case rd of
      ReadErr e at \<Rightarrow> Some (failed (classify e) (io_Text e) at)
    | ReadPacket peer pkt at \<Rightarrow>
        if peer \<noteq> target then None
        else (case il_Parse lib (icmp_proto v6) pkt of
            None \<Rightarrow> None
          | Some msg \<Rightarrow> (case im_Body msg of
              EchoBody i' sq' _ \<Rightarrow> if i' \<noteq> i \<or> sq' \<noteq> sq then None
                else Some \<lparr>res_Success = True, res_RTT = at - start, res_ErrorKind = ErrKNone, res_Detail = [], res_ObservedAt = at\<rparr>
            | OtherBody \<Rightarrow> None)))"

partial_function (option) read_loop :: "(read \<Rightarrow> Result option) \<Rightarrow> (nat \<Rightarrow> read) \<Rightarrow> nat \<Rightarrow> Result option" where
  "read_loop f reads n = (case f (reads n) of Some r \<Rightarrow> Some r | None \<Rightarrow> read_loop f reads (n + 1))"

definition next_seq :: "32 word \<Rightarrow> 32 word \<times> nat" where
  "next_seq q = (q + 1, unat (q + 1) mod 65536)"

definition probe_timeout :: "int \<Rightarrow> int option \<Rightarrow> int" where
  "probe_timeout t remaining = (let t1 = (if t \<le> 0 then time_Second else t) in
     case remaining of None \<Rightarrow> t1 | Some u \<Rightarrow> if u < t1 then u else t1)"

text \<open>
  \<^verbatim>\<open>Probe\<close>, given the socket or the error of \<^verbatim>\<open>socketFor\<close>. \<open>remaining\<close> is the time left until the
  context's deadline, if it has one; \<open>setDeadline\<close> and \<open>send\<close> are the outcomes of those calls. What the
  reads return depends on the deadline in force on the socket, \<open>None\<close> being none.
\<close>

definition ICMP_Probe :: "icmp_lib \<Rightarrow> Spec \<Rightarrow> string + socket \<Rightarrow> int option \<Rightarrow> int \<Rightarrow> int \<Rightarrow> (int \<Rightarrow> io_error option) \<Rightarrow> (string \<Rightarrow> io_error option)
    \<Rightarrow> (int option \<Rightarrow> nat \<Rightarrow> read) \<Rightarrow> ICMPProber \<Rightarrow> ICMPProber \<times> Result option" where
  "ICMP_Probe lib s found remaining now start setDeadline send reads p = (case parse_ip (ps_Target s) of
      None \<Rightarrow> (p, Some (failed ErrKSocket (''unparseable target '' @ ps_Target s) now))
    | Some target \<Rightarrow> (case found of
        Inl e \<Rightarrow> (p, Some (failed ErrKSocket e now))
      | Inr sk \<Rightarrow>
          let timeout = probe_timeout (ps_Timeout s) remaining; deadline = start + timeout in
          if timeout \<le> 0 then (p, Some (failed ErrKTimeout ''no time left'' now))
          else (case next_seq (ip_seq p) of (q, sq) \<Rightarrow> let p1 = p\<lparr>ip_seq := q\<rparr> in
            (case il_Marshal lib \<lparr>im_Type = echo_type (sk_v6 sk), im_Body = EchoBody (ip_id p) sq ''multus-service''\<rparr> of
               Inl e \<Rightarrow> (p1, Some (failed ErrKSocket (io_Text e) now))
             | Inr wire \<Rightarrow> (case setDeadline deadline of
                 Some e \<Rightarrow> (p1, Some (failed ErrKSocket (io_Text e) now))
               | None \<Rightarrow> (case send wire of
                   Some e \<Rightarrow> (p1, Some (failed (classify e) (io_Text e) now))
                 | None \<Rightarrow> (p1, read_loop (on_read lib (sk_v6 sk) (ip_id p) sq (ip_string target) start) (reads (Some deadline)) 0)))))))"

section \<open>Lemmas\<close>

lemma read_loop_at:
  assumes "\<And>j. n \<le> j \<Longrightarrow> j < n + k \<Longrightarrow> f (reads j) = None" and "f (reads (n + k)) = Some r"
  shows "read_loop f reads n = Some r"
  using assms
proof (induction k arbitrary: n)
  case 0
  then show ?case by (simp add: read_loop.simps)
next
  case (Suc k)
  have "f (reads n) = None" using Suc.prems(1) by simp
  moreover have "read_loop f reads (n + 1) = Some r" using Suc.prems by (intro Suc.IH) auto
  ultimately show ?case by (subst read_loop.simps) simp
qed

text \<open>A packet that answers this request.\<close>

definition answers :: "icmp_lib \<Rightarrow> bool \<Rightarrow> nat \<Rightarrow> nat \<Rightarrow> string \<Rightarrow> read \<Rightarrow> bool" where
  "answers lib v6 i sq target rd = (case rd of ReadErr _ _ \<Rightarrow> False
     | ReadPacket peer pkt _ \<Rightarrow> peer = target \<and> (case il_Parse lib (icmp_proto v6) pkt of None \<Rightarrow> False
         | Some msg \<Rightarrow> (case im_Body msg of EchoBody i' sq' _ \<Rightarrow> i' = i \<and> sq' = sq | OtherBody \<Rightarrow> False)))"

definition is_read_error :: "read \<Rightarrow> bool" where
  "is_read_error rd = (case rd of ReadErr _ _ \<Rightarrow> True | ReadPacket _ _ _ \<Rightarrow> False)"

lemma on_read_cases:
  "on_read lib v6 i sq target start rd = None \<longleftrightarrow> \<not> is_read_error rd \<and> \<not> answers lib v6 i sq target rd"
  "on_read lib v6 i sq target start rd = Some r \<Longrightarrow> res_Success r \<longleftrightarrow> answers lib v6 i sq target rd"
  "on_read lib v6 i sq target start rd = Some r \<Longrightarrow> is_read_error rd \<noteq> answers lib v6 i sq target rd"
  by (auto simp: on_read_def answers_def is_read_error_def failed_def
      split: read.splits option.splits icmp_body.splits if_splits)

lemma mod_add_word: "unat (q + of_nat k :: 32 word) mod 65536 = (unat q + k) mod 65536"
proof -
  have d: "(65536 :: nat) dvd 2 ^ 32" by (simp add: dvd_def)
  have "unat (q + of_nat k :: 32 word) = (unat q + k) mod 2 ^ 32"
    by (simp add: unat_word_ariths unat_of_nat mod_simps)
  then show ?thesis by (simp only: mod_mod_cancel [OF d])
qed

section \<open>Properties\<close>

text \<open>The instant a read returned, and what a deadline means: once the clock has passed it, every later read times out.\<close>

definition read_at :: "read \<Rightarrow> int" where
  "read_at rd = (case rd of ReadErr _ at \<Rightarrow> at | ReadPacket _ _ at \<Rightarrow> at)"

definition timed_out :: "read \<Rightarrow> bool" where
  "timed_out rd = (case rd of ReadErr e _ \<Rightarrow> io_Timeout e | ReadPacket _ _ _ \<Rightarrow> False)"

definition honours_deadline :: "(int option \<Rightarrow> nat \<Rightarrow> read) \<Rightarrow> bool" where
  "honours_deadline reads \<longleftrightarrow> (\<forall>d. (\<exists>n. d < read_at (reads (Some d) n)) \<and>
     (\<forall>n. d < read_at (reads (Some d) n) \<longrightarrow> timed_out (reads (Some d) (Suc n))))"

text \<open>
  C31. Once the request is out, the probe returns, because the socket honours the deadline the probe set (a
  read after it is a timeout; that nobody else moves the deadline of a shared socket meanwhile is part of
  the hypothesis). It returns what the first read that matters says. If that is a packet from the target with our identifier and this
  sequence number, of whatever ICMP type, the probe succeeds and measures from the start to the instant of
  that read; if it is a read error, the probe fails with the class, the text and the instant of that
  error. Everything before it is a packet for someone else.
\<close>

theorem probe_returns_the_answer:
  assumes "parse_ip (ps_Target s) = Some target" and "probe_timeout (ps_Timeout s) remaining > 0"
    and "il_Marshal lib \<lparr>im_Type = echo_type (sk_v6 sk), im_Body = EchoBody (ip_id p) (snd (next_seq (ip_seq p))) ''multus-service''\<rparr> = Inr wire"
    and "setDeadline (start + probe_timeout (ps_Timeout s) remaining) = None" and "send wire = None" and "honours_deadline reads"
  shows "\<exists>r k. snd (ICMP_Probe lib s (Inr sk) remaining now start setDeadline send reads p) = Some r \<and>
    (let rds = reads (Some (start + probe_timeout (ps_Timeout s) remaining));
         ours = answers lib (sk_v6 sk) (ip_id p) (snd (next_seq (ip_seq p))) (ip_string target) in
     (\<forall>j<k. \<not> is_read_error (rds j) \<and> \<not> ours (rds j)) \<and>
     (case rds k of
        ReadErr e at \<Rightarrow> r = \<lparr>res_Success = False, res_RTT = 0, res_ErrorKind = classify e, res_Detail = io_Text e, res_ObservedAt = at\<rparr>
      | ReadPacket _ _ at \<Rightarrow> ours (rds k) \<and>
          r = \<lparr>res_Success = True, res_RTT = at - start, res_ErrorKind = ErrKNone, res_Detail = [], res_ObservedAt = at\<rparr>))"
proof -
  let ?d = "start + probe_timeout (ps_Timeout s) remaining"
  let ?f = "on_read lib (sk_v6 sk) (ip_id p) (snd (next_seq (ip_seq p))) (ip_string target) start"
  let ?a = "answers lib (sk_v6 sk) (ip_id p) (snd (next_seq (ip_seq p))) (ip_string target)"
  define m where "m = (LEAST k. ?f (reads (Some ?d) k) \<noteq> None)"
  obtain n where "d < read_at (reads (Some d) n) \<Longrightarrow> timed_out (reads (Some d) (Suc n))" "?d < read_at (reads (Some ?d) n)" for d
    using assms(6) unfolding honours_deadline_def by blast
  then have "is_read_error (reads (Some ?d) (Suc n))"
    by (fastforce simp: timed_out_def is_read_error_def split: read.splits)
  then have "?f (reads (Some ?d) (Suc n)) \<noteq> None" by (simp add: on_read_cases(1))
  then have m: "?f (reads (Some ?d) m) \<noteq> None" unfolding m_def by (rule LeastI)
  have before: "?f (reads (Some ?d) j) = None" if "j < m" for j
    using not_less_Least [of j "\<lambda>k. ?f (reads (Some ?d) k) \<noteq> None"] that by (auto simp: m_def)
  obtain r where r: "?f (reads (Some ?d) m) = Some r" using m by blast
  have "read_loop ?f (reads (Some ?d)) 0 = Some r"
    by (rule read_loop_at [where k = m]) (use before r in auto)
  moreover have "snd (ICMP_Probe lib s (Inr sk) remaining now start setDeadline send reads p) = read_loop ?f (reads (Some ?d)) 0"
    using assms(1-5) by (cases "next_seq (ip_seq p)") (simp add: ICMP_Probe_def Let_def)
  moreover have "\<forall>j<m. \<not> is_read_error (reads (Some ?d) j) \<and> \<not> ?a (reads (Some ?d) j)" using before on_read_cases(1) by blast
  moreover have "case reads (Some ?d) m of
      ReadErr e at \<Rightarrow> r = \<lparr>res_Success = False, res_RTT = 0, res_ErrorKind = classify e, res_Detail = io_Text e, res_ObservedAt = at\<rparr>
    | ReadPacket _ _ at \<Rightarrow> ?a (reads (Some ?d) m) \<and>
        r = \<lparr>res_Success = True, res_RTT = at - start, res_ErrorKind = ErrKNone, res_Detail = [], res_ObservedAt = at\<rparr>"
    using r by (cases "reads (Some ?d) m")
      (auto simp: on_read_def failed_def answers_def split: if_splits option.splits icmp_body.splits)
  ultimately show ?thesis unfolding Let_def by (intro exI [of _ r] exI [of _ m]) simp
qed

definition example_icmp :: icmp_lib where
  "example_icmp = \<lparr>il_Marshal = (\<lambda>m. Inr ''wire''), il_Parse = (\<lambda>_ pkt. if pkt = ''reply'' then Some \<lparr>im_Type = 0, im_Body = EchoBody 7 1 []\<rparr> else None)\<rparr>"

definition example_reads :: "int option \<Rightarrow> nat \<Rightarrow> read" where
  "example_reads dl n = (case dl of
      None \<Rightarrow> ReadPacket ''10.0.0.9'' ''noise'' (int n)
    | Some d \<Rightarrow> if n = 0 \<and> 1 \<le> d then ReadPacket ''10.0.0.9'' ''noise'' 1
        else if n = 1 \<and> 2 \<le> d then ReadPacket ''10.0.0.254'' ''reply'' 2
        else ReadErr \<lparr>io_Timeout = True, io_Errno = EOTHER [], io_Text = ''timeout''\<rparr> (d + 1))"

definition example_icmp_spec :: Spec where
  "example_icmp_spec = \<lparr>ps_ScopeKey = ''a'', ps_Scope = ScopeEndpoint, ps_NAD = ''ns/net'', ps_AttachmentID = ''a'',
     ps_PodName = ''p1'', ps_NetnsPath = ''/pod'', ps_Interface = ''net1'', ps_SourceIP = ''10.0.0.1'', ps_Target = ''10.0.0.254'',
     ps_Timeout = 5\<rparr>"

definition example_socket :: socket where
  "example_socket = \<lparr>sk_pc = \<lparr>cn_home = ''/pod'', cn_network = ''ip4:icmp'', cn_addr = ''10.0.0.1'', cn_device = Some ''net1''\<rparr>,
     sk_v6 = False, sk_nsPath = ''/pod'', sk_src = ''10.0.0.1'', sk_iface = ''net1''\<rparr>"

definition example_sys_calls :: sys_calls where
  "example_sys_calls = \<lparr>sc_Get = None, sc_FromPath = (\<lambda>_. None), sc_Set = (\<lambda>_. None), sc_Listen = (\<lambda>_ _ _. None), sc_Raw = True,
     sc_Bind = (\<lambda>_. None)\<rparr>"

lemma probe_returns_the_answer_witness:
  "snd (ICMP_Probe example_icmp example_icmp_spec (Inr example_socket) None 0 0 (\<lambda>_. None) (\<lambda>_. None) example_reads
      \<lparr>ip_conns = [], ip_seq = 0, ip_id = 7\<rparr>) =
    Some \<lparr>res_Success = True, res_RTT = 2, res_ErrorKind = ErrKNone, res_Detail = [], res_ObservedAt = 2\<rparr>"
proof -
  let ?p = "\<lparr>ip_conns = [], ip_seq = 0, ip_id = 7\<rparr>" and ?rds = "example_reads (Some 5)"
  obtain target where t: "parse_ip ''10.0.0.254'' = Some target" "ip_string target = ''10.0.0.254''"
  proof -
    have "map_option ip_string (parse_ip ''10.0.0.254'') = Some ''10.0.0.254''" by code_simp
    then show thesis using that by auto
  qed
  have q: "snd (next_seq (ip_seq ?p)) = 1" by (simp add: next_seq_def)
  have h: "honours_deadline example_reads"
    unfolding honours_deadline_def
  proof (intro allI conjI impI)
    show "\<exists>n. d < read_at (example_reads (Some d) n)" for d
      by (rule exI [of _ 2]) (simp add: example_reads_def read_at_def)
    show "timed_out (example_reads (Some d) (Suc n))" if "d < read_at (example_reads (Some d) n)" for d n
      using that by (auto simp: example_reads_def read_at_def timed_out_def split: if_splits)
  qed
  have to: "probe_timeout (ps_Timeout example_icmp_spec) None = 5" by (simp add: example_icmp_spec_def probe_timeout_def)
  have s: "parse_ip (ps_Target example_icmp_spec) = Some target" "0 < probe_timeout (ps_Timeout example_icmp_spec) None"
    using t(1) by (simp_all add: to) (simp add: example_icmp_spec_def)
  have w: "il_Marshal example_icmp m = Inr ''wire''" for m by (simp add: example_icmp_def)
  have p: "ip_id ?p = 7" "sk_v6 example_socket = False" by (simp_all add: example_socket_def)
  obtain r k where r: "snd (ICMP_Probe example_icmp example_icmp_spec (Inr example_socket) None 0 0 (\<lambda>_. None) (\<lambda>_. None) example_reads ?p) = Some r"
    and skipped: "\<forall>j<k. \<not> is_read_error (?rds j) \<and> \<not> answers example_icmp False 7 1 ''10.0.0.254'' (?rds j)"
    and last: "case ?rds k of
        ReadErr e at \<Rightarrow> r = \<lparr>res_Success = False, res_RTT = 0, res_ErrorKind = classify e, res_Detail = io_Text e, res_ObservedAt = at\<rparr>
      | ReadPacket _ _ at \<Rightarrow> answers example_icmp False 7 1 ''10.0.0.254'' (?rds k) \<and>
          r = \<lparr>res_Success = True, res_RTT = at - 0, res_ErrorKind = ErrKNone, res_Detail = [], res_ObservedAt = at\<rparr>"
    using probe_returns_the_answer [OF s w refl refl h, where now = 0 and start = 0 and sk = example_socket and p = ?p]
    unfolding to q p t(2) Let_def add_0 by blast
  have zero: "?rds 0 = ReadPacket ''10.0.0.9'' ''noise'' 1" and one: "?rds 1 = ReadPacket ''10.0.0.254'' ''reply'' 2"
    by (simp_all add: example_reads_def)
  have "\<not> answers example_icmp False 7 1 ''10.0.0.254'' (?rds 0)" "answers example_icmp False 7 1 ''10.0.0.254'' (?rds 1)"
    by (simp_all add: answers_def example_icmp_def example_reads_def)
  note first_two = this
  have "k \<noteq> 0"
  proof
    assume "k = 0"
    with last zero have "answers example_icmp False 7 1 ''10.0.0.254'' (?rds 0)" by simp
    then show False using first_two(1) by blast
  qed
  moreover have "\<not> 1 < k" using skipped first_two(2) by blast
  ultimately have "k = 1" by simp
  with last one have "r = \<lparr>res_Success = True, res_RTT = 2, res_ErrorKind = ErrKNone, res_Detail = [], res_ObservedAt = 2\<rparr>" by simp
  then show ?thesis using r by simp
qed

text \<open>
  C32. A probe socket is opened in the namespace the spec names, or in the thread's own when it names none;
  it listens on the spec's source address with the ICMP network of that address's family; and where its raw
  descriptor can be had, it is pinned to the spec's interface, otherwise to none. When every call
  succeeds there is a socket. On every path, errors included, the thread is back where it was, unless the
  switch back itself fails, which nobody is told.
\<close>

theorem openSocket_returns_home:
  assumes "openSocket os s ns = (res, ns')"
  shows "(ns' = ns \<or> ns' = ps_NetnsPath s \<and> sc_Set os 1 \<noteq> None) \<and>
    (\<forall>sk. res = Inr sk \<longrightarrow> (\<exists>ip. parse_ip (ps_SourceIP s) = Some ip \<and> sk_v6 sk = (\<not> is_v4 ip) \<and>
       sk_pc sk = \<lparr>cn_home = (if ps_NetnsPath s = [] then ns else ps_NetnsPath s),
         cn_network = (if is_v4 ip then ''ip4:icmp'' else ''ip6:ipv6-icmp''), cn_addr = ps_SourceIP s,
         cn_device = (if ps_Interface s \<noteq> [] \<and> sc_Raw os then Some (ps_Interface s) else None)\<rparr>)) \<and>
    (parse_ip (ps_SourceIP s) \<noteq> None \<and> sc_Get os = None \<and> sc_FromPath os (ps_NetnsPath s) = None \<and> sc_Set os 0 = None \<and>
       (\<forall>net. sc_Listen os (if ps_NetnsPath s = [] then ns else ps_NetnsPath s) net (ps_SourceIP s) = None) \<and>
       sc_Bind os (ps_Interface s) = None \<longrightarrow> (\<exists>sk. res = Inr sk))"
proof -
  have listen: "sk_v6 sk = v6 \<and> sk_pc sk = \<lparr>cn_home = home, cn_network = (if v6 then ''ip6:ipv6-icmp'' else ''ip4:icmp''),
      cn_addr = ps_SourceIP s, cn_device = (if ps_Interface s \<noteq> [] \<and> sc_Raw os then Some (ps_Interface s) else None)\<rparr>"
    if "listen_bound os s v6 home = Inr sk" for v6 home sk
    using that by (auto simp: listen_bound_def ListenPacket_def BindToDevice_def Let_def split: option.splits if_splits)
  have opened: "\<exists>sk. listen_bound os s v6 home = Inr sk"
    if "\<forall>net. sc_Listen os home net (ps_SourceIP s) = None" "sc_Bind os (ps_Interface s) = None" for v6 home
    using that by (simp add: listen_bound_def ListenPacket_def BindToDevice_def Let_def)
  let ?home = "if ps_NetnsPath s = [] then ns else ps_NetnsPath s"
  have home: "ns' = ns \<or> ns' = ps_NetnsPath s \<and> sc_Set os 1 \<noteq> None"
    using assms by (auto simp: openSocket_def Let_def split: option.splits if_splits)
  have from_listen: "\<exists>ip. parse_ip (ps_SourceIP s) = Some ip \<and> listen_bound os s (\<not> is_v4 ip) ?home = Inr sk" if "res = Inr sk" for sk
    using that assms by (auto simp: openSocket_def Let_def split: option.splits if_splits)
  have pinned: "\<exists>ip. parse_ip (ps_SourceIP s) = Some ip \<and> sk_v6 sk = (\<not> is_v4 ip) \<and>
       sk_pc sk = \<lparr>cn_home = ?home, cn_network = (if is_v4 ip then ''ip4:icmp'' else ''ip6:ipv6-icmp''), cn_addr = ps_SourceIP s,
         cn_device = (if ps_Interface s \<noteq> [] \<and> sc_Raw os then Some (ps_Interface s) else None)\<rparr>" if "res = Inr sk" for sk
  proof -
    from from_listen [OF that] obtain ip where ip: "parse_ip (ps_SourceIP s) = Some ip" "listen_bound os s (\<not> is_v4 ip) ?home = Inr sk" by blast
    from listen [OF ip(2)] ip(1) show ?thesis by (intro exI [of _ ip]) simp
  qed
  have "\<exists>sk. res = Inr sk" if ok: "parse_ip (ps_SourceIP s) \<noteq> None" "sc_Get os = None" "sc_FromPath os (ps_NetnsPath s) = None"
      "sc_Set os 0 = None" and l: "\<forall>net. sc_Listen os ?home net (ps_SourceIP s) = None" "sc_Bind os (ps_Interface s) = None"
  proof -
    from ok(1) obtain ip where ip: "parse_ip (ps_SourceIP s) = Some ip" by blast
    from opened [OF l, of "\<not> is_v4 ip"] assms ok ip show ?thesis
      by (auto simp: openSocket_def Let_def split: if_splits)
  qed
  with home pinned show ?thesis by blast
qed

lemma openSocket_returns_home_witness:
  "openSocket example_sys_calls example_icmp_spec ''host'' = (Inr example_socket, ''host'') \<and>
    sk_pc example_socket = \<lparr>cn_home = ''/pod'', cn_network = ''ip4:icmp'', cn_addr = ''10.0.0.1'', cn_device = Some ''net1''\<rparr>"
proof -
  have "map_option is_v4 (parse_ip ''10.0.0.1'') = Some True" by code_simp
  then obtain ip where ip: "parse_ip ''10.0.0.1'' = Some ip" "is_v4 ip" by auto
  then have o: "openSocket example_sys_calls example_icmp_spec ''host'' = (Inr example_socket, ''host'')"
    by (simp add: openSocket_def listen_bound_def ListenPacket_def BindToDevice_def example_sys_calls_def example_icmp_spec_def example_socket_def)
  from openSocket_returns_home [OF o] o ip show ?thesis by (simp add: example_icmp_spec_def example_sys_calls_def)
qed

text \<open>
  Sequence numbers are sixteen bits of a 32-bit counter: two probes fewer than 65536 apart never
  carry the same one, also across the wrap of the counter.
\<close>

theorem sequence_numbers_distinct:
  assumes "0 < k" and "k < 65536"
  shows "snd (next_seq q) \<noteq> snd (next_seq (q + of_nat k))"
proof
  assume eq: "snd (next_seq q) = snd (next_seq (q + of_nat k))"
  have "(unat (q + 1) + k) mod 65536 = unat (q + 1) mod 65536"
    using eq mod_add_word [of "q + 1" k] by (simp add: next_seq_def algebra_simps)
  then have "65536 dvd k"
    using mod_eq_dvd_iff_nat [of "unat (q + 1)" "unat (q + 1) + k" 65536] by simp
  with assms show False by (simp add: nat_dvd_not_less)
qed

lemma sequence_numbers_distinct_witness: "snd (next_seq 4294967295) \<noteq> snd (next_seq (4294967295 + of_nat 65535))"
  by (rule sequence_numbers_distinct) simp_all

end
