(* ===== verification/Local_Net.thy ===== *)
theory Local_Net
  imports Network_Status ICMP_Probe
begin

text \<open>
  \<^verbatim>\<open>internal/agent/local\<close> and \<^verbatim>\<open>internal/agent/netns\<close>: one interface seen from inside its namespace,
  the subscriptions to its changes, and the way from a Pod UID to a namespace path through the
  container runtime and its cache. The netlink library, the runtime and the file system are
  parameters: the outcomes of the calls. The callers are one goroutine, so each method is one step.
\<close>

section \<open>One interface\<close>

record Link =
  ln_Exists :: bool
  ln_Usable :: bool
  ln_Flags :: string
  ln_Oper :: string
  ln_Addrs :: "(string, bool) gomap"

definition Has :: "Link \<Rightarrow> string \<Rightarrow> bool" where
  "Has l ip \<longleftrightarrow> gm_get (ln_Addrs l) ip = Some True"

text \<open>
  What netlink tells: \<open>la_Flags\<close> is the flag word (its lowest bit is \<^verbatim>\<open>net.FlagUp\<close>), \<open>la_OperDown\<close>
  whether the operational state is Down; an address without an IP is \<open>None\<close>.
\<close>

record LinkAttrs =
  la_Flags :: "32 word"
  la_FlagsString :: string
  la_OperDown :: bool
  la_OperString :: string

datatype link_error = LinkNotFound | LinkError string

record netlink =
  nl_Open :: "string \<Rightarrow> string option"
  nl_Handle :: "string \<Rightarrow> string option"
  nl_Link :: "string \<Rightarrow> string \<Rightarrow> link_error + LinkAttrs"
  nl_Addrs :: "string \<Rightarrow> string \<Rightarrow> string + nat list option list"

definition no_link :: Link where
  "no_link = \<lparr>ln_Exists = False, ln_Usable = False, ln_Flags = [], ln_Oper = [], ln_Addrs = []\<rparr>"

definition Inspect :: "netlink \<Rightarrow> string \<Rightarrow> string \<Rightarrow> go_error + Link" where
  "Inspect nl nsPath iface = (case nl_Open nl nsPath of
      Some e \<Rightarrow> Inl (ErrIO (''open netns '' @ nsPath @ '': '' @ e))
    | None \<Rightarrow> (case nl_Handle nl nsPath of
        Some e \<Rightarrow> Inl (ErrIO (''netlink handle in '' @ nsPath @ '': '' @ e))
      | None \<Rightarrow> (case nl_Link nl nsPath iface of
          Inl LinkNotFound \<Rightarrow> Inr no_link
        | Inl (LinkError e) \<Rightarrow> Inl (ErrIO (''link '' @ iface @ '' in '' @ nsPath @ '': '' @ e))
        | Inr attrs \<Rightarrow>
            let out = \<lparr>ln_Exists = True, ln_Usable = (la_Flags attrs AND 1 \<noteq> 0 \<and> \<not> la_OperDown attrs),
                  ln_Flags = la_FlagsString attrs, ln_Oper = la_OperString attrs, ln_Addrs = []\<rparr> in
            (case nl_Addrs nl nsPath iface of
               Inl e \<Rightarrow> Inl (ErrIO (''addrs of '' @ iface @ '' in '' @ nsPath @ '': '' @ e))
             | Inr addrs \<Rightarrow> Inr (out\<lparr>ln_Addrs := gm_put_all id (\<lambda>_. True) (List.map_filter (map_option ip_string) addrs) []\<rparr>)))))"

section \<open>Subscriptions\<close>

text \<open>
  A done channel is its number; closing it puts the number into \<open>mo_done\<close>. \<open>mo_pumps\<close> are the
  channels whose pump has not returned by itself, because a netlink channel was closed under it.
\<close>

record subscription =
  su_path :: string
  su_done :: nat

record Monitor =
  mo_watching :: "(string, subscription) gomap"
  mo_out :: "string list"
  mo_cap :: nat
  mo_closed :: bool
  mo_next :: nat
  mo_done :: "nat list"
  mo_pumps :: "nat list"

definition NewMonitor :: "nat \<Rightarrow> Monitor" where
  "NewMonitor buf = \<lparr>mo_watching = [], mo_out = [], mo_cap = buf, mo_closed = False, mo_next = 0, mo_done = [], mo_pumps = []\<rparr>"

text \<open>The outcomes of the three calls of \<^verbatim>\<open>Ensure\<close>; \<open>None\<close> is success.\<close>

record subscribe_calls =
  sb_Open :: "string option"
  sb_Link :: "string option"
  sb_Addr :: "string option"

definition mon_subscribe :: "subscribe_calls \<Rightarrow> string \<Rightarrow> string \<Rightarrow> Monitor \<Rightarrow> Monitor \<times> string option" where
  "mon_subscribe calls podUID nsPath m = (case sb_Open calls of
      Some e \<Rightarrow> (m, Some e)
    | None \<Rightarrow> let d = mo_next m; m1 = m\<lparr>mo_next := Suc d\<rparr> in
        (case sb_Link calls of
           Some e \<Rightarrow> (m1\<lparr>mo_done := d # mo_done m1\<rparr>, Some e)
         | None \<Rightarrow> (case sb_Addr calls of
             Some e \<Rightarrow> (m1\<lparr>mo_done := d # mo_done m1\<rparr>, Some e)
           | None \<Rightarrow> (m1\<lparr>mo_watching := gm_put podUID \<lparr>su_path = nsPath, su_done = d\<rparr> (mo_watching m1),
                 mo_pumps := d # mo_pumps m1\<rparr>, None))))"

definition Ensure :: "subscribe_calls \<Rightarrow> string \<Rightarrow> string \<Rightarrow> Monitor \<Rightarrow> Monitor \<times> string option" where
  "Ensure calls podUID nsPath m =
     (if mo_closed m then (m, None)
      else case gm_get (mo_watching m) podUID of
        Some cur \<Rightarrow> if su_path cur = nsPath then (m, None)
          else mon_subscribe calls podUID nsPath
            (m\<lparr>mo_done := su_done cur # mo_done m, mo_watching := gm_del podUID (mo_watching m)\<rparr>)
      | None \<Rightarrow> mon_subscribe calls podUID nsPath m)"

definition mon_wake :: "string \<Rightarrow> Monitor \<Rightarrow> Monitor" where
  "mon_wake podUID m = (if length (mo_out m) < mo_cap m then m\<lparr>mo_out := mo_out m @ [podUID]\<rparr> else m)"

definition mon_Forget :: "string \<Rightarrow> Monitor \<Rightarrow> Monitor" where
  "mon_Forget podUID m = (case gm_get (mo_watching m) podUID of
      None \<Rightarrow> m
    | Some s \<Rightarrow> m\<lparr>mo_done := su_done s # mo_done m, mo_watching := gm_del podUID (mo_watching m)\<rparr>)"

definition Watching :: "Monitor \<Rightarrow> string list" where
  "Watching m = gm_keys (mo_watching m)"

definition mon_Close :: "Monitor \<Rightarrow> Monitor" where
  "mon_Close m = (if mo_closed m then m
     else m\<lparr>mo_closed := True, mo_done := map (su_done \<circ> snd) (mo_watching m) @ mo_done m, mo_watching := []\<rparr>)"

text \<open>A pump ends with its done channel, or with one of the channels it reads from.\<close>

definition pump_exit :: "subscription \<Rightarrow> Monitor \<Rightarrow> Monitor" where
  "pump_exit s m = m\<lparr>mo_pumps := removeAll (su_done s) (mo_pumps m)\<rparr>"

definition sub_open :: "Monitor \<Rightarrow> subscription \<Rightarrow> bool" where
  "sub_open m s \<longleftrightarrow> su_done s \<notin> set (mo_done m)"

definition pump_runs :: "Monitor \<Rightarrow> subscription \<Rightarrow> bool" where
  "pump_runs m s \<longleftrightarrow> sub_open m s \<and> su_done s \<in> set (mo_pumps m)"

datatype mon_op = MEnsure subscribe_calls string string | MWake string | MForget string | MClose | MDrain | MExit subscription

fun mon_run :: "mon_op \<Rightarrow> Monitor \<Rightarrow> Monitor" where
  "mon_run (MEnsure c u p) m = fst (Ensure c u p m)"
| "mon_run (MWake u) m = mon_wake u m"
| "mon_run (MForget u) m = mon_Forget u m"
| "mon_run MClose m = mon_Close m"
| "mon_run MDrain m = m\<lparr>mo_out := []\<rparr>"
| "mon_run (MExit s) m = pump_exit s m"

section \<open>Namespaces\<close>

record Handle =
  hd_PodUID :: string
  hd_SandboxID :: string
  hd_Path :: string
  hd_PID :: int

definition ErrNotFound :: go_error where
  "ErrNotFound = ErrIO ''no sandbox for pod''"

text \<open>The cache: \<open>exists\<close> is \<^verbatim>\<open>os.Stat\<close>, \<open>inner\<close> the runtime's answer.\<close>

definition Cache_Forget :: "string \<Rightarrow> (string, Handle) gomap \<Rightarrow> (string, Handle) gomap" where
  "Cache_Forget podUID m = gm_del podUID m"

definition Cache_Resolve :: "(string \<Rightarrow> bool) \<Rightarrow> (string \<Rightarrow> go_error + Handle) \<Rightarrow> string \<Rightarrow> (string, Handle) gomap
    \<Rightarrow> (string, Handle) gomap \<times> (go_error + Handle)" where
  "Cache_Resolve exists inner podUID m =
     (case gm_get m podUID of
        Some h \<Rightarrow> if exists (hd_Path h) then (m, Inr h)
          else (let m1 = Cache_Forget podUID m in
            (case inner podUID of Inl e \<Rightarrow> (m1, Inl e) | Inr h' \<Rightarrow> (gm_put podUID h' m1, Inr h')))
      | None \<Rightarrow> (case inner podUID of Inl e \<Rightarrow> (m, Inl e) | Inr h' \<Rightarrow> (gm_put podUID h' m, Inr h')))"

definition Cache_Len :: "(string, Handle) gomap \<Rightarrow> nat" where
  "Cache_Len m = length m"

section \<open>The container runtime\<close>

record PodSandbox =
  sb_Id :: string
  sb_Ready :: bool
  sb_CreatedAt :: int

record sandboxInfo =
  si_PID :: int
  si_Closed :: bool
  si_Namespaces :: "(string \<times> string) list"

definition zero_sandboxInfo :: sandboxInfo where
  "zero_sandboxInfo = \<lparr>si_PID = 0, si_Closed = False, si_Namespaces = []\<rparr>"

text \<open>An integer literal in the range of a 64-bit \<^verbatim>\<open>int\<close>.\<close>

definition int_literal :: "string \<Rightarrow> int option" where
  "int_literal s = (let neg = (s \<noteq> [] \<and> hd s = CHR ''-''); ds = (if neg then tl s else s);
       v = (if neg then - int (dec_val ds) else int (dec_val ds)) in
     if ds \<noteq> [] \<and> list_all is_digit ds \<and> - (2 ^ 63) \<le> v \<and> v < 2 ^ 63 then Some v else None)"

definition dec_int :: "json \<Rightarrow> int \<Rightarrow> int option" where
  "dec_int v old = (case v of JNull \<Rightarrow> Some old | JNum n \<Rightarrow> int_literal n | _ \<Rightarrow> None)"

text \<open>A struct is decoded member by member; null leaves it as it was.\<close>

fun dec_struct :: "((string \<times> json) \<Rightarrow> 'a \<Rightarrow> 'a option) \<Rightarrow> (string \<times> json) list \<Rightarrow> 'a \<Rightarrow> 'a option" where
  "dec_struct f [] x = Some x"
| "dec_struct f (m # ms) x = (case f m x of None \<Rightarrow> None | Some x' \<Rightarrow> dec_struct f ms x')"

definition dec_object :: "((string \<times> json) \<Rightarrow> 'a \<Rightarrow> 'a option) \<Rightarrow> json \<Rightarrow> 'a \<Rightarrow> 'a option" where
  "dec_object f v x = (case v of JNull \<Rightarrow> Some x | JObj ms \<Rightarrow> dec_struct f ms x | _ \<Rightarrow> None)"

definition ns_field :: "string \<times> json \<Rightarrow> string \<times> string \<Rightarrow> (string \<times> string) option" where
  "ns_field m x = (case m of (k, v) \<Rightarrow>
     if field_match ''type'' k then map_option (\<lambda>s. (s, snd x)) (dec_string v (fst x))
     else if field_match ''path'' k then map_option (\<lambda>s. (fst x, s)) (dec_string v (snd x))
     else Some x)"

text \<open>The elements of a slice decoded again start from what was there.\<close>

fun dec_ns_elems :: "json list \<Rightarrow> (string \<times> string) list \<Rightarrow> (string \<times> string) list option" where
  "dec_ns_elems [] old = Some []"
| "dec_ns_elems (v # vs) old = (case dec_object ns_field v (case old of [] \<Rightarrow> ([], []) | o1 # _ \<Rightarrow> o1) of
     None \<Rightarrow> None
   | Some x \<Rightarrow> (case dec_ns_elems vs (tl old) of None \<Rightarrow> None | Some xs \<Rightarrow> Some (x # xs)))"

definition linux_field :: "string \<times> json \<Rightarrow> (string \<times> string) list \<Rightarrow> (string \<times> string) list option" where
  "linux_field m x = (case m of (k, v) \<Rightarrow>
     if field_match ''namespaces'' k then (case v of JNull \<Rightarrow> Some [] | JArr vs \<Rightarrow> dec_ns_elems vs x | _ \<Rightarrow> None)
     else Some x)"

definition spec_field :: "string \<times> json \<Rightarrow> (string \<times> string) list \<Rightarrow> (string \<times> string) list option" where
  "spec_field m x = (case m of (k, v) \<Rightarrow> if field_match ''linux'' k then dec_object linux_field v x else Some x)"

definition info_field :: "string \<times> json \<Rightarrow> sandboxInfo \<Rightarrow> sandboxInfo option" where
  "info_field m x = (case m of (k, v) \<Rightarrow>
     if field_match ''pid'' k then map_option (\<lambda>n. x\<lparr>si_PID := n\<rparr>) (dec_int v (si_PID x))
     else if field_match ''netNamespaceClosed'' k then map_option (\<lambda>b. x\<lparr>si_Closed := b\<rparr>) (dec_bool v (si_Closed x))
     else if field_match ''runtimeSpec'' k then map_option (\<lambda>ns. x\<lparr>si_Namespaces := ns\<rparr>) (dec_object spec_field v (si_Namespaces x))
     else Some x)"

definition parse_info :: "string \<Rightarrow> sandboxInfo option" where
  "parse_info raw = (case json_parse raw of None \<Rightarrow> None | Some j \<Rightarrow> dec_object info_field j zero_sandboxInfo)"

definition newest_ready :: "PodSandbox list \<Rightarrow> PodSandbox option" where
  "newest_ready l = fold (\<lambda>s best. if \<not> sb_Ready s then best
     else case best of None \<Rightarrow> Some s | Some b \<Rightarrow> if sb_CreatedAt s > sb_CreatedAt b then Some s else best) l None"

definition ns_path :: "sandboxInfo \<Rightarrow> string" where
  "ns_path info = (case find (\<lambda>(t, p). t = ''network'' \<and> p \<noteq> []) (si_Namespaces info) of
      Some (_, p) \<Rightarrow> p
    | None \<Rightarrow> if si_PID info > 0 then ''/proc/'' @ nat_string (nat (si_PID info)) @ ''/ns/net'' else [])"

text \<open>
  The connection to the runtime: \<open>new_client\<close> dials, \<open>version\<close> is the check under that timeout. The
  second component is what was closed.
\<close>

definition NewCRIResolver :: "(string \<Rightarrow> go_error + 'conn) \<Rightarrow> ('conn \<Rightarrow> int \<Rightarrow> go_error option) \<Rightarrow> string
    \<Rightarrow> (go_error + 'conn) \<times> 'conn list" where
  "NewCRIResolver new_client version endpoint = (case new_client endpoint of
      Inl e \<Rightarrow> (Inl e, [])
    | Inr conn \<Rightarrow> (case version conn (10 * time_Second) of
        Some e \<Rightarrow> (Inl e, [conn])
      | None \<Rightarrow> (Inr conn, [])))"

text \<open>\<open>list_boxes\<close> and \<open>status\<close> are the two calls of the runtime; \<open>status\<close> yields the map \<^verbatim>\<open>Info\<close>.\<close>

definition CRI_Resolve :: "(string \<Rightarrow> go_error + PodSandbox list) \<Rightarrow> (string \<Rightarrow> go_error + (string, string) gomap) \<Rightarrow> (string \<Rightarrow> bool)
    \<Rightarrow> string \<Rightarrow> go_error + Handle" where
  "CRI_Resolve list_boxes status exists podUID = (case list_boxes podUID of
      Inl e \<Rightarrow> Inl e
    | Inr items \<Rightarrow> (case newest_ready items of
        None \<Rightarrow> Inl ErrNotFound
      | Some best \<Rightarrow> (case status (sb_Id best) of
          Inl e \<Rightarrow> Inl e
        | Inr st \<Rightarrow> (case (case gm_get st ''info'' of None \<Rightarrow> Some zero_sandboxInfo | Some raw \<Rightarrow> parse_info raw) of
            None \<Rightarrow> Inl (ErrIO (''parse sandbox info '' @ sb_Id best))
          | Some info \<Rightarrow>
              if si_Closed info then Inl ErrNotFound
              else let h = \<lparr>hd_PodUID = podUID, hd_SandboxID = sb_Id best, hd_Path = ns_path info, hd_PID = si_PID info\<rparr> in
                if hd_Path h = [] then Inl (ErrIO (''sandbox '' @ sb_Id best @ '' exposes no network namespace''))
                else if \<not> exists (hd_Path h) then Inl (ErrIO (''netns '' @ hd_Path h))
                else Inr h))))"

section \<open>Lemmas\<close>

text \<open>Every subscription is open, and no two share a channel.\<close>

definition mon_ok :: "Monitor \<Rightarrow> bool" where
  "mon_ok m \<longleftrightarrow> gm_wf (mo_watching m) \<and> (\<forall>u s. gm_get (mo_watching m) u = Some s \<longrightarrow> sub_open m s \<and> su_done s < mo_next m) \<and>
     (\<forall>u u' s s'. gm_get (mo_watching m) u = Some s \<and> gm_get (mo_watching m) u' = Some s' \<and> su_done s = su_done s' \<longrightarrow> u = u') \<and>
     (\<forall>d \<in> set (mo_done m). d < mo_next m) \<and> (mo_closed m \<longrightarrow> mo_watching m = []) \<and> length (mo_out m) \<le> mo_cap m"

lemma mon_ok_New: "mon_ok (NewMonitor buf)"
  by (simp add: mon_ok_def NewMonitor_def)

lemma mon_ok_drop:
  assumes "mon_ok m" and "gm_get (mo_watching m) u = Some s"
  shows "mon_ok (m\<lparr>mo_done := su_done s # mo_done m, mo_watching := gm_del u (mo_watching m)\<rparr>)"
proof -
  note ok = assms(1) [unfolded mon_ok_def]
  have "su_done t \<noteq> su_done s" if "gm_get (mo_watching m) v = Some t" "v \<noteq> u" for v t
    using that assms(2) ok by blast
  then show ?thesis using ok assms(2) by (auto simp: mon_ok_def sub_open_def)
qed

lemma mon_ok_subscribe: "mon_ok m \<Longrightarrow> \<not> mo_closed m \<Longrightarrow> mon_ok (fst (mon_subscribe c u p m))"
  unfolding mon_subscribe_def mon_ok_def sub_open_def Let_def
  by (auto split: option.split if_splits dest: less_SucI) (fastforce split: if_splits)+

lemma mon_ok_Ensure:
  assumes "mon_ok m" shows "mon_ok (fst (Ensure c u p m))"
proof (cases "mo_closed m")
  case True
  then show ?thesis using assms by (simp add: Ensure_def)
next
  case False
  show ?thesis
  proof (cases "gm_get (mo_watching m) u")
    case None
    then show ?thesis using assms False by (simp add: Ensure_def mon_ok_subscribe)
  next
    case (Some cur)
    then show ?thesis using assms False mon_ok_subscribe [OF mon_ok_drop [OF assms Some]] by (simp add: Ensure_def)
  qed
qed

lemma mon_ok_run: "mon_ok m \<Longrightarrow> mon_ok (mon_run op m)"
proof (cases op)
  case (MEnsure c u p)
  assume "mon_ok m" then show ?thesis by (simp add: MEnsure mon_ok_Ensure)
next
  case (MForget u)
  assume ok: "mon_ok m"
  then show ?thesis using mon_ok_drop [OF ok, of u] by (simp add: MForget mon_Forget_def split: option.split)
next
  case (MWake u)
  assume "mon_ok m" then show ?thesis by (auto simp: MWake mon_wake_def mon_ok_def sub_open_def)
next
  case (MExit s)
  assume "mon_ok m" then show ?thesis by (auto simp: MExit pump_exit_def mon_ok_def sub_open_def)
next
  case MDrain
  assume "mon_ok m" then show ?thesis by (auto simp: MDrain mon_ok_def sub_open_def)
next
  case MClose
  assume ok: "mon_ok m"
  have "su_done s < mo_next m" if "(u, s) \<in> set (mo_watching m)" for u s
    using gm_mem_get [OF _ that] ok by (auto simp: mon_ok_def)
  then show ?thesis using ok by (auto simp: MClose mon_Close_def mon_ok_def sub_open_def)
qed

lemma mon_ok_fold: "mon_ok m \<Longrightarrow> mon_ok (fold mon_run ops m)"
  by (induction ops arbitrary: m) (simp_all add: mon_ok_run)

lemma Ensure_watches:
  assumes "\<not> mo_closed m" and "snd (Ensure c u p m) = None"
  shows "\<exists>s. gm_get (mo_watching (fst (Ensure c u p m))) u = Some s \<and> su_path s = p"
  using assms by (auto simp: Ensure_def mon_subscribe_def Let_def split: option.splits if_splits)

lemma newest_ready_step:
  "best = None \<longrightarrow> (\<forall>s \<in> set seen. \<not> sb_Ready s) \<Longrightarrow>
   (\<And>b. best = Some b \<Longrightarrow> b \<in> set seen \<and> sb_Ready b \<and> (\<forall>s \<in> set seen. sb_Ready s \<longrightarrow> sb_CreatedAt s \<le> sb_CreatedAt b)) \<Longrightarrow>
   (case fold (\<lambda>s best. if \<not> sb_Ready s then best
       else case best of None \<Rightarrow> Some s | Some b \<Rightarrow> if sb_CreatedAt s > sb_CreatedAt b then Some s else best) l best of
      None \<Rightarrow> \<forall>s \<in> set (seen @ l). \<not> sb_Ready s
    | Some b \<Rightarrow> b \<in> set (seen @ l) \<and> sb_Ready b \<and> (\<forall>s \<in> set (seen @ l). sb_Ready s \<longrightarrow> sb_CreatedAt s \<le> sb_CreatedAt b))"
proof (induction l arbitrary: best seen)
  case Nil
  then show ?case by (cases best) auto
next
  case (Cons x l)
  let ?b = "if \<not> sb_Ready x then best
     else case best of None \<Rightarrow> Some x | Some b \<Rightarrow> if sb_CreatedAt x > sb_CreatedAt b then Some x else best"
  have 1: "?b = None \<longrightarrow> (\<forall>s \<in> set (seen @ [x]). \<not> sb_Ready s)"
    using Cons.prems(1) by (auto split: option.split)
  have 2: "b \<in> set (seen @ [x]) \<and> sb_Ready b \<and> (\<forall>s \<in> set (seen @ [x]). sb_Ready s \<longrightarrow> sb_CreatedAt s \<le> sb_CreatedAt b)"
    if "?b = Some b" for b
    using that Cons.prems by (cases best) (force split: if_splits)+
  show ?case using Cons.IH [where best = ?b and seen = "seen @ [x]", OF 1 2]
    unfolding append_assoc append_Cons append_Nil fold_simps .
qed

lemma newest_ready_Some:
  assumes "newest_ready l = Some b"
  shows "b \<in> set l" "sb_Ready b" "\<forall>s \<in> set l. sb_Ready s \<longrightarrow> sb_CreatedAt s \<le> sb_CreatedAt b"
  using newest_ready_step [where best = None and seen = "[]" and l = l] assms
  by (simp_all add: newest_ready_def)

lemma newest_ready_None: "newest_ready l = None \<longleftrightarrow> (\<forall>s \<in> set l. \<not> sb_Ready s)"
  using newest_ready_step [where best = None and seen = "[]" and l = l] newest_ready_Some(1,2) [of l]
  by (cases "newest_ready l") (auto simp: newest_ready_def)

text \<open>A connection that was dialled is handed out, after the runtime has answered, or closed.\<close>

lemma NewCRIResolver_owned:
  assumes "NewCRIResolver new_client version endpoint = (res, closed)" and "new_client endpoint = Inr conn"
  shows "res = Inr conn \<and> closed = [] \<and> version conn (10 * time_Second) = None \<or> (\<exists>e. res = Inl e \<and> version conn (10 * time_Second) = Some e) \<and> closed = [conn]"
  using assms by (auto simp: NewCRIResolver_def split: option.splits)

lemma CRI_Resolve_Inr:
  assumes "CRI_Resolve list_boxes status exists u = Inr h"
  obtains items b where "list_boxes u = Inr items" "newest_ready items = Some b" "hd_SandboxID h = sb_Id b"
    "hd_PodUID h = u" "hd_Path h \<noteq> []" "exists (hd_Path h)"
  using assms by (auto simp: CRI_Resolve_def Let_def split: sum.splits option.splits if_splits)

section \<open>The contract of a resolver\<close>

text \<open>
  The interface \<^verbatim>\<open>Resolver\<close> with the cache's \<^verbatim>\<open>Forget\<close>: what is handed out belongs to the Pod asked
  for and is there. A world is what the runtime and the file system answer at one moment.
\<close>

datatype 'w cache_op = CResolve 'w string | CForget string

locale resolver =
  fixes ok :: "'s \<Rightarrow> bool"
    and resolve :: "'w \<Rightarrow> string \<Rightarrow> 's \<Rightarrow> 's \<times> (go_error + Handle)"
    and forget :: "string \<Rightarrow> 's \<Rightarrow> 's"
    and there :: "'w \<Rightarrow> string \<Rightarrow> bool"
  assumes ok_resolve: "ok s \<Longrightarrow> ok (fst (resolve w u s))"
    and ok_forget: "ok s \<Longrightarrow> ok (forget u s)"
    and own: "ok s \<Longrightarrow> snd (resolve w u s) = Inr h \<Longrightarrow> hd_PodUID h = u \<and> there w (hd_Path h)"
begin

lemma requests_ok: "ok s \<Longrightarrow> ok (fold (\<lambda>op s. case op of CResolve w u \<Rightarrow> fst (resolve w u s) | CForget u \<Rightarrow> forget u s) rs s)"
  by (induction rs arbitrary: s) (auto intro: ok_resolve ok_forget split: cache_op.split)

lemma answers_own:
  "ok s \<Longrightarrow> snd (resolve w u (fold (\<lambda>op s. case op of CResolve w u \<Rightarrow> fst (resolve w u s) | CForget u \<Rightarrow> forget u s) rs s)) = Inr h \<Longrightarrow>
     hd_PodUID h = u \<and> there w (hd_Path h)"
  by (rule own [OF requests_ok])

end

text \<open>A cache in front of any resolver that keeps no state of its own is a resolver.\<close>

definition cache_own :: "(string, Handle) gomap \<Rightarrow> bool" where
  "cache_own m \<longleftrightarrow> (\<forall>u h. gm_get m u = Some h \<longrightarrow> hd_PodUID h = u)"

locale namespaces =
  fixes inner :: "'w \<Rightarrow> string \<Rightarrow> go_error + Handle"
    and there :: "'w \<Rightarrow> string \<Rightarrow> bool"
  assumes inner_own: "inner w u = Inr h \<Longrightarrow> hd_PodUID h = u \<and> there w (hd_Path h)"

sublocale namespaces \<subseteq> cached: resolver cache_own "\<lambda>w. Cache_Resolve (there w) (inner w)" Cache_Forget there
proof unfold_locales
  show "cache_own (fst (Cache_Resolve (there w) (inner w) u s))" if "cache_own s" for w u s
    using that inner_own [of w u]
    by (auto simp: cache_own_def Cache_Resolve_def Cache_Forget_def Let_def split: option.split sum.split)
  show "cache_own (Cache_Forget u s)" if "cache_own s" for u s
    using that by (auto simp: cache_own_def Cache_Forget_def)
  show "hd_PodUID h = u \<and> there w (hd_Path h)"
    if "cache_own s" "snd (Cache_Resolve (there w) (inner w) u s) = Inr h" for s w u h
    using that inner_own [of w u]
    by (auto simp: cache_own_def Cache_Resolve_def Cache_Forget_def Let_def split: option.splits sum.splits if_splits)
qed

record runtime_world =
  rw_Boxes :: "string \<Rightarrow> go_error + PodSandbox list"
  rw_Status :: "string \<Rightarrow> go_error + (string, string) gomap"
  rw_Exists :: "string \<Rightarrow> bool"

abbreviation cri_in :: "runtime_world \<Rightarrow> string \<Rightarrow> go_error + Handle" where
  "cri_in w \<equiv> CRI_Resolve (rw_Boxes w) (rw_Status w) (rw_Exists w)"

interpretation cri: namespaces cri_in rw_Exists
  by unfold_locales (auto elim: CRI_Resolve_Inr)

text \<open>The cache after the calls of an agent's life, each request in its world.\<close>

definition requested :: "runtime_world cache_op list \<Rightarrow> (string, Handle) gomap" where
  "requested rs = fold (\<lambda>op m. case op of CResolve w u \<Rightarrow> fst (Cache_Resolve (rw_Exists w) (cri_in w) u m)
     | CForget u \<Rightarrow> Cache_Forget u m) rs []"

text \<open>
  What it means that a handle is the network namespace of a Pod: its sandbox is a newest one among the
  Pod's ready sandboxes, the runtime does not say that its namespace is closed, and the path is the
  first one given under the type \<open>network\<close>, or the one of the process where none is given.
\<close>

definition sandbox_netns :: "runtime_world \<Rightarrow> string \<Rightarrow> Handle \<Rightarrow> bool" where
  "sandbox_netns w u h \<longleftrightarrow> (\<exists>items s st info.
     rw_Boxes w u = Inr items \<and> s \<in> set items \<and> sb_Ready s \<and> (\<forall>s' \<in> set items. sb_Ready s' \<longrightarrow> sb_CreatedAt s' \<le> sb_CreatedAt s) \<and>
     rw_Status w (sb_Id s) = Inr st \<and>
     (case gm_get st ''info'' of None \<Rightarrow> info = zero_sandboxInfo | Some raw \<Rightarrow> parse_info raw = Some info) \<and> \<not> si_Closed info \<and>
     hd_PodUID h = u \<and> hd_SandboxID h = sb_Id s \<and> hd_PID h = si_PID info \<and> hd_Path h \<noteq> [] \<and>
     ((\<exists>pre post. si_Namespaces info = pre @ (''network'', hd_Path h) # post \<and> (\<forall>p. (''network'', p) \<in> set pre \<longrightarrow> p = [])) \<or>
      (\<forall>p. (''network'', p) \<in> set (si_Namespaces info) \<longrightarrow> p = []) \<and> 0 < si_PID info \<and>
        hd_Path h = ''/proc/'' @ nat_string (nat (si_PID info)) @ ''/ns/net''))"

lemma first_network:
  "(case find (\<lambda>(t, p). t = ''network'' \<and> p \<noteq> []) l of
      Some (_, q) \<Rightarrow> q \<noteq> [] \<and> (\<exists>pre post. l = pre @ (''network'', q) # post \<and> (\<forall>p. (''network'', p) \<in> set pre \<longrightarrow> p = []))
    | None \<Rightarrow> \<forall>p. (''network'', p) \<in> set l \<longrightarrow> p = [])"
proof (induction l)
  case (Cons x l)
  obtain t p where x: "x = (t, p)" by (cases x)
  show ?case
  proof (cases "t = ''network'' \<and> p \<noteq> []")
    case True
    then show ?thesis by (simp add: x) (rule exI [of _ "[]"], simp)
  next
    case False
    show ?thesis
    proof (cases "find (\<lambda>(t, p). t = ''network'' \<and> p \<noteq> []) l")
      case None
      then show ?thesis using Cons False by (auto simp: x)
    next
      case (Some q)
      then obtain t' q' where q: "q = (t', q')" by (cases q)
      from Cons Some q obtain pre post where "q' \<noteq> []" "l = pre @ (''network'', q') # post" "\<forall>p. (''network'', p) \<in> set pre \<longrightarrow> p = []"
        by auto
      moreover from this False have "x # l = (x # pre) @ (''network'', q') # post" "\<forall>p. (''network'', p) \<in> set (x # pre) \<longrightarrow> p = []"
        by (auto simp: x)
      moreover have "find (\<lambda>(t, p). t = ''network'' \<and> p \<noteq> []) (x # l) = Some (t', q')" using False Some q by (auto simp: x)
      ultimately show ?thesis unfolding x by (simp only: option.case prod.case) blast
    qed
  qed
qed simp

lemma cri_netns:
  assumes "cri_in w u = Inr h" shows "sandbox_netns w u h"
proof -
  from assms obtain items b st info where c: "rw_Boxes w u = Inr items" "newest_ready items = Some b" "rw_Status w (sb_Id b) = Inr st"
    "(case gm_get st ''info'' of None \<Rightarrow> Some zero_sandboxInfo | Some raw \<Rightarrow> parse_info raw) = Some info" "\<not> si_Closed info"
    and h: "hd_PodUID h = u" "hd_SandboxID h = sb_Id b" "hd_PID h = si_PID info" "hd_Path h = ns_path info" "ns_path info \<noteq> []"
    by (auto simp: CRI_Resolve_def Let_def split: sum.splits option.splits if_splits)
  have "(\<exists>pre post. si_Namespaces info = pre @ (''network'', ns_path info) # post \<and> (\<forall>p. (''network'', p) \<in> set pre \<longrightarrow> p = [])) \<or>
      (\<forall>p. (''network'', p) \<in> set (si_Namespaces info) \<longrightarrow> p = []) \<and> 0 < si_PID info \<and>
        ns_path info = ''/proc/'' @ nat_string (nat (si_PID info)) @ ''/ns/net''"
    using first_network [of "si_Namespaces info"] h(5) by (auto simp: ns_path_def split: option.splits if_splits)
  moreover have "case gm_get st ''info'' of None \<Rightarrow> info = zero_sandboxInfo | Some raw \<Rightarrow> parse_info raw = Some info"
    using c(4) by (auto split: option.splits)
  ultimately show ?thesis
    unfolding sandbox_netns_def h(4)
    by (intro exI [of _ items] exI [of _ b] exI [of _ st] exI [of _ info]) (use c h newest_ready_Some [OF c(2)] in simp)
qed

text \<open>What the cache remembers of a Pod was its namespace at a request, and has not been forgotten since.\<close>

lemma remembered:
  "gm_get (requested rs) u = Some h \<Longrightarrow>
    \<exists>pre w post. rs = pre @ CResolve w u # post \<and> CForget u \<notin> set post \<and> sandbox_netns w u h"
proof (induction rs rule: rev_induct)
  case Nil
  then show ?case by (simp add: requested_def)
next
  case (snoc op rs)
  have keep: ?case if "gm_get (requested rs) u = Some h" "op \<noteq> CForget u"
    using snoc.IH [OF that(1)] that(2) by fastforce
  show ?case
  proof (cases op)
    case (CForget v)
    then have r: "requested (rs @ [op]) = gm_del v (requested rs)" by (simp add: requested_def Cache_Forget_def)
    then have "v \<noteq> u" "gm_get (requested rs) u = Some h" using snoc.prems by (auto split: if_splits)
    then show ?thesis using keep CForget by simp
  next
    case (CResolve w v)
    then have r: "requested (rs @ [op]) = fst (Cache_Resolve (rw_Exists w) (cri_in w) v (requested rs))" by (simp add: requested_def)
    show ?thesis
    proof (cases "gm_get (requested rs) u = Some h")
      case True
      then show ?thesis using keep CResolve by simp
    next
      case False
      with r snoc.prems have "v = u" "cri_in w u = Inr h"
        by (auto simp: Cache_Resolve_def Cache_Forget_def Let_def split: option.splits sum.splits if_splits)
      then show ?thesis using cri_netns CResolve by fastforce
    qed
  qed
qed

section \<open>Properties\<close>

text \<open>
  Whatever sequence of subscriptions, wake-ups, forgets, drains and closes the monitor of a node
  goes through, the done channel of each namespace it watches is open, two Pods never share one,
  nothing is watched after the close, and the buffer of pending wake-ups stays within its capacity:
  a wake-up that does not fit is dropped, not waited for.
\<close>

theorem subscriptions_stay_open:
  assumes "m = fold mon_run ops (NewMonitor buf)"
  shows "(\<forall>u s. gm_get (mo_watching m) u = Some s \<longrightarrow> sub_open m s) \<and>
    (\<forall>u u' s s'. gm_get (mo_watching m) u = Some s \<and> gm_get (mo_watching m) u' = Some s' \<and> su_done s = su_done s' \<longrightarrow> u = u') \<and>
    (mo_closed m \<longrightarrow> Watching m = []) \<and> length (mo_out m) \<le> mo_cap m"
proof -
  have ok: "mon_ok m" using mon_ok_fold [OF mon_ok_New, of ops buf] assms by simp
  note 1 = ok [unfolded mon_ok_def]
  show ?thesis using 1 by (simp add: Watching_def gm_keys_def)
qed

definition calls_ok :: subscribe_calls where
  "calls_ok = \<lparr>sb_Open = None, sb_Link = None, sb_Addr = None\<rparr>"

definition example_mon_ops :: "mon_op list" where
  "example_mon_ops = [MEnsure calls_ok ''p1'' ''/run/netns/a'', MEnsure calls_ok ''p2'' ''/run/netns/b'',
     MEnsure calls_ok ''p1'' ''/run/netns/c'', MWake ''p1'', MWake ''p2'', MWake ''p1'']"

theorem subscriptions_stay_open_witness:
  "sub_open (fold mon_run example_mon_ops (NewMonitor 2)) \<lparr>su_path = ''/run/netns/c'', su_done = 2\<rparr>"
proof -
  have "gm_get (mo_watching (fold mon_run example_mon_ops (NewMonitor 2))) ''p1'' = Some \<lparr>su_path = ''/run/netns/c'', su_done = 2\<rparr>"
    by code_simp
  then show ?thesis using subscriptions_stay_open [OF refl] by blast
qed

text \<open>
  A pump that ended by itself is never replaced. When the kernel's channel is closed under a
  subscription, the Pod stays watched, and subscribing it again with the same namespace reports success
  and changes nothing: until the path changes, its namespace wakes nobody.
\<close>

theorem ended_pump_is_not_replaced:
  assumes "gm_get (mo_watching m) u = Some s"
  shows "snd (Ensure c u (su_path s) (pump_exit s m)) = None \<and>
    fst (Ensure c u (su_path s) (pump_exit s m)) = pump_exit s m \<and>
    \<not> pump_runs (fst (Ensure c u (su_path s) (pump_exit s m))) s \<and>
    gm_get (mo_watching (pump_exit s m)) u = Some s"
  using assms by (simp add: Ensure_def pump_exit_def pump_runs_def)

lemma ended_pump_is_not_replaced_witness:
  "pump_runs (fold mon_run example_mon_ops (NewMonitor 2)) \<lparr>su_path = ''/run/netns/c'', su_done = 2\<rparr> \<and>
   \<not> pump_runs (fst (Ensure calls_ok ''p1'' ''/run/netns/c''
       (pump_exit \<lparr>su_path = ''/run/netns/c'', su_done = 2\<rparr> (fold mon_run example_mon_ops (NewMonitor 2)))))
     \<lparr>su_path = ''/run/netns/c'', su_done = 2\<rparr>"
proof -
  have g: "gm_get (mo_watching (fold mon_run example_mon_ops (NewMonitor 2))) ''p1'' = Some \<lparr>su_path = ''/run/netns/c'', su_done = 2\<rparr>"
    by code_simp
  have r: "pump_runs (fold mon_run example_mon_ops (NewMonitor 2)) \<lparr>su_path = ''/run/netns/c'', su_done = 2\<rparr>"
    by code_simp
  note n = ended_pump_is_not_replaced [OF g, of calls_ok, unfolded subscription.select_convs]
  show ?thesis by (rule conjI [OF r conjunct1 [OF conjunct2 [OF conjunct2 [OF n]]]])
qed

lemma resolved_entry:
  assumes "Cache_Resolve exists (CRI_Resolve list_boxes status exists) u m = (m', Inr h)"
  shows "exists (hd_Path h) \<and> gm_get m' u = Some h \<and> (\<forall>v. v \<noteq> u \<longrightarrow> gm_get m' v = gm_get m v) \<and>
    (gm_get m u = Some h \<or>
     (hd_PodUID h = u \<and> (\<exists>items s. list_boxes u = Inr items \<and> s \<in> set items \<and> sb_Ready s \<and> hd_SandboxID h = sb_Id s \<and>
        (\<forall>s' \<in> set items. sb_Ready s' \<longrightarrow> sb_CreatedAt s' \<le> sb_CreatedAt s))))"
proof (cases "\<exists>h0. gm_get m u = Some h0 \<and> exists (hd_Path h0)")
  case True
  then show ?thesis using assms by (auto simp: Cache_Resolve_def)
next
  case False
  then have r: "CRI_Resolve list_boxes status exists u = Inr h"
    and g: "gm_get m' u = Some h" "\<forall>v. v \<noteq> u \<longrightarrow> gm_get m' v = gm_get m v"
    using assms by (auto simp: Cache_Resolve_def Cache_Forget_def Let_def split: option.splits sum.splits if_splits)
  from r obtain items b where "list_boxes u = Inr items" "newest_ready items = Some b" "hd_SandboxID h = sb_Id b"
    "hd_PodUID h = u" "exists (hd_Path h)"
    by (rule CRI_Resolve_Inr)
  then show ?thesis using g newest_ready_Some [of items b] by blast
qed

text \<open>
  A namespace is handed out only if it exists at that moment. It comes from the cache, for the
  Pod asked for, or from the newest of the Pod's ready sandboxes; a stale cache entry is replaced or
  removed, never returned, and no other Pod's entry changes.
\<close>

theorem resolved_namespace_exists:
  assumes "Cache_Resolve exists (CRI_Resolve list_boxes status exists) u m = (m', Inr h)"
  shows "exists (hd_Path h) \<and> gm_get m' u = Some h \<and> (\<forall>v. v \<noteq> u \<longrightarrow> gm_get m' v = gm_get m v) \<and>
    (gm_get m u = Some h \<or>
     (hd_PodUID h = u \<and> (\<exists>items s. list_boxes u = Inr items \<and> s \<in> set items \<and> sb_Ready s \<and> hd_SandboxID h = sb_Id s \<and>
        (\<forall>s' \<in> set items. sb_Ready s' \<longrightarrow> sb_CreatedAt s' \<le> sb_CreatedAt s))))"
  by (rule resolved_entry [OF assms])

definition example_boxes :: "string \<Rightarrow> go_error + PodSandbox list" where
  "example_boxes u = Inr [\<lparr>sb_Id = ''old'', sb_Ready = True, sb_CreatedAt = 10\<rparr>, \<lparr>sb_Id = ''new'', sb_Ready = True, sb_CreatedAt = 20\<rparr>,
     \<lparr>sb_Id = ''gone'', sb_Ready = False, sb_CreatedAt = 30\<rparr>]"

definition example_cri_status :: "string \<Rightarrow> go_error + (string, string) gomap" where
  "example_cri_status i = Inr [(''info'', ''{'' @ [CHR 0x22] @ ''pid'' @ [CHR 0x22] @ '':42}'')]"

theorem resolved_namespace_exists_witness:
  "hd_SandboxID \<lparr>hd_PodUID = ''p1'', hd_SandboxID = ''new'', hd_Path = ''/proc/42/ns/net'', hd_PID = 42\<rparr> = ''new'' \<and>
   gm_get [(''p1'', \<lparr>hd_PodUID = ''p1'', hd_SandboxID = ''new'', hd_Path = ''/proc/42/ns/net'', hd_PID = 42\<rparr>)] ''p1''
     = Some \<lparr>hd_PodUID = ''p1'', hd_SandboxID = ''new'', hd_Path = ''/proc/42/ns/net'', hd_PID = 42\<rparr>"
proof -
  have "Cache_Resolve (\<lambda>p. p = ''/proc/42/ns/net'') (CRI_Resolve example_boxes example_cri_status (\<lambda>p. p = ''/proc/42/ns/net'')) ''p1''
      [(''p1'', \<lparr>hd_PodUID = ''p1'', hd_SandboxID = ''old'', hd_Path = ''/proc/7/ns/net'', hd_PID = 7\<rparr>)]
    = ([(''p1'', \<lparr>hd_PodUID = ''p1'', hd_SandboxID = ''new'', hd_Path = ''/proc/42/ns/net'', hd_PID = 42\<rparr>)],
       Inr \<lparr>hd_PodUID = ''p1'', hd_SandboxID = ''new'', hd_Path = ''/proc/42/ns/net'', hd_PID = 42\<rparr>)"
    by code_simp
  from resolved_namespace_exists [OF this] show ?thesis by simp
qed

lemma map_filter_ip_string:
  "set (List.map_filter (map_option ip_string) l) = {ip_string b | b. Some b \<in> set l}"
  by (induction l) (auto simp: List.map_filter_def)

lemma gm_get_all_true: "gm_get (gm_put_all id (\<lambda>_. True) xs m) k = (if k \<in> set xs then Some True else gm_get m k)"
  by (induction xs arbitrary: m) auto

lemma flag_up: "(w :: 32 word) AND 1 \<noteq> 0 \<longleftrightarrow> bit w 0"
  by (simp add: and_one_eq bit_0 odd_iff_mod_2_eq_one even_iff_mod_2_eq_zero)

text \<open>
  An interface the kernel reports with its administrative flag up and an operational state other
  than Down is usable, an interface that does not exist is a report and not an error, and an address
  counts as present exactly when its canonical text is one of the addresses the kernel lists: an
  address written in another form is never present.
\<close>

theorem inspection_is_observation:
  assumes "Inspect nl p i = Inr l"
  shows "(ln_Exists l \<longleftrightarrow> (\<exists>a. nl_Link nl p i = Inr a)) \<and>
    (ln_Usable l \<longleftrightarrow> (\<exists>a. nl_Link nl p i = Inr a \<and> bit (la_Flags a) 0 \<and> \<not> la_OperDown a)) \<and>
    (Has l ip \<longleftrightarrow> (\<exists>a addrs b. nl_Link nl p i = Inr a \<and> nl_Addrs nl p i = Inr addrs \<and> Some b \<in> set addrs \<and> ip = ip_string b))"
proof (cases "nl_Link nl p i")
  case (Inl e)
  then have "e = LinkNotFound" "l = no_link"
    using assms by (auto simp: Inspect_def split: option.splits link_error.splits)
  then show ?thesis using Inl by (simp add: no_link_def Has_def)
next
  case (Inr a)
  then obtain addrs where "nl_Addrs nl p i = Inr addrs"
    "l = \<lparr>ln_Exists = True, ln_Usable = (la_Flags a AND 1 \<noteq> 0 \<and> \<not> la_OperDown a), ln_Flags = la_FlagsString a,
       ln_Oper = la_OperString a, ln_Addrs = gm_put_all id (\<lambda>_. True) (List.map_filter (map_option ip_string) addrs) []\<rparr>"
    using assms by (auto simp: Inspect_def Let_def split: option.splits sum.splits)
  then show ?thesis using Inr
    by (auto simp: Has_def flag_up gm_get_all_true map_filter_ip_string split: if_splits)
qed

definition example_netlink :: netlink where
  "example_netlink = \<lparr>nl_Open = (\<lambda>_. None), nl_Handle = (\<lambda>_. None),
     nl_Link = (\<lambda>_ _. Inr \<lparr>la_Flags = 0x1003, la_FlagsString = ''up|broadcast|multicast'', la_OperDown = False, la_OperString = ''up''\<rparr>),
     nl_Addrs = (\<lambda>_ _. Inr [Some [0,0,0,0,0,0,0,0,0,0,255,255,10,0,0,7], None])\<rparr>"

theorem inspection_is_observation_witness:
  "\<exists>l. Inspect example_netlink ''/proc/42/ns/net'' ''net1'' = Inr l \<and> Has l ''10.0.0.7''"
proof -
  obtain l where l: "Inspect example_netlink ''/proc/42/ns/net'' ''net1'' = Inr l"
    by (simp add: Inspect_def example_netlink_def Let_def)
  have "ip_string [0,0,0,0,0,0,0,0,0,0,255,255,10,0,0,7] = ''10.0.0.7''" by code_simp
  then have "Has l ''10.0.0.7''"
    using inspection_is_observation [OF l, of "''10.0.0.7''"]
    by (auto simp: example_netlink_def intro!: exI [of _ "[0,0,0,0,0,0,0,0,0,0,255,255,10,0,0,7]"])
  with l show ?thesis by blast
qed

text \<open>
  C33. Whatever was requested and forgotten before, in whatever states of the node, a request for a Pod's
  namespace is answered by an existing path only, and that path is the Pod's network namespace: of the
  newest of its ready sandboxes now, or, if the cache remembered it, at an earlier request for the same
  Pod that no forget has followed. An answer is remembered, after an error nothing is, and what the cache
  remembers of other Pods stays.
\<close>

theorem namespace_requests_answered:
  assumes "Cache_Resolve (rw_Exists w) (cri_in w) u (requested rs) = (m', res)"
  shows "(\<forall>v. v \<noteq> u \<longrightarrow> gm_get m' v = gm_get (requested rs) v) \<and>
    (case res of
       Inl e \<Rightarrow> gm_get m' u = None
     | Inr h \<Rightarrow> gm_get m' u = Some h \<and> hd_PodUID h = u \<and> rw_Exists w (hd_Path h) \<and>
         (sandbox_netns w u h \<or>
          gm_get (requested rs) u = Some h \<and>
          (\<exists>pre w' post. rs = pre @ CResolve w' u # post \<and> CForget u \<notin> set post \<and> sandbox_netns w' u h)))"
proof (cases res)
  case (Inl e)
  then show ?thesis using assms
    by (auto simp: Cache_Resolve_def Cache_Forget_def Let_def split: option.splits sum.splits if_splits)
next
  case (Inr h)
  have "cache_own []" by (simp add: cache_own_def)
  from cri.cached.answers_own [OF this, of w u rs h] assms Inr
  have own: "hd_PodUID h = u" "rw_Exists w (hd_Path h)" by (simp_all add: requested_def)
  have "gm_get m' u = Some h \<and> (\<forall>v. v \<noteq> u \<longrightarrow> gm_get m' v = gm_get (requested rs) v) \<and>
      (gm_get (requested rs) u = Some h \<or> cri_in w u = Inr h)"
    using assms Inr by (auto simp: Cache_Resolve_def Cache_Forget_def Let_def split: option.splits sum.splits if_splits)
  with own show ?thesis using remembered [of rs u h] cri_netns [of w u h] by (auto simp: Inr)
qed

lemma namespace_requests_answered_witness:
  "\<exists>m' h w. Cache_Resolve (rw_Exists w) (cri_in w) ''p1'' (requested [CForget ''p1'']) = (m', Inr h) \<and>
     sandbox_netns w ''p1'' h \<and> hd_SandboxID h = ''new'' \<and> hd_Path h = ''/proc/42/ns/net''"
proof -
  let ?w = "\<lparr>rw_Boxes = example_boxes, rw_Status = example_cri_status, rw_Exists = (\<lambda>p. True)\<rparr>"
  let ?h = "\<lparr>hd_PodUID = ''p1'', hd_SandboxID = ''new'', hd_Path = ''/proc/42/ns/net'', hd_PID = 42\<rparr>"
  have r: "requested [CForget ''p1''] = []" by (simp add: requested_def Cache_Forget_def gm_del_def)
  have "Cache_Resolve (\<lambda>p. True) (CRI_Resolve example_boxes example_cri_status (\<lambda>p. True)) ''p1'' [] = ([(''p1'', ?h)], Inr ?h)"
    by code_simp
  then have c: "Cache_Resolve (rw_Exists ?w) (cri_in ?w) ''p1'' (requested [CForget ''p1'']) = ([(''p1'', ?h)], Inr ?h)" by (simp add: r)
  from namespace_requests_answered [OF c] have "sandbox_netns ?w ''p1'' ?h" by (simp add: r)
  then show ?thesis
    by (intro exI [of _ "[(''p1'', ?h)]"] exI [of _ ?h] exI [of _ ?w]) (simp only: c, simp)
qed

end
