(* ===== verification/Grpc_Sink.thy ===== *)
theory Grpc_Sink
  imports Health_Server
begin

text \<open>
  \<^verbatim>\<open>internal/agent/sink.go\<close>, \<^verbatim>\<open>grpc_sink.go\<close> and \<^verbatim>\<open>credentials.go\<close>: the agent's end of the report
  stream. The stream is a parameter: the outcome of the i-th send of a call. \<open>Publish\<close> holds the
  lock twice, before and after sending; what the session's goroutine does to the sink in between
  is the argument \<open>meanwhile\<close>.
\<close>

section \<open>State\<close>

record Snapshot =
  sn_Locals :: "LocalHealth list"
  sn_Paths :: "PathHealth list"
  sn_Changed :: "(string, bool) gomap"
  sn_Retired :: "string list"

record GRPCSink =
  gs_Addr :: string
  gs_NodeName :: string
  gs_InstanceID :: string
  gs_Refresh :: int
  gs_stream :: "nat option"
  gs_needSnapshot :: bool
  gs_lastSnapshot :: int
  gs_seq :: "64 word"
  gs_epoch :: "64 word"

section \<open>Wire forms\<close>

text \<open>\<^verbatim>\<open>time.Time.UnixNano\<close>: 64 bits, which wrap outside the years 1678 to 2262.\<close>

abbreviation unix_nano :: "int \<Rightarrow> int" where
  "unix_nano t \<equiv> int64_wrap t"

definition toLocalPB :: "LocalHealth \<Rightarrow> PbLocalHealth" where
  "toLocalPB r = \<lparr>pbl_AttachmentId = lh_AttachmentID r, pbl_PodUid = lh_PodUID r, pbl_Namespace = lh_Namespace r,
     pbl_PodName = lh_PodName r, pbl_Nad = lh_NAD r, pbl_InterfaceName = lh_Interface r, pbl_Ip = lh_IP r,
     pbl_LocalReady = lh_Ready r, pbl_InterfaceExists = lh_InterfaceExists r, pbl_AddressPresent = lh_AddressPresent r,
     pbl_LinkUsable = lh_LinkUsable r, pbl_ObservedAtUnixNano = unix_nano (lh_ObservedAt r)\<rparr>"

definition toPathPB :: "PathHealth \<Rightarrow> PbPathHealth" where
  "toPathPB r = \<lparr>pbp_Scope = (if ph_Scope r = ScopeNode then PROBE_SCOPE_NODE else PROBE_SCOPE_ENDPOINT),
     pbp_ScopeId = ph_ScopeID r, pbp_Nad = ph_NAD r, pbp_Target = ph_Target r, pbp_PathReady = ph_PathReady r,
     pbp_ObservedAtUnixNano = unix_nano (ph_ObservedAt r)\<rparr>"

definition envelope :: "Payload \<Rightarrow> GRPCSink \<Rightarrow> GRPCSink \<times> Envelope" where
  "envelope p s = (s\<lparr>gs_seq := gs_seq s + 1\<rparr>,
     \<lparr>env_NodeName = gs_NodeName s, env_AgentInstanceId = gs_InstanceID s, env_Sequence = gs_seq s + 1, env_Payload = Some p\<rparr>)"

section \<open>Sending\<close>

text \<open>
  A sequence of sends, each followed by its events; it stops at the first that fails. The third
  result are the envelopes the stream took.
\<close>

fun send_list :: "(nat \<Rightarrow> go_error option) \<Rightarrow> nat \<Rightarrow> (Payload \<times> event list) list \<Rightarrow> GRPCSink
    \<Rightarrow> GRPCSink \<times> Envelope list \<times> event list \<times> go_error option" where
  "send_list send n [] s = (s, [], [], None)"
| "send_list send n ((p, evs) # ps) s = (case envelope p s of (s1, env) \<Rightarrow>
     (case send n of
        Some e \<Rightarrow> (s1, [], [], Some e)
      | None \<Rightarrow> (case send_list send (Suc n) ps s1 of (s2, envs, evs2, err) \<Rightarrow> (s2, env # envs, evs @ evs2, err))))"

definition sent_event :: "GRPCSink \<Rightarrow> (string \<times> ev_value) list \<Rightarrow> event" where
  "sent_event s kvs = Event ''health_report_sent'' ((''node'', VStr (gs_NodeName s)) # kvs)"

definition snapshot_payloads :: "64 word \<Rightarrow> Snapshot \<Rightarrow> Payload list" where
  "snapshot_payloads epoch snap =
     PSnapshotBegin epoch (of_nat (length (sn_Locals snap))) (of_nat (length (sn_Paths snap))) #
     map (PLocal \<circ> toLocalPB) (sn_Locals snap) @ map (PPath \<circ> toPathPB) (sn_Paths snap) @ [PSnapshotEnd epoch]"

definition is_changed :: "Snapshot \<Rightarrow> string \<Rightarrow> bool" where
  "is_changed snap i \<longleftrightarrow> gm_get (sn_Changed snap) i = Some True"

definition sendSnapshot :: "(nat \<Rightarrow> go_error option) \<Rightarrow> Snapshot \<Rightarrow> GRPCSink
    \<Rightarrow> GRPCSink \<times> Envelope list \<times> event list \<times> go_error option" where
  "sendSnapshot send snap s = (let s1 = s\<lparr>gs_epoch := gs_epoch s + 1\<rparr>; epoch = gs_epoch s1 in
     case send_list send 0 (map (\<lambda>p. (p, [])) (snapshot_payloads epoch snap)) s1 of
       (s2, envs, _, Some e) \<Rightarrow> (s2, envs, [], Some e)
     | (s2, envs, _, None) \<Rightarrow> (s2, envs,
         sent_event s [(''kind'', VStr ''snapshot''), (''epoch'', VSeq epoch), (''local'', VInt (int (length (sn_Locals snap)))),
           (''path'', VInt (int (length (sn_Paths snap))))] #
         map (\<lambda>r. sent_event s [(''kind'', VStr ''local''), (''via'', VStr ''snapshot''),
           (''attachment_id'', VStr (lh_AttachmentID r)), (''local_ready'', VBool (lh_Ready r))])
           (filter (\<lambda>r. is_changed snap (lh_AttachmentID r)) (sn_Locals snap)), None))"

definition delta_payloads :: "Snapshot \<Rightarrow> GRPCSink \<Rightarrow> (Payload \<times> event list) list" where
  "delta_payloads snap s =
     map (\<lambda>r. (PLocal (toLocalPB r), [sent_event s [(''kind'', VStr ''local''), (''via'', VStr ''delta''),
         (''attachment_id'', VStr (lh_AttachmentID r)), (''local_ready'', VBool (lh_Ready r))]]))
       (filter (\<lambda>r. is_changed snap (lh_AttachmentID r)) (sn_Locals snap)) @
     map (\<lambda>r. (PPath (toPathPB r), [sent_event s [(''kind'', VStr ''path''), (''scope_id'', VStr (ph_ScopeID r)),
         (''path_ready'', VBool (ph_PathReady r))]]))
       (filter (\<lambda>r. is_changed snap (ph_ScopeID r)) (sn_Paths snap)) @
     map (\<lambda>i. (PRetired i, [sent_event s [(''kind'', VStr ''retired''), (''attachment_id'', VStr i)]])) (sn_Retired snap)"

definition sendDeltas :: "(nat \<Rightarrow> go_error option) \<Rightarrow> Snapshot \<Rightarrow> GRPCSink
    \<Rightarrow> GRPCSink \<times> Envelope list \<times> event list \<times> go_error option" where
  "sendDeltas send snap s = send_list send 0 (delta_payloads snap s) s"

text \<open>\<open>now\<close> is the clock at the first critical section, \<open>now'\<close> at the second.\<close>

definition wants_full :: "int \<Rightarrow> GRPCSink \<Rightarrow> bool" where
  "wants_full now s \<longleftrightarrow> gs_needSnapshot s \<or> time_sub now (gs_lastSnapshot s) \<ge> gs_Refresh s"

definition Publish :: "int \<Rightarrow> int \<Rightarrow> (GRPCSink \<Rightarrow> GRPCSink) \<Rightarrow> (nat \<Rightarrow> go_error option) \<Rightarrow> Snapshot \<Rightarrow> GRPCSink
    \<Rightarrow> GRPCSink \<times> Envelope list \<times> event list \<times> go_error option" where
  "Publish now now' meanwhile send snap s =
     (if gs_stream s = None then (s, [], [], Some (ErrNoStream (gs_Addr s)))
      else if wants_full now s then
        (case sendSnapshot send snap s of
           (s1, envs, evs, Some e) \<Rightarrow> (meanwhile s1, envs, evs, Some e)
         | (s1, envs, evs, None) \<Rightarrow> ((meanwhile s1)\<lparr>gs_needSnapshot := False, gs_lastSnapshot := now'\<rparr>, envs, evs, None))
      else (case sendDeltas send snap s of (s1, envs, evs, err) \<Rightarrow> (meanwhile s1, envs, evs, err)))"

definition NopSink_Publish :: "Snapshot \<Rightarrow> go_error option" where
  "NopSink_Publish snap = None"

section \<open>The session\<close>

definition session_open :: "nat \<Rightarrow> GRPCSink \<Rightarrow> GRPCSink" where
  "session_open stream s = s\<lparr>gs_stream := Some stream, gs_needSnapshot := True\<rparr>"

definition session_close :: "GRPCSink \<Rightarrow> GRPCSink" where
  "session_close s = s\<lparr>gs_stream := None\<rparr>"

definition on_ack :: "HealthAck \<Rightarrow> GRPCSink \<Rightarrow> GRPCSink \<times> event list" where
  "on_ack ack s = (if ack_ResyncRequired ack
     then (s\<lparr>gs_needSnapshot := True\<rparr>, [Event ''health_resync_requested'' [(''node'', VStr (gs_NodeName s)), (''reason'', VStr (ack_Reason ack))]])
     else (s, []))"

text \<open>
  The reconnect loop: the backoff before the next attempt, after a session that lived \<open>lived\<close>
  nanoseconds. The first result is how long the loop sleeps now.
\<close>

definition backoff_step :: "int \<Rightarrow> int \<Rightarrow> int \<times> int" where
  "backoff_step lived backoff = (let b = (if lived > 10 * time_Second then time_Second else backoff) in
     (b, if b < 5 * time_Second then 2 * b else b))"

fun backoffs :: "int list \<Rightarrow> int \<Rightarrow> int list" where
  "backoffs [] b = []"
| "backoffs (l # ls) b = (case backoff_step l b of (sleep, b') \<Rightarrow> sleep # backoffs ls b')"

section \<open>Credentials\<close>

text \<open>The file's content, or the error of reading it.\<close>

definition GetRequestMetadata :: "go_error + string \<Rightarrow> go_error + (string, string) gomap" where
  "GetRequestMetadata file = (case file of
      Inl e \<Rightarrow> Inl e
    | Inr b \<Rightarrow> Inr [(''authorization'', ''Bearer '' @ trim_space b)])"

text \<open>\<open>None\<close> is plaintext; \<open>fromFile\<close> is \<^verbatim>\<open>credentials.NewClientTLSFromFile\<close>.\<close>

definition transportCreds :: "(string \<Rightarrow> string \<Rightarrow> go_error + 'c) \<Rightarrow> string \<Rightarrow> string \<Rightarrow> go_error + 'c option" where
  "transportCreds fromFile caPath serverName =
     (if caPath = [] then Inr None
      else (case fromFile caPath serverName of Inl e \<Rightarrow> Inl e | Inr c \<Rightarrow> Inr (Some c)))"

definition session_requires_tls :: "'c option \<Rightarrow> string \<Rightarrow> bool option" where
  "session_requires_tls tc tokenPath = (if tokenPath = [] then None else Some (tc \<noteq> None))"

section \<open>Lemmas\<close>

lemma send_list_ok:
  "send_list (\<lambda>_. None) n ps s = (s\<lparr>gs_seq := gs_seq s + of_nat (length ps)\<rparr>,
     map (\<lambda>(k, p). \<lparr>env_NodeName = gs_NodeName s, env_AgentInstanceId = gs_InstanceID s,
       env_Sequence = gs_seq s + of_nat (Suc k), env_Payload = Some (fst p)\<rparr>) (enumerate 0 ps), concat (map snd ps), None)"
proof -
  have "send_list (\<lambda>_. None) n ps (s\<lparr>gs_seq := q\<rparr>) = (s\<lparr>gs_seq := q + of_nat (length ps)\<rparr>,
     map (\<lambda>(k, p). \<lparr>env_NodeName = gs_NodeName s, env_AgentInstanceId = gs_InstanceID s,
       env_Sequence = q + of_nat (Suc k) - of_nat m, env_Payload = Some (fst p)\<rparr>) (enumerate m ps), concat (map snd ps), None)" for q m
  proof (induction ps arbitrary: n q m)
    case (Cons p ps)
    obtain pl evs where p: "p = (pl, evs)" by fastforce
    show ?case using Cons.IH [of "Suc n" "q + 1" "Suc m"]
      by (simp add: p envelope_def algebra_simps)
  qed simp
  from this [of "gs_seq s" 0] show ?thesis by simp
qed

text \<open>What the registry publishes for the node in the terms of a report.\<close>

definition local_published :: "Registry \<Rightarrow> string \<Rightarrow> LocalHealth \<Rightarrow> bool" where
  "local_published R node r \<longleftrightarrow> (case reg_Attachment R (lh_AttachmentID r) of (att, _, ok) \<Rightarrow>
     ok \<and> att_IP att = lh_IP r \<and> att_Interface att = lh_Interface r \<and> att_NAD att = lh_NAD r \<and>
     (att_NodeName att = [] \<or> att_NodeName att = node))"

definition path_published :: "Registry \<Rightarrow> string \<Rightarrow> PathHealth \<Rightarrow> bool" where
  "path_published R node p \<longleftrightarrow> snd (reg_PathKey R (ph_ScopeID p)) \<and> reg_PathKeyOnNode R (ph_ScopeID p) node"

text \<open>What a report has become when the server holds it.\<close>

definition stamped_local :: "string \<Rightarrow> LocalHealth \<Rightarrow> LocalHealth" where
  "stamped_local node r = r\<lparr>lh_NodeName := node, lh_ObservedAt := unix_nano (lh_ObservedAt r)\<rparr>"

definition stamped_path :: "string \<Rightarrow> PathHealth \<Rightarrow> PathHealth" where
  "stamped_path node p = p\<lparr>ph_NodeName := node, ph_Scope := (if ph_Scope p = ScopeNode then ScopeNode else ScopeEndpoint),
     ph_ObservedAt := unix_nano (ph_ObservedAt p)\<rparr>"

lemma stamped_simps [simp]:
  "lh_AttachmentID (stamped_local node r) = lh_AttachmentID r" "lh_NodeName (stamped_local node r) = node"
  "lh_Ready (stamped_local node r) = lh_Ready r"
  "ph_ScopeID (stamped_path node p) = ph_ScopeID p" "ph_NodeName (stamped_path node p) = node" "ph_PathReady (stamped_path node p) = ph_PathReady p"
  by (simp_all add: stamped_local_def stamped_path_def lh_Ready_def)

lemma localFrom_toLocalPB:
  "map_option fst (localFrom R node (toLocalPB r)) = (if local_published R node r then Some (stamped_local node r) else None)"
  by (cases "reg_Attachment R (lh_AttachmentID r)"; cases r)
     (auto simp: localFrom_def toLocalPB_def local_published_def stamped_local_def)

lemma pathFrom_toPathPB:
  "map_option fst (pathFrom R node (toPathPB p)) = (if path_published R node p then Some (stamped_path node p) else None)"
  by (cases "reg_PathKey R (ph_ScopeID p)"; cases p)
     (auto simp: pathFrom_def toPathPB_def path_published_def stamped_path_def)

lemma local_item: "(case localFrom R node (toLocalPB r) of Some (x, _) \<Rightarrow> [x] | None \<Rightarrow> []) =
    (if local_published R node r then [stamped_local node r] else [])"
  using localFrom_toLocalPB [of R node r] by (auto split: option.splits if_splits)

lemma path_item: "(case pathFrom R node (toPathPB p) of Some (x, _) \<Rightarrow> [x] | None \<Rightarrow> []) =
    (if path_published R node p then [stamped_path node p] else [])"
  using pathFrom_toPathPB [of R node p] by (auto split: option.splits if_splits)

definition admitted_locals :: "Registry \<Rightarrow> string \<Rightarrow> Snapshot \<Rightarrow> LocalHealth list" where
  "admitted_locals R node snap = map (stamped_local node) (filter (local_published R node) (sn_Locals snap))"

definition admitted_paths :: "Registry \<Rightarrow> string \<Rightarrow> Snapshot \<Rightarrow> PathHealth list" where
  "admitted_paths R node snap = map (stamped_path node) (filter (path_published R node) (sn_Paths snap))"

text \<open>The messages between the two ends of a snapshot.\<close>

definition snapshot_items :: "Snapshot \<Rightarrow> Payload list" where
  "snapshot_items snap = map (PLocal \<circ> toLocalPB) (sn_Locals snap) @ map (PPath \<circ> toPathPB) (sn_Paths snap)"

lemma admitted_items:
  assumes "map env_Payload envs = map Some (snapshot_items snap)"
  shows "locals_admitted node (map (Pair sv) envs) = admitted_locals (sv_Registry sv) node snap"
    and "paths_admitted node (map (Pair sv) envs) = admitted_paths (sv_Registry sv) node snap"
proof -
  have "concat (map (\<lambda>r. case localFrom (sv_Registry sv) node (toLocalPB r) of None \<Rightarrow> [] | Some (x, _) \<Rightarrow> [x]) L)
      = map (stamped_local node) (filter (local_published (sv_Registry sv) node) L)" for L
    by (induction L) (simp_all add: local_item)
  moreover have "concat (map (\<lambda>r. case pathFrom (sv_Registry sv) node (toPathPB r) of None \<Rightarrow> [] | Some (x, _) \<Rightarrow> [x]) P)
      = map (stamped_path node) (filter (path_published (sv_Registry sv) node) P)" for P
    by (induction P) (simp_all add: path_item)
  moreover have "locals_admitted node (map (Pair sv) envs) = concat (map (\<lambda>q. case q of Some (PLocal m) \<Rightarrow>
      (case localFrom (sv_Registry sv) node m of Some (r, _) \<Rightarrow> [r] | None \<Rightarrow> []) | _ \<Rightarrow> []) (map env_Payload envs))"
    and "paths_admitted node (map (Pair sv) envs) = concat (map (\<lambda>q. case q of Some (PPath m) \<Rightarrow>
      (case pathFrom (sv_Registry sv) node m of Some (r, _) \<Rightarrow> [r] | None \<Rightarrow> []) | _ \<Rightarrow> []) (map env_Payload envs))"
    by (simp_all add: locals_admitted_def paths_admitted_def comp_def)
  moreover have "concat (map (\<lambda>_. []) xs) = []" for xs by (induction xs) auto
  ultimately show "locals_admitted node (map (Pair sv) envs) = admitted_locals (sv_Registry sv) node snap"
    and "paths_admitted node (map (Pair sv) envs) = admitted_paths (sv_Registry sv) node snap"
    unfolding assms snapshot_items_def admitted_locals_def admitted_paths_def by (simp_all add: comp_def)
qed

lemma snapshot_sent:
  assumes "sendSnapshot (\<lambda>_. None) snap s = (s1, envs, evs, err)"
  obtains b items e where "envs = b # items @ [e]" and "err = None"
    and "\<forall>m \<in> set envs. env_AgentInstanceId m = gs_InstanceID s" and "map env_Payload items = map Some (snapshot_items snap)"
    and "env_Payload b = Some (PSnapshotBegin (gs_epoch s + 1) (of_nat (length (sn_Locals snap))) (of_nat (length (sn_Paths snap))))"
    and "env_Payload e = Some (PSnapshotEnd (gs_epoch s + 1))" and "env_Sequence e = gs_seq s1"
    and "gs_InstanceID s1 = gs_InstanceID s"
proof -
  define mk where "mk k p = \<lparr>env_NodeName = gs_NodeName s, env_AgentInstanceId = gs_InstanceID s,
       env_Sequence = gs_seq s + of_nat (Suc k), env_Payload = Some p\<rparr>" for k and p :: Payload
  define ps where "ps = snapshot_payloads (gs_epoch s + 1) snap"
  have enum: "enumerate n (map (\<lambda>p. (p, [] :: event list)) xs) = map (\<lambda>(k, p). (k, p, [])) (enumerate n xs)" for n xs
    by (induction xs arbitrary: n) auto
  have "envs = map (\<lambda>(k, p). mk k p) (enumerate 0 ps)" and s1: "s1 = s\<lparr>gs_epoch := gs_epoch s + 1, gs_seq := gs_seq s + of_nat (length ps)\<rparr>"
    and err: "err = None"
    using assms by (auto simp: sendSnapshot_def Let_def send_list_ok mk_def ps_def enum comp_def case_prod_beta)
  moreover have ps: "ps = PSnapshotBegin (gs_epoch s + 1) (of_nat (length (sn_Locals snap))) (of_nat (length (sn_Paths snap))) #
      snapshot_items snap @ [PSnapshotEnd (gs_epoch s + 1)]"
    by (simp add: ps_def snapshot_payloads_def snapshot_items_def)
  ultimately have envs: "envs = mk 0 (PSnapshotBegin (gs_epoch s + 1) (of_nat (length (sn_Locals snap))) (of_nat (length (sn_Paths snap)))) #
      map (\<lambda>(k, p). mk k p) (enumerate 1 (snapshot_items snap)) @ [mk (length ps - 1) (PSnapshotEnd (gs_epoch s + 1))]"
    by (simp add: enumerate_append_eq)
  have pay: "map env_Payload (map (\<lambda>(k, p). mk k p) (enumerate n xs)) = map Some xs" for n xs
    by (induction xs arbitrary: n) (auto simp: mk_def)
  have "env_Sequence (mk (length ps - 1) (PSnapshotEnd (gs_epoch s + 1))) = gs_seq s1"
    by (simp add: mk_def s1 ps)
  then show thesis
    by (intro that [OF envs err _ pay]) (auto simp: mk_def s1 envs)
qed

text \<open>On a fresh stream, the first message adopts and is then handled as on an adopted one.\<close>

lemma adopting_run:
  assumes "adopt sv b st hs = (st2, hs2, outs, Fall)"
  shows "fst (snd (sync_run ((sv, b) # ms) st hs)) = fst (snd (sync_run ((sv, b) # ms) st2 hs2))"
proof -
  have "st_adopted st2" using adopt_adopted [of sv b st hs] by (simp add: assms)
  then have "adopt sv b st2 hs2 = (st2, hs2, [], Fall)" by (simp add: adopt_def)
  then show ?thesis
    by (cases "sync_body sv b st2 hs2") (auto simp: sync_msg_def assms split: prod.split flow.split)
qed

lemma fresh_adopt:
  assumes "sv_send sv = (\<lambda>_. None)" and "env_AgentInstanceId b = i" and "i \<noteq> []"
  shows "\<exists>st2 outs. adopt sv b (new_Stream (Some ag)) hs = (st2, fst (AdoptInstance (aa_NodeName ag) i hs), outs, Fall) \<and>
    st_adopted st2 \<and> st_node st2 = aa_NodeName ag \<and> st_instance st2 = i"
  using assms by (auto simp: adopt_def new_Stream_def Let_def sent_def split: prod.split)

lemma snapshot_on_fresh_stream:
  assumes send: "sendSnapshot (\<lambda>_. None) snap s = (s1, envs, evs, err)" and sv: "sv_send sv = (\<lambda>_. None)"
    and i: "gs_InstanceID s \<noteq> []"
  shows "fst (snd (sync_run (map (Pair sv) envs) (new_Stream (Some ag)) hs)) = fst (ApplySnapshot
      \<lparr>or_NodeName = aa_NodeName ag, or_AgentInstance = gs_InstanceID s, or_Sequence = gs_seq s1\<rparr>
      (admitted_locals (sv_Registry sv) (aa_NodeName ag) snap) (admitted_paths (sv_Registry sv) (aa_NodeName ag) snap) (sv_now sv)
      (fst (AdoptInstance (aa_NodeName ag) (gs_InstanceID s) hs)))"
proof -
  obtain b items e where envs: "envs = b # items @ [e]" and inst: "\<forall>m \<in> set envs. env_AgentInstanceId m = gs_InstanceID s"
    and items: "map env_Payload items = map Some (snapshot_items snap)"
    and b: "env_Payload b = Some (PSnapshotBegin (gs_epoch s + 1) (of_nat (length (sn_Locals snap))) (of_nat (length (sn_Paths snap))))"
    and e: "env_Payload e = Some (PSnapshotEnd (gs_epoch s + 1))" "env_Sequence e = gs_seq s1"
    by (rule snapshot_sent [OF send])
  obtain st2 outs where a: "adopt sv b (new_Stream (Some ag)) hs = (st2, fst (AdoptInstance (aa_NodeName ag) (gs_InstanceID s) hs), outs, Fall)"
    and st2: "st_adopted st2" "st_node st2 = aa_NodeName ag" "st_instance st2 = gs_InstanceID s"
    using fresh_adopt [OF sv _ i, of b ag hs] inst by (auto simp: envs)
  have item: "snapshot_item (st_instance st2) m" if "m \<in> set (map (Pair sv) items)" for m
  proof -
    from that obtain env where env: "m = (sv, env)" "env \<in> set items" by auto
    then have "env_Payload env \<in> set (map env_Payload items)" by simp
    then have "env_Payload env \<in> set (map Some (snapshot_items snap))" by (simp only: items)
    then show ?thesis using env inst sv st2(3) by (auto simp: snapshot_item_def envs snapshot_items_def)
  qed
  have "map (Pair sv) envs = snapshot_msgs (sv, b) (map (Pair sv) items) (sv, e)" by (simp add: envs snapshot_msgs_def)
  moreover have "begins (st_instance st2) (gs_epoch s + 1) (sv, b)" "ends (st_instance st2) (gs_epoch s + 1) (sv, e)"
    using b e inst sv st2(3) by (auto simp: begins_def ends_def envs)
  ultimately have "fst (snd (sync_run (map (Pair sv) envs) st2 (fst (AdoptInstance (aa_NodeName ag) (gs_InstanceID s) hs)))) = fst (ApplySnapshot
      \<lparr>or_NodeName = aa_NodeName ag, or_AgentInstance = gs_InstanceID s, or_Sequence = gs_seq s1\<rparr>
      (admitted_locals (sv_Registry sv) (aa_NodeName ag) snap) (admitted_paths (sv_Registry sv) (aa_NodeName ag) snap) (sv_now sv)
      (fst (AdoptInstance (aa_NodeName ag) (gs_InstanceID s) hs)))"
    using snapshot_run_store [OF st2(1), of "gs_epoch s + 1" "(sv, b)" "map (Pair sv) items" sv e] item
    by (simp add: st2 admitted_items [OF items] e)
  then show ?thesis using adopting_run [OF a, of "map (Pair sv) (items @ [e])"] by (simp add: envs)
qed

lemma adopted_current: "currentLocked (fst (AdoptInstance n i hs)) \<lparr>or_NodeName = n, or_AgentInstance = i, or_Sequence = q\<rparr>"
  by (simp add: currentLocked_def AdoptInstance_def)

lemma Publish_full:
  assumes "Publish now now' meanwhile send snap s = (s', envs, evs, err)" and "gs_stream s \<noteq> None" and "wants_full now s"
  obtains s1 evs1 where "sendSnapshot send snap s = (s1, envs, evs1, err)"
  using assms by (auto simp: Publish_def split: prod.splits option.splits)


lemma send_list_sequence:
  "send_list send n ps s = (s', envs, evs, err) \<Longrightarrow>
     map env_Sequence envs = map (\<lambda>k. gs_seq s + of_nat (Suc k)) [0..<length envs] \<and>
     (err = None \<longrightarrow> gs_seq s' = gs_seq s + of_nat (length envs)) \<and> length envs \<le> length ps"
proof (induction ps arbitrary: n s envs evs)
  case (Cons p ps)
  obtain pl pe where p: "p = (pl, pe)" by fastforce
  show ?case
  proof (cases "send n")
    case (Some e)
    then show ?thesis using Cons.prems by (auto simp: p envelope_def)
  next
    case None
    then obtain envs1 evs1 where r: "send_list send (Suc n) ps (s\<lparr>gs_seq := gs_seq s + 1\<rparr>) = (s', envs1, evs1, err)"
      and e: "envs = \<lparr>env_NodeName = gs_NodeName s, env_AgentInstanceId = gs_InstanceID s, env_Sequence = gs_seq s + 1, env_Payload = Some pl\<rparr> # envs1"
      using Cons.prems by (auto simp: p envelope_def split: prod.splits)
    have "[0..<Suc (length envs1)] = 0 # map Suc [0..<length envs1]" by (simp add: upt_conv_Cons map_Suc_upt del: upt_Suc)
    then show ?thesis using Cons.IH [OF r] by (simp add: e algebra_simps del: upt_Suc)
  qed
qed simp

definition backoff_range :: "int set" where
  "backoff_range = {time_Second, 2 * time_Second, 4 * time_Second, 8 * time_Second}"

lemma backoff_step_range: "b \<in> backoff_range \<Longrightarrow> backoff_step l b = (sleep, b') \<Longrightarrow> sleep \<in> backoff_range \<and> b' \<in> backoff_range"
  unfolding backoff_range_def backoff_step_def Let_def by (cases "10 * time_Second < l") auto

lemma backoffs_range: "b \<in> backoff_range \<Longrightarrow> set (backoffs lived b) \<subseteq> backoff_range"
proof (induction lived arbitrary: b)
  case (Cons l ls)
  obtain sleep b' where e: "backoff_step l b = (sleep, b')" by fastforce
  with Cons.prems have r: "sleep \<in> backoff_range" "b' \<in> backoff_range" using backoff_step_range by blast+
  then show ?case using Cons.IH [OF r(2)] by (simp add: e)
qed simp

section \<open>Properties\<close>

text \<open>
  The two ends compose. When the sink owes a snapshot on a fresh authenticated stream and the
  sends go through, the messages it sends make the server adopt this process and replace the node's
  state by exactly the observations the registry publishes for that node.
\<close>

theorem first_publish_replaces_node:
  assumes "Publish now now' meanwhile (\<lambda>_. None) snap s = (s', envs, evs, err)" and "gs_stream s \<noteq> None" and "wants_full now s"
    and "sv_send sv = (\<lambda>_. None)" and "gs_InstanceID s \<noteq> []"
  shows "\<exists>q. fst (snd (sync_run (map (Pair sv) envs) (new_Stream (Some ag)) hs)) =
    (fst (AdoptInstance (aa_NodeName ag) (gs_InstanceID s) hs))
      \<lparr>hs_local := snapshot_half lh_AttachmentID lh_NodeName \<lparr>or_NodeName = aa_NodeName ag, or_AgentInstance = gs_InstanceID s, or_Sequence = q\<rparr>
          (sv_now sv) (admitted_locals (sv_Registry sv) (aa_NodeName ag) snap) (hs_local hs),
       hs_path := snapshot_half ph_ScopeID ph_NodeName \<lparr>or_NodeName = aa_NodeName ag, or_AgentInstance = gs_InstanceID s, or_Sequence = q\<rparr>
          (sv_now sv) (admitted_paths (sv_Registry sv) (aa_NodeName ag) snap) (hs_path hs)\<rparr>"
proof -
  obtain s1 evs1 where send: "sendSnapshot (\<lambda>_. None) snap s = (s1, envs, evs1, err)"
    by (rule Publish_full [OF assms(1-3)])
  have "hs_local (fst (AdoptInstance n i hs)) = hs_local hs" "hs_path (fst (AdoptInstance n i hs)) = hs_path hs" for n i
    by (simp_all add: AdoptInstance_def)
  then show ?thesis
    unfolding snapshot_on_fresh_stream [OF send assms(4,5)]
    by (intro exI [of _ "gs_seq s1"]) (simp add: ApplySnapshot_def adopted_current)
qed

definition example_sink :: GRPCSink where
  "example_sink = \<lparr>gs_Addr = ''c:9090'', gs_NodeName = ''n1'', gs_InstanceID = ''i9'', gs_Refresh = time_Second, gs_stream = Some 1,
     gs_needSnapshot = True, gs_lastSnapshot = 0, gs_seq = 0, gs_epoch = 0\<rparr>"

definition example_sweep :: "Attachment \<Rightarrow> Snapshot" where
  "example_sweep a = \<lparr>sn_Locals = [\<lparr>lh_AttachmentID = ID a, lh_PodUID = att_PodUID a, lh_Namespace = att_PodNamespace a, lh_PodName = att_PodName a,
       lh_NAD = att_NAD a, lh_Interface = att_Interface a, lh_IP = att_IP a, lh_NodeName = ''n1'', lh_InterfaceExists = True,
       lh_AddressPresent = True, lh_LinkUsable = True, lh_ObservedAt = 3\<rparr>],
     sn_Paths = [\<lparr>ph_Scope = ScopeEndpoint, ph_ScopeID = ID a, ph_NodeName = ''n1'', ph_NAD = att_NAD a, ph_Target = ''10.0.0.254'',
       ph_PathReady = True, ph_ObservedAt = 3\<rparr>], sn_Changed = [], sn_Retired = []\<rparr>"

lemma example_full: "gs_stream example_sink \<noteq> None" "wants_full 5 example_sink" "gs_InstanceID example_sink \<noteq> []"
  by (simp_all add: example_sink_def wants_full_def)

lemma first_publish_replaces_node_witness:
  "\<exists>s' envs evs err. Publish 5 6 (\<lambda>s. s) (\<lambda>_. None) (example_sweep example_a) example_sink = (s', envs, evs, err) \<and>
    gm_get (hs_nodeInstance (fst (snd (sync_run (map (Pair (example_sv (example_registry example_a))) envs)
      (new_Stream (Some example_identity)) example_store)))) ''n1'' = Some ''i9''"
proof -
  obtain s' envs evs err where p: "Publish 5 6 (\<lambda>s. s) (\<lambda>_. None) (example_sweep example_a) example_sink = (s', envs, evs, err)"
    by (metis prod_cases4)
  have sv: "sv_send (example_sv (example_registry example_a)) = (\<lambda>_. None)" by (simp add: example_sv_def)
  from first_publish_replaces_node [OF p example_full(1,2) sv example_full(3), of example_identity example_store] p
  show ?thesis by (auto simp: AdoptInstance_def example_identity_def example_sink_def)
qed

lemma find_single:
  fixes key :: "'x \<Rightarrow> string"
  assumes "y \<in> set xs" and "distinct (map key xs)"
  shows "find (\<lambda>x. key x = key y) (rev xs) = Some y"
  using assms
proof (induction xs rule: rev_induct)
  case (snoc z xs)
  then show ?case by (cases "z = y") (auto simp: image_iff)
qed simp

text \<open>The guard of \<^verbatim>\<open>localFrom\<close> in the terms of what is published.\<close>

lemma local_publishedI:
  assumes "reg_ok R" and "publishes R k sc a" and "ID a = lh_AttachmentID r"
    and "\<And>k sc a. publishes R k sc a \<Longrightarrow> ID a = lh_AttachmentID r \<Longrightarrow>
      att_IP a = lh_IP r \<and> att_Interface a = lh_Interface r \<and> att_NAD a = lh_NAD r \<and> (att_NodeName a = [] \<or> att_NodeName a = node)"
  shows "local_published R node r"
proof -
  obtain a' ks where e: "reg_Attachment R (lh_AttachmentID r) = (a', ks, True)"
    using reg.complete [OF assms(1,2)] assms(3) by (metis prod.collapse)
  from reg.known [OF assms(1) e] obtain k' sc' where "publishes R k' sc' a'" "ID a' = lh_AttachmentID r" by blast
  from assms(4) [OF this] show ?thesis by (simp add: local_published_def e)
qed

lemma local_publishedD:
  assumes "reg_ok R" and "local_published R node r"
  shows "\<exists>k sc a. publishes R k sc a \<and> ID a = lh_AttachmentID r \<and> att_IP a = lh_IP r \<and> att_Interface a = lh_Interface r \<and>
    att_NAD a = lh_NAD r \<and> (att_NodeName a = [] \<or> att_NodeName a = node)"
proof -
  obtain a' ks where e: "reg_Attachment R (lh_AttachmentID r) = (a', ks, True)"
    and f: "att_IP a' = lh_IP r" "att_Interface a' = lh_Interface r" "att_NAD a' = lh_NAD r" "att_NodeName a' = [] \<or> att_NodeName a' = node"
    using assms(2) by (auto simp: local_published_def split: prod.splits)
  from reg.known [OF assms(1) e] f show ?thesis by blast
qed

lemma path_published_iff:
  assumes "reg_ok R"
  shows "path_published R node p \<longleftrightarrow> {att_NodeName a | k sc a. publishes R k sc a \<and> PathKey a sc = ph_ScopeID p} = {node}"
  unfolding reg.onnode [OF assms, symmetric] path_published_def using reg.onnode_known [OF assms] by blast

text \<open>
  C20. What a sweep observed is what the server then holds. When the sink sends a full snapshot on a fresh
  authenticated stream and the sends go through, each local report whose attachment is published with
  the report's address, interface and network for that node ends up in the store under its id, as
  the agent made it but with the stream's node, and each path report whose key that node alone is behind
  likewise; this is for observation times that \<^verbatim>\<open>UnixNano\<close> can represent, others arrive wrapped to 64 bits,
  and for path scopes other than the unset one, which arrives as \<^verbatim>\<open>Endpoint\<close>. Nothing else is held for the node
  afterwards: every entry under it comes from a report of this snapshot.
\<close>

theorem report_roundtrip:
  assumes "Publish now now' meanwhile (\<lambda>_. None) snap s = (s', envs, evs, err)" and "gs_stream s \<noteq> None" and "wants_full now s"
    and "sv_send sv = (\<lambda>_. None)" and "gs_InstanceID s \<noteq> []" and "hs_ok hs" and "reg_ok (sv_Registry sv)"
    and "distinct (map lh_AttachmentID (sn_Locals snap))" and "distinct (map ph_ScopeID (sn_Paths snap))"
  shows "let hs' = fst (snd (sync_run (map (Pair sv) envs) (new_Stream (Some ag)) hs)); node = aa_NodeName ag;
             pub = (\<lambda>i a. ID a = i \<and> (\<exists>k sc. publishes (sv_Registry sv) k sc a));
             fits = (\<lambda>r a. att_IP a = lh_IP r \<and> att_Interface a = lh_Interface r \<and> att_NAD a = lh_NAD r \<and>
               (att_NodeName a = [] \<or> att_NodeName a = node));
             behind = (\<lambda>key. {att_NodeName a | k sc a. publishes (sv_Registry sv) k sc a \<and> PathKey a sc = key}) in
    (\<forall>r \<in> set (sn_Locals snap). Ex (pub (lh_AttachmentID r)) \<and> (\<forall>a. pub (lh_AttachmentID r) a \<longrightarrow> fits r a) \<and>
         - (2 ^ 63) \<le> lh_ObservedAt r \<and> lh_ObservedAt r < 2 ^ 63 \<longrightarrow>
       map_option e_Report (gm_get (hs_local hs') (lh_AttachmentID r)) = Some (r\<lparr>lh_NodeName := node\<rparr>)) \<and>
    (\<forall>p \<in> set (sn_Paths snap). behind (ph_ScopeID p) = {node} \<and> ph_Scope p \<noteq> ScopeUnset \<and>
         - (2 ^ 63) \<le> ph_ObservedAt p \<and> ph_ObservedAt p < 2 ^ 63 \<longrightarrow>
       map_option e_Report (gm_get (hs_path hs') (ph_ScopeID p)) = Some (p\<lparr>ph_NodeName := node\<rparr>)) \<and>
    (\<forall>i e. gm_get (hs_local hs') i = Some e \<and> lh_NodeName (e_Report e) = node \<longrightarrow>
       (\<exists>r \<in> set (sn_Locals snap). lh_AttachmentID r = i \<and> (\<exists>a. pub i a \<and> fits r a) \<and>
          e_Report e = r\<lparr>lh_NodeName := node, lh_ObservedAt := unix_nano (lh_ObservedAt r)\<rparr>)) \<and>
    (\<forall>i e. gm_get (hs_path hs') i = Some e \<and> ph_NodeName (e_Report e) = node \<longrightarrow>
       (\<exists>p \<in> set (sn_Paths snap). ph_ScopeID p = i \<and> behind i = {node} \<and> ph_PathReady (e_Report e) = ph_PathReady p \<and>
          ph_Target (e_Report e) = ph_Target p))"
proof -
  let ?N = "aa_NodeName ag" and ?R = "sv_Registry sv" and ?hs = "fst (snd (sync_run (map (Pair sv) envs) (new_Stream (Some ag)) hs))"
  let ?L = "admitted_locals ?R ?N snap" and ?P = "admitted_paths ?R ?N snap"
  from first_publish_replaces_node [OF assms(1-5), of ag hs] obtain q where
    l: "hs_local ?hs = snapshot_half lh_AttachmentID lh_NodeName \<lparr>or_NodeName = ?N, or_AgentInstance = gs_InstanceID s, or_Sequence = q\<rparr>
          (sv_now sv) ?L (hs_local hs)" and
    p: "hs_path ?hs = snapshot_half ph_ScopeID ph_NodeName \<lparr>or_NodeName = ?N, or_AgentInstance = gs_InstanceID s, or_Sequence = q\<rparr>
          (sv_now sv) ?P (hs_path hs)"
    by auto
  note wf = hs_ok_wf [OF assms(6)]
  have dl: "distinct (map lh_AttachmentID ?L)" using assms(8) by (simp add: admitted_locals_def comp_def distinct_map_filter)
  have dp: "distinct (map ph_ScopeID ?P)" using assms(9) by (simp add: admitted_paths_def comp_def distinct_map_filter)
  have local_in: "map_option e_Report (gm_get (hs_local ?hs) (lh_AttachmentID r)) = Some (stamped_local ?N r)"
    if "r \<in> set (sn_Locals snap)" "local_published ?R ?N r" for r
    using find_single [OF _ dl, of "stamped_local ?N r"] that
    by (auto simp: l snapshot_get [OF wf(1)] new_entry_def admitted_locals_def)
  have path_in: "map_option e_Report (gm_get (hs_path ?hs) (ph_ScopeID r)) = Some (stamped_path ?N r)"
    if "r \<in> set (sn_Paths snap)" "path_published ?R ?N r" for r
    using find_single [OF _ dp, of "stamped_path ?N r"] that
    by (auto simp: p snapshot_get [OF wf(2)] new_entry_def admitted_paths_def)
  have local_only: "\<exists>r \<in> set (sn_Locals snap). lh_AttachmentID r = i \<and> local_published ?R ?N r \<and> e_Report e = stamped_local ?N r"
    if "gm_get (hs_local ?hs) i = Some e" "lh_NodeName (e_Report e) = ?N" for i e
    using that find_rev_mem [of "\<lambda>r. lh_AttachmentID r = i" ?L]
    by (auto simp: l snapshot_get [OF wf(1)] new_entry_def admitted_locals_def split: option.splits if_splits)
  have path_only: "\<exists>r \<in> set (sn_Paths snap). ph_ScopeID r = i \<and> path_published ?R ?N r \<and> e_Report e = stamped_path ?N r"
    if "gm_get (hs_path ?hs) i = Some e" "ph_NodeName (e_Report e) = ?N" for i e
    using that find_rev_mem [of "\<lambda>r. ph_ScopeID r = i" ?P]
    by (auto simp: p snapshot_get [OF wf(2)] new_entry_def admitted_paths_def split: option.splits if_splits)
  show ?thesis
    unfolding Let_def
  proof (intro conjI ballI allI impI, goal_cases)
    case (1 r)
    then obtain a k sc where "publishes ?R k sc a" "ID a = lh_AttachmentID r" by blast
    then have "local_published ?R ?N r" by (rule local_publishedI [OF assms(7)]) (use 1 in blast)
    from local_in [OF 1(1) this] show ?case using 1 by (simp add: stamped_local_def int64_wrap_id)
  next
    case (2 r)
    then have "path_published ?R ?N r" by (simp add: path_published_iff [OF assms(7)])
    moreover have "stamped_path ?N r = r\<lparr>ph_NodeName := ?N\<rparr>"
      using 2 by (cases r; cases "ph_Scope r") (simp_all add: stamped_path_def int64_wrap_id)
    ultimately show ?case using path_in [OF 2(1)] by simp
  next
    case (3 i e)
    then obtain r where r: "r \<in> set (sn_Locals snap)" "lh_AttachmentID r = i" "local_published ?R ?N r" "e_Report e = stamped_local ?N r"
      using local_only by blast
    from local_publishedD [OF assms(7) r(3)] r(1,2,4) show ?case by (intro bexI [of _ r]) (auto simp: stamped_local_def)
  next
    case (4 i e)
    then obtain r where r: "r \<in> set (sn_Paths snap)" "ph_ScopeID r = i" "path_published ?R ?N r" "e_Report e = stamped_path ?N r"
      using path_only by blast
    then show ?case by (intro bexI [of _ r]) (auto simp: path_published_iff [OF assms(7)] stamped_path_def)
  qed
qed

lemma report_roundtrip_witness:
  "\<exists>s' envs evs err. Publish 5 6 (\<lambda>s. s) (\<lambda>_. None) (example_sweep example_a) example_sink = (s', envs, evs, err) \<and>
    map_option e_Report (gm_get (hs_local (fst (snd (sync_run (map (Pair (example_sv (example_registry example_a))) envs)
      (new_Stream (Some example_identity)) example_store)))) (ID example_a)) =
      Some ((hd (sn_Locals (example_sweep example_a)))\<lparr>lh_NodeName := ''n1''\<rparr>) \<and>
    gm_get (hs_local (fst (snd (sync_run (map (Pair (example_sv (example_registry example_a))) envs)
      (new_Stream (Some example_identity)) example_store)))) ''a'' \<noteq> Some (new_entry example_origin 0 example_local)"
proof -
  let ?sv = "example_sv (example_registry example_a)" and ?snap = "example_sweep example_a"
  obtain s' envs evs err where p: "Publish 5 6 (\<lambda>s. s) (\<lambda>_. None) ?snap example_sink = (s', envs, evs, err)"
    by (metis prod_cases4)
  have sv: "sv_send ?sv = (\<lambda>_. None)" "sv_Registry ?sv = example_registry example_a" by (simp_all add: example_sv_def)
  have d: "distinct (map lh_AttachmentID (sn_Locals ?snap))" "distinct (map ph_ScopeID (sn_Paths ?snap))" by (simp_all add: example_sweep_def)
  have n: "aa_NodeName example_identity = ''n1''" "att_NodeName example_a = ''n1''" by (simp_all add: example_identity_def example_a_def)
  have ok: "reg_ok (sv_Registry ?sv)" by (simp add: sv example_registry)
  note r = report_roundtrip [OF p example_full(1,2) sv(1) example_full(3) example_ok(1) ok d, of example_identity, unfolded Let_def sv(2) n(1)]
  obtain l where l: "sn_Locals ?snap = [l]" "lh_AttachmentID l = ID example_a" "lh_IP l = att_IP example_a" "lh_Interface l = att_Interface example_a"
    "lh_NAD l = att_NAD example_a" "lh_ObservedAt l = 3"
    by (simp add: example_sweep_def)
  have "map_option e_Report (gm_get (hs_local (fst (snd (sync_run (map (Pair ?sv) envs) (new_Stream (Some example_identity)) example_store)))) (ID example_a)) =
      Some (l\<lparr>lh_NodeName := ''n1''\<rparr>)"
    using conjunct1 [OF r] by (simp add: l example_registry(2) n(2))
  moreover have "gm_get (hs_local (fst (snd (sync_run (map (Pair ?sv) envs) (new_Stream (Some example_identity)) example_store)))) ''a'' \<noteq>
      Some (new_entry example_origin 0 example_local)"
  proof
    assume h: "gm_get (hs_local (fst (snd (sync_run (map (Pair ?sv) envs) (new_Stream (Some example_identity)) example_store)))) ''a'' =
      Some (new_entry example_origin 0 example_local)"
    have "lh_NodeName (e_Report (new_entry example_origin 0 example_local)) = ''n1''" "lh_ObservedAt (e_Report (new_entry example_origin 0 example_local)) \<noteq> unix_nano 3"
      by (simp_all add: new_entry_def example_local_def zero_LocalHealth_def time_zero_def int64_wrap_def)
    with conjunct1 [OF conjunct2 [OF conjunct2 [OF r]]] h l show False by fastforce
  qed
  ultimately show ?thesis using p l(1) by auto
qed

text \<open>
  C8. From a healthy sweep to a ready endpoint. If the registry publishes an attachment of a ready Pod
  and its path key for the node, and the first snapshot of a fresh stream carries one good local and
  one good path report for it, the attachment is ready from the moment the snapshot is applied until
  the lease runs out.
\<close>

theorem healthy_sweep_makes_ready:
  assumes "Publish now now' meanwhile (\<lambda>_. None) snap s = (s', envs, evs, err)" and "gs_stream s \<noteq> None" and "wants_full now s"
    and "sv_send sv = (\<lambda>_. None)" and "gs_InstanceID s \<noteq> []" and "hs_ok hs"
    and "att_PodReady a" and "r \<in> set (sn_Locals snap)" and "lh_AttachmentID r = ID a" and "lh_Ready r"
    and "distinct (map lh_AttachmentID (sn_Locals snap))" and "local_published (sv_Registry sv) (aa_NodeName ag) r"
    and "p \<in> set (sn_Paths snap)" and "ph_ScopeID p = PathKey a sc" and "ph_PathReady p"
    and "distinct (map ph_ScopeID (sn_Paths snap))" and "path_published (sv_Registry sv) (aa_NodeName ag) p"
    and "time_sub t (sv_now sv) \<le> hs_ttl hs"
  shows "rd_Ready (ComputeReady a sc (frozen (fst (snd (sync_run (map (Pair sv) envs) (new_Stream (Some ag)) hs))) t))"
proof -
  let ?N = "aa_NodeName ag" and ?R = "sv_Registry sv"
  obtain s1 evs1 where send: "sendSnapshot (\<lambda>_. None) snap s = (s1, envs, evs1, err)"
    by (rule Publish_full [OF assms(1-3)])
  define og where "og = \<lparr>or_NodeName = ?N, or_AgentInstance = gs_InstanceID s, or_Sequence = gs_seq s1\<rparr>"
  define hs1 where "hs1 = fst (AdoptInstance ?N (gs_InstanceID s) hs)"
  define hs2 where "hs2 = fst (snd (sync_run (map (Pair sv) envs) (new_Stream (Some ag)) hs))"
  have ok: "hs_ok hs1" using assms(6) by (simp add: hs1_def)
  note wf = hs_ok_wf [OF ok]
  have cur: "currentLocked hs1 og" by (simp add: hs1_def og_def adopted_current)
  have hs2: "hs2 = hs1\<lparr>hs_local := snapshot_half lh_AttachmentID lh_NodeName og (sv_now sv) (admitted_locals ?R ?N snap) (hs_local hs1),
      hs_path := snapshot_half ph_ScopeID ph_NodeName og (sv_now sv) (admitted_paths ?R ?N snap) (hs_path hs1)\<rparr>"
    unfolding hs2_def snapshot_on_fresh_stream [OF send assms(4,5)]
    using cur by (simp add: ApplySnapshot_def hs1_def og_def)
  have ttl: "hs_ttl hs2 = hs_ttl hs" by (simp add: hs2 hs1_def AdoptInstance_def)
  have "find (\<lambda>x. lh_AttachmentID x = ID a) (rev (admitted_locals ?R ?N snap)) = Some (stamped_local ?N r)"
    using find_single [of "stamped_local ?N r" "admitted_locals ?R ?N snap" lh_AttachmentID] assms(8,9,11,12)
    by (auto simp: admitted_locals_def comp_def distinct_map_filter)
  then have "held (hs_local hs2) (ID a) = Some (stamped_local ?N r, sv_now sv)"
    by (simp add: hs2 held_def snapshot_get [OF wf(1)] new_entry_def)
  then have l: "LocalState hs2 t (ID a) = StateHealthy"
    using assms(10,18) by (simp add: LocalState_held verdict_def ttl)
  have "find (\<lambda>x. ph_ScopeID x = PathKey a sc) (rev (admitted_paths ?R ?N snap)) = Some (stamped_path ?N p)"
    using find_single [of "stamped_path ?N p" "admitted_paths ?R ?N snap" ph_ScopeID] assms(13,14,16,17)
    by (auto simp: admitted_paths_def comp_def distinct_map_filter)
  then have "held (hs_path hs2) (PathKey a sc) = Some (stamped_path ?N p, sv_now sv)"
    by (simp add: hs2 held_def snapshot_get [OF wf(2)] new_entry_def)
  then have "PathState hs2 t (PathKey a sc) = StateHealthy"
    using assms(15,18) by (simp add: PathState_held verdict_def ttl)
  with l assms(7) show ?thesis unfolding hs2_def [symmetric] by (simp add: ready_frozen)
qed

lemma example_published:
  "local_published (example_registry a) (att_NodeName a) (hd (sn_Locals (example_sweep a)))"
  "path_published (example_registry a) (att_NodeName a) (hd (sn_Paths (example_sweep a)))"
proof -
  note ok = example_registry(1) [of a]
  have pub: "publishes (example_registry a) (''ns'', ''web'') ScopeEndpoint a" by (simp add: example_registry(2))
  obtain a' ks where e: "reg_Attachment (example_registry a) (ID a) = (a', ks, True)"
    by (rule reg.owners_complete [OF ok pub])
  with known_sound [OF ok e] have "a' = a" by (auto simp: example_registry(2))
  then show "local_published (example_registry a) (att_NodeName a) (hd (sn_Locals (example_sweep a)))"
    using e by (simp add: local_published_def example_sweep_def)
  have "PathKey a ScopeEndpoint = ID a" by (simp add: PathKey_def)
  then have "reg_PathKeyOnNode (example_registry a) (ID a) (att_NodeName a)"
    using reg.onnode [OF ok, of "ID a" "att_NodeName a"] by (auto simp: example_registry(2))
  then show "path_published (example_registry a) (att_NodeName a) (hd (sn_Paths (example_sweep a)))"
    using reg.onnode_known [OF ok] by (auto simp: path_published_def example_sweep_def)
qed

lemma healthy_sweep_makes_ready_witness:
  "\<exists>s' envs evs err. Publish 5 6 (\<lambda>s. s) (\<lambda>_. None) (example_sweep (example_a\<lparr>att_PodReady := True\<rparr>)) example_sink = (s', envs, evs, err) \<and>
    rd_Ready (ComputeReady (example_a\<lparr>att_PodReady := True\<rparr>) ScopeEndpoint (frozen (fst (snd (sync_run
      (map (Pair (example_sv (example_registry (example_a\<lparr>att_PodReady := True\<rparr>)))) envs)
      (new_Stream (Some example_identity)) example_store))) (9 + 10 * time_Second)))"
proof -
  let ?a = "example_a\<lparr>att_PodReady := True\<rparr>"
  let ?sv = "example_sv (example_registry ?a)"
  obtain s' envs evs err where p: "Publish 5 6 (\<lambda>s. s) (\<lambda>_. None) (example_sweep ?a) example_sink = (s', envs, evs, err)"
    by (metis prod_cases4)
  have n: "aa_NodeName example_identity = att_NodeName ?a" by (simp add: example_identity_def example_a_def)
  have sv: "sv_send ?sv = (\<lambda>_. None)" "sv_Registry ?sv = example_registry ?a" "sv_now ?sv = 9" by (simp_all add: example_sv_def)
  have ttl: "hs_ttl example_store = 10 * time_Second"
    by (simp add: example_store_def AcceptPath_def AcceptLocal_def AdoptInstance_def NewHealthStore_def)
  have "rd_Ready (ComputeReady ?a ScopeEndpoint (frozen (fst (snd (sync_run (map (Pair ?sv) envs)
      (new_Stream (Some example_identity)) example_store))) (9 + 10 * time_Second)))"
    by (rule healthy_sweep_makes_ready [OF p example_full(1,2) sv(1) example_full(3) example_ok(1),
          where r = "hd (sn_Locals (example_sweep ?a))" and p = "hd (sn_Paths (example_sweep ?a))"])
       (simp_all only: sv n ttl example_published, simp_all add: example_sweep_def lh_Ready_def PathKey_def time_sub_def)
  with p show ?thesis by blast
qed

text \<open>
  Whatever becomes of the sends, the envelopes the stream takes in one call carry consecutive
  sequence numbers, starting right after the last one used, and all name this process.
\<close>

theorem sequence_is_consecutive:
  assumes "send_list send n ps s = (s', envs, evs, err)"
  shows "map env_Sequence envs = map (\<lambda>k. gs_seq s + of_nat (Suc k)) [0..<length envs] \<and>
    (err = None \<longrightarrow> gs_seq s' = gs_seq s + of_nat (length envs))"
  using send_list_sequence [OF assms] by blast

lemma sequence_is_consecutive_witness:
  "map env_Sequence (fst (snd (send_list (\<lambda>n. if n = 1 then Some ErrSessionRevoked else None) 0
     [(PRetired ''a'', []), (PRetired ''b'', [])] example_sink))) = [1]"
proof -
  let ?send = "\<lambda>n :: nat. if n = 1 then Some ErrSessionRevoked else None"
  obtain s' envs evs err where r: "send_list ?send 0 [(PRetired ''a'', []), (PRetired ''b'', [])] example_sink = (s', envs, evs, err)"
    by (metis prod_cases4)
  then have "length envs = 1" by (auto simp: envelope_def)
  with sequence_is_consecutive [OF r] r show ?thesis by (simp add: example_sink_def)
qed

text \<open>
  A resync the controller asks for while a snapshot is being sent is forgotten: \<^verbatim>\<open>Publish\<close> clears the
  request after sending, without looking whether it arrived meanwhile.
\<close>

theorem resync_can_be_lost:
  assumes "gs_stream s \<noteq> None" and "wants_full now s" and "ack_ResyncRequired ack"
  shows "gs_needSnapshot (fst (on_ack ack s1)) \<and>
    \<not> gs_needSnapshot (fst (Publish now now' (\<lambda>s. fst (on_ack ack s)) (\<lambda>_. None) snap s))"
proof -
  obtain s1 envs evs err where r: "sendSnapshot (\<lambda>_. None) snap s = (s1, envs, evs, err)" by (metis prod_cases4)
  obtain b items e where "err = None" using snapshot_sent [OF r] by blast
  with r assms show ?thesis by (auto simp: Publish_def on_ack_def)
qed

lemma resync_can_be_lost_witness:
  "\<not> gs_needSnapshot (fst (Publish 5 6 (\<lambda>s. fst (on_ack \<lparr>ack_AcceptedSequence = 1, ack_ResyncRequired = True, ack_Reason = ''snapshot mismatch''\<rparr> s))
     (\<lambda>_. None) (example_sweep example_a) example_sink))"
  using resync_can_be_lost [OF example_full(1,2), of "\<lparr>ack_AcceptedSequence = 1, ack_ResyncRequired = True, ack_Reason = ''snapshot mismatch''\<rparr>"]
  by simp

text \<open>
  Reconnecting backs off within bounds: however long the sessions lived, every sleep is one, two,
  four or eight seconds, and after a session of more than ten it is one second again.
\<close>

theorem backoff_bounded:
  "set (backoffs lived time_Second) \<subseteq> backoff_range \<and>
   (l > 10 * time_Second \<longrightarrow> hd (backoffs (l # ls) b) = time_Second)"
proof (intro conjI impI)
  show "set (backoffs lived time_Second) \<subseteq> backoff_range"
    by (rule backoffs_range) (simp add: backoff_range_def)
  show "hd (backoffs (l # ls) b) = time_Second" if "l > 10 * time_Second"
    using that by (cases "backoff_step l b") (simp add: backoff_step_def Let_def)
qed

lemma backoff_bounded_witness: "hd (backoffs [11 * time_Second] (8 * time_Second)) = time_Second"
  by (rule mp [OF conjunct2 [OF backoff_bounded]]) simp

text \<open>Without a CA the credentials say that plaintext will do.\<close>

lemma plaintext_token_allowed: "tokenPath \<noteq> [] \<Longrightarrow> session_requires_tls None tokenPath = Some False"
  by (simp add: session_requires_tls_def)

end
