(* ===== verification/Agent_Sweep.thy ===== *)
theory Agent_Sweep
  imports Service_Reconciler Probe_Manager Local_Net Grpc_Sink
begin

text \<open>
  \<^verbatim>\<open>internal/agent/agent.go\<close>: one sweep of the node agent, from the lists of Services and Pods to the
  snapshot it publishes. The i-th turn of the loop meets the runtime, the kernel and the API cache as
  \<open>se_turn e i\<close> says; \<open>se_order\<close> is the order in which the map of known attachments is visited;
  \<open>se_mid\<close> and \<open>se_late\<close> are what the probe loop does to its manager between the three calls of the
  sweep, each a critical section of its own. The resolver is the cache, as \<^verbatim>\<open>main\<close> wires it; log lines
  are not modelled. \<^verbatim>\<open>seen\<close> is a field the source initialises and never uses again.
\<close>

section \<open>State\<close>

definition PathNone :: string where
  "PathNone = ''none''"

definition PathAssumeReady :: string where
  "PathAssumeReady = ''assume-ready''"

definition PathICMP :: string where
  "PathICMP = ''icmp''"

text \<open>\<open>ag_Sink = None\<close> is the sink that drops everything.\<close>

record Agent =
  ag_NodeName :: string
  ag_Resolver :: "(string, Handle) gomap"
  ag_Monitor :: Monitor
  ag_Sink :: "GRPCSink option"
  ag_PathMode :: string
  ag_Probes :: "Manager option"
  ag_ProbeTimeout :: int
  ag_prev :: "(string, bool) gomap"

record turn_env =
  te_exists :: "string \<Rightarrow> bool"
  te_runtime :: "string \<Rightarrow> go_error + Handle"
  te_subscribe :: subscribe_calls
  te_netlink :: netlink
  te_NAD :: "string \<Rightarrow> string \<Rightarrow> go_error + NadObject"

record sweep_env =
  se_Services :: "go_error + Service list"
  se_Pods :: "go_error + Pod list"
  se_now :: int
  se_turn :: "nat \<Rightarrow> turn_env"
  se_order :: "string list \<Rightarrow> string list"
  se_mid :: "Manager \<Rightarrow> Manager"
  se_states_now :: int
  se_late :: "Manager \<Rightarrow> Manager"
  se_publish :: "Snapshot \<Rightarrow> GRPCSink \<Rightarrow> GRPCSink \<times> Envelope list \<times> event list \<times> go_error option"

section \<open>What is observed\<close>

text \<open>The attachments one Service claims among the Pods of the node.\<close>

definition pod_targets :: "'sel label_lib \<Rightarrow> Service \<Rightarrow> string \<Rightarrow> 'sel \<Rightarrow> Pod \<Rightarrow> Attachment list" where
  "pod_targets L svc nad sel pod =
     (if pod_Namespace pod \<noteq> svc_Namespace svc \<or> \<not> Eligible pod then []
      else if \<not> lbl_Matches L sel (pod_Labels pod) then []
      else case FromPod pod nad of Inl _ \<Rightarrow> [] | Inr atts \<Rightarrow> atts)"

definition svc_targets :: "'sel label_lib \<Rightarrow> Pod list \<Rightarrow> Service \<Rightarrow> Attachment list" where
  "svc_targets L pods svc =
     (if \<not> Managed svc \<or> Validate svc \<noteq> None then []
      else case NAD_of svc of Inl _ \<Rightarrow> []
      | Inr nad \<Rightarrow> (case Selector_of L svc of Inl _ \<Rightarrow> []
        | Inr sel \<Rightarrow> concat (map (pod_targets L svc nad sel) pods)))"

definition targets :: "'sel label_lib \<Rightarrow> go_error + Service list \<Rightarrow> go_error + Pod list \<Rightarrow> go_error + Attachment list" where
  "targets L svcs pods = (case svcs of Inl e \<Rightarrow> Inl e
    | Inr ss \<Rightarrow> (case pods of Inl e \<Rightarrow> Inl e | Inr ps \<Rightarrow> Inr (concat (map (svc_targets L ps) ss))))"

text \<open>\<open>get\<close> is the client's read of the network object.\<close>

definition probeConfig :: "(string \<Rightarrow> string \<Rightarrow> go_error + NadObject) \<Rightarrow> string \<Rightarrow> ProbeConfig" where
  "probeConfig get nad = (case SplitNAD nad of
      Inl _ \<Rightarrow> zero_ProbeConfig
    | Inr (ns, name) \<Rightarrow> (case get ns name of
        Inl _ \<Rightarrow> zero_ProbeConfig
      | Inr u \<Rightarrow> (case ProbeFromNAD u of Inl _ \<Rightarrow> zero_ProbeConfig | Inr cfg \<Rightarrow> cfg)))"

section \<open>One turn of the loop\<close>

record sweeping =
  sg_cache :: "(string, Handle) gomap"
  sg_monitor :: Monitor
  sg_prev :: "(string, bool) gomap"
  sg_handles :: "(string, Handle) gomap"
  sg_inspected :: "(string \<times> string, Link) gomap"
  sg_live :: "(string, bool) gomap"
  sg_changed :: "(string, bool) gomap"
  sg_locals :: "LocalHealth list"
  sg_specs :: "Spec list"
  sg_probeCfg :: "(string, ProbeConfig) gomap"
  sg_events :: "event list"

definition resolve_turn :: "turn_env \<Rightarrow> string \<Rightarrow> sweeping \<Rightarrow> sweeping \<times> Handle option" where
  "resolve_turn te uid g = (case gm_get (sg_handles g) uid of
      Some h \<Rightarrow> (g, Some h)
    | None \<Rightarrow> (case Cache_Resolve (te_exists te) (te_runtime te) uid (sg_cache g) of
        (c, Inl _) \<Rightarrow> (g\<lparr>sg_cache := c\<rparr>, None)
      | (c, Inr h) \<Rightarrow> (g\<lparr>sg_cache := c, sg_handles := gm_put uid h (sg_handles g),
            sg_monitor := fst (Ensure (te_subscribe te) uid (hd_Path h) (sg_monitor g))\<rparr>, Some h)))"

definition inspect_turn :: "turn_env \<Rightarrow> Handle \<Rightarrow> string \<Rightarrow> string \<Rightarrow> sweeping \<Rightarrow> sweeping \<times> Link option" where
  "inspect_turn te h uid iface g = (case gm_get (sg_inspected g) (uid, iface) of
      Some link \<Rightarrow> (g, Some link)
    | None \<Rightarrow> (case Inspect (te_netlink te) (hd_Path h) iface of
        Inl _ \<Rightarrow> (g, None)
      | Inr link \<Rightarrow> (g\<lparr>sg_inspected := gm_put (uid, iface) link (sg_inspected g)\<rparr>, Some link)))"

definition observation :: "Agent \<Rightarrow> int \<Rightarrow> Attachment \<Rightarrow> Link \<Rightarrow> LocalHealth" where
  "observation a now at link = \<lparr>lh_AttachmentID = ID at, lh_PodUID = att_PodUID at, lh_Namespace = att_PodNamespace at,
     lh_PodName = att_PodName at, lh_NAD = att_NAD at, lh_Interface = att_Interface at, lh_IP = att_IP at,
     lh_NodeName = ag_NodeName a, lh_InterfaceExists = ln_Exists link, lh_AddressPresent = Has link (att_IP at),
     lh_LinkUsable = (ln_Exists link \<and> ln_Usable link), lh_ObservedAt = now\<rparr>"

definition probe_spec :: "Agent \<Rightarrow> Attachment \<Rightarrow> Handle \<Rightarrow> ProbeConfig \<Rightarrow> Spec" where
  "probe_spec a at h cfg = \<lparr>ps_ScopeKey = ID at, ps_Scope = ScopeEndpoint, ps_NAD = att_NAD at, ps_AttachmentID = ID at,
     ps_PodName = att_PodName at, ps_NetnsPath = hd_Path h,
     ps_Interface = (if pc_SourceInterface cfg \<noteq> [] then pc_SourceInterface cfg else att_Interface at),
     ps_SourceIP = att_IP at, ps_Target = pc_Target cfg, ps_Timeout = ag_ProbeTimeout a\<rparr>"

definition probe_turn :: "Agent \<Rightarrow> turn_env \<Rightarrow> Attachment \<Rightarrow> Handle \<Rightarrow> Link \<Rightarrow> sweeping \<Rightarrow> sweeping" where
  "probe_turn a te at h link g =
     (if ag_PathMode a = PathICMP then
        (let cfg = (case gm_get (sg_probeCfg g) (att_NAD at) of Some c \<Rightarrow> c | None \<Rightarrow> probeConfig (te_NAD te) (att_NAD at));
             g1 = (if gm_get (sg_probeCfg g) (att_NAD at) = None then g\<lparr>sg_probeCfg := gm_put (att_NAD at) cfg (sg_probeCfg g)\<rparr> else g) in
         if Configured cfg \<and> ln_Exists link then g1\<lparr>sg_specs := sg_specs g1 @ [probe_spec a at h cfg]\<rparr> else g1)
      else g)"

definition transition :: "LocalHealth \<Rightarrow> Handle \<Rightarrow> (string, bool) gomap \<Rightarrow> (string, bool) gomap \<times> event list \<times> bool" where
  "transition r h prev = (gm_put (lh_AttachmentID r) (lh_Ready r) prev,
     (case gm_get prev (lh_AttachmentID r) of
        None \<Rightarrow> ([Event ''attachment_observed'' [(''attachment_id'', VStr (lh_AttachmentID r)), (''pod'', VStr (lh_PodName r)),
           (''ip'', VStr (lh_IP r)), (''interface'', VStr (lh_Interface r)), (''netns'', VStr (hd_Path h)),
           (''sandbox'', VStr (hd_SandboxID h)), (''local_ready'', VBool (lh_Ready r))]], True)
      | Some was \<Rightarrow>
          if was = lh_Ready r then ([], False)
          else ([Event (if lh_Ready r then ''recovery_detected'' else ''failure_detected'')
             [(''attachment_id'', VStr (lh_AttachmentID r)), (''pod'', VStr (lh_PodName r)), (''ip'', VStr (lh_IP r)),
              (''interface'', VStr (lh_Interface r)), (''interface_exists'', VBool (lh_InterfaceExists r)),
              (''address_present'', VBool (lh_AddressPresent r)), (''link_usable'', VBool (lh_LinkUsable r))]], True)))"

definition local_health_event :: "LocalHealth \<Rightarrow> event" where
  "local_health_event r = Event ''local_health'' [(''attachment_id'', VStr (lh_AttachmentID r)), (''pod_uid'', VStr (lh_PodUID r)),
     (''namespace'', VStr (lh_Namespace r)), (''pod'', VStr (lh_PodName r)), (''nad'', VStr (lh_NAD r)),
     (''interface'', VStr (lh_Interface r)), (''ip'', VStr (lh_IP r)), (''node'', VStr (lh_NodeName r)),
     (''local_ready'', VBool (lh_Ready r)), (''interface_exists'', VBool (lh_InterfaceExists r)),
     (''address_present'', VBool (lh_AddressPresent r)), (''link_usable'', VBool (lh_LinkUsable r)),
     (''observed_at'', VInt (unix_nano (lh_ObservedAt r)))]"

text \<open>The rest of a turn, with the interface in hand.\<close>

definition observe_turn :: "Agent \<Rightarrow> int \<Rightarrow> turn_env \<Rightarrow> Attachment \<Rightarrow> Handle \<Rightarrow> Link \<Rightarrow> sweeping \<Rightarrow> sweeping" where
  "observe_turn a now te at h link g = (let r = observation a now at link; k = lh_AttachmentID r;
       g1 = probe_turn a te at h link (g\<lparr>sg_live := gm_put k True (sg_live g), sg_locals := sg_locals g @ [r]\<rparr>) in
     case transition r h (sg_prev g1) of (prev', evs, moved) \<Rightarrow>
       g1\<lparr>sg_prev := prev', sg_changed := (if moved then gm_put k True (sg_changed g1) else sg_changed g1),
          sg_events := sg_events g1 @ evs @ [local_health_event r]\<rparr>)"

definition sweep_turn :: "Agent \<Rightarrow> int \<Rightarrow> turn_env \<Rightarrow> Attachment \<Rightarrow> sweeping \<Rightarrow> sweeping" where
  "sweep_turn a now te at g = (case resolve_turn te (att_PodUID at) g of
      (g1, None) \<Rightarrow> g1
    | (g1, Some h) \<Rightarrow> (case inspect_turn te h (att_PodUID at) (att_Interface at) g1 of
        (g2, None) \<Rightarrow> g2
      | (g2, Some link) \<Rightarrow> observe_turn a now te at h link g2))"

definition sweep_start :: "Agent \<Rightarrow> sweeping" where
  "sweep_start a = \<lparr>sg_cache = ag_Resolver a, sg_monitor = ag_Monitor a, sg_prev = ag_prev a, sg_handles = [], sg_inspected = [],
     sg_live = [], sg_changed = [], sg_locals = [], sg_specs = [], sg_probeCfg = [], sg_events = []\<rparr>"

definition sweep_loop :: "Agent \<Rightarrow> int \<Rightarrow> (nat \<Rightarrow> turn_env) \<Rightarrow> Attachment list \<Rightarrow> sweeping" where
  "sweep_loop a now te atts = fold (\<lambda>(i, at). sweep_turn a now (te i) at) (enumerate 0 atts) (sweep_start a)"

section \<open>After the loop\<close>

definition retired_ids :: "(string list \<Rightarrow> string list) \<Rightarrow> sweeping \<Rightarrow> string list" where
  "retired_ids order g = order (filter (\<lambda>i. gm_get (sg_live g) i \<noteq> Some True) (gm_keys (sg_prev g)))"

definition forget_pod :: "string \<Rightarrow> sweeping \<Rightarrow> sweeping" where
  "forget_pod uid g = (if gm_get (sg_handles g) uid = None
     then g\<lparr>sg_monitor := mon_Forget uid (sg_monitor g), sg_cache := Cache_Forget uid (sg_cache g)\<rparr> else g)"

definition retire :: "(string list \<Rightarrow> string list) \<Rightarrow> sweeping \<Rightarrow> sweeping \<times> string list" where
  "retire order g = (let gone = retired_ids order g;
       g1 = g\<lparr>sg_prev := fold gm_del gone (sg_prev g),
              sg_events := sg_events g @ map (\<lambda>i. Event ''attachment_retired'' [(''attachment_id'', VStr i)]) gone\<rparr> in
     (fold forget_pod (Watching (sg_monitor g1)) g1, gone))"

definition assumed_path :: "int \<Rightarrow> LocalHealth \<Rightarrow> PathHealth" where
  "assumed_path now r = \<lparr>ph_Scope = ScopeEndpoint, ph_ScopeID = lh_AttachmentID r, ph_NodeName = [], ph_NAD = lh_NAD r,
     ph_Target = ''(assumed)'', ph_PathReady = True, ph_ObservedAt = now\<rparr>"

text \<open>The three calls to the probe manager.\<close>

definition probe_phase :: "sweep_env \<Rightarrow> Spec list \<Rightarrow> Manager \<Rightarrow> Manager \<times> PathHealth list \<times> (string, bool) gomap" where
  "probe_phase e specs m = (let m1 = se_mid e (SetTargets specs m); paths = States (se_states_now e) m1 in
     case TakeChanged (se_late e m1) of (m2, changed) \<Rightarrow> (m2, paths, changed))"

definition path_phase :: "sweep_env \<Rightarrow> Agent \<Rightarrow> sweeping \<Rightarrow> Manager option \<times> PathHealth list \<times> (string, bool) gomap" where
  "path_phase e a g =
     (if ag_PathMode a = PathAssumeReady then (ag_Probes a, map (assumed_path (se_now e)) (sg_locals g), sg_changed g)
      else if ag_PathMode a = PathICMP then
        (case ag_Probes a of
           None \<Rightarrow> (None, [], sg_changed g)
         | Some m \<Rightarrow> (case probe_phase e (sg_specs g) m of
             (m2, paths, changed) \<Rightarrow> (Some m2, paths, gm_put_all id (\<lambda>_. True) (gm_keys changed) (sg_changed g))))
      else (ag_Probes a, [], sg_changed g))"

text \<open>The snapshot of a sweep, with the agent as it is before the snapshot is published.\<close>

definition sweep_snapshot :: "'sel label_lib \<Rightarrow> sweep_env \<Rightarrow> Agent \<Rightarrow> (Agent \<times> Snapshot \<times> event list) option" where
  "sweep_snapshot L e a = (case targets L (se_Services e) (se_Pods e) of
      Inl _ \<Rightarrow> None
    | Inr atts \<Rightarrow> (case retire (se_order e) (sweep_loop a (se_now e) (se_turn e) atts) of (g, gone) \<Rightarrow>
        (case path_phase e a g of (probes, paths, changed) \<Rightarrow>
          Some (a\<lparr>ag_Resolver := sg_cache g, ag_Monitor := sg_monitor g, ag_prev := sg_prev g, ag_Probes := probes\<rparr>,
            \<lparr>sn_Locals = sg_locals g, sn_Paths = paths, sn_Changed = changed, sn_Retired = gone\<rparr>, sg_events g))))"

definition sweep :: "'sel label_lib \<Rightarrow> sweep_env \<Rightarrow> Agent \<Rightarrow> Agent \<times> Envelope list \<times> event list" where
  "sweep L e a = (case sweep_snapshot L e a of
      None \<Rightarrow> (a, [], [])
    | Some (a1, snap, evs) \<Rightarrow> (case ag_Sink a1 of
        None \<Rightarrow> (a1, [], evs)
      | Some s \<Rightarrow> (case se_publish e snap s of (s', envs, evs', _) \<Rightarrow> (a1\<lparr>ag_Sink := Some s'\<rparr>, envs, evs @ evs'))))"

section \<open>The loop\<close>

lemma resolve_turn_rest:
  assumes "resolve_turn te uid g = (g1, oh)"
  shows "sg_inspected g1 = sg_inspected g" "sg_locals g1 = sg_locals g" "sg_prev g1 = sg_prev g" "sg_live g1 = sg_live g"
    "sg_changed g1 = sg_changed g" "sg_specs g1 = sg_specs g" "sg_probeCfg g1 = sg_probeCfg g"
  using assms by (auto simp: resolve_turn_def split: option.splits sum.splits prod.splits)

lemma resolve_turn_handles:
  assumes "resolve_turn te uid g = (g1, oh)"
  shows "(oh = None \<and> sg_handles g1 = sg_handles g \<and> gm_get (sg_cache g1) uid = None) \<or>
    (\<exists>h. oh = Some h \<and> gm_get (sg_handles g1) uid = Some h \<and>
       (sg_handles g1 = sg_handles g \<or>
        (gm_get (sg_handles g) uid = None \<and> sg_handles g1 = gm_put uid h (sg_handles g) \<and>
         (te_runtime te uid = Inr h \<or> gm_get (sg_cache g) uid = Some h \<and> te_exists te (hd_Path h)))))"
  using assms
  by (auto simp: resolve_turn_def Cache_Resolve_def Cache_Forget_def Let_def split: option.splits sum.splits prod.splits if_splits)

lemma resolve_turn_cache:
  assumes "resolve_turn te uid g = (g1, oh)" and "u \<noteq> uid"
  shows "gm_get (sg_cache g1) u = gm_get (sg_cache g) u"
  using assms
  by (auto simp: resolve_turn_def Cache_Resolve_def Cache_Forget_def Let_def split: option.splits sum.splits prod.splits if_splits)

lemma inspect_turn_rest:
  assumes "inspect_turn te h uid iface g = (g1, ol)"
  shows "sg_handles g1 = sg_handles g" "sg_cache g1 = sg_cache g" "sg_locals g1 = sg_locals g" "sg_prev g1 = sg_prev g" "sg_live g1 = sg_live g"
    "sg_changed g1 = sg_changed g" "sg_specs g1 = sg_specs g" "sg_probeCfg g1 = sg_probeCfg g"
  using assms by (auto simp: inspect_turn_def split: option.splits sum.splits)

lemma inspect_turn_links:
  assumes "inspect_turn te h uid iface g = (g1, ol)"
  shows "(ol = None \<and> sg_inspected g1 = sg_inspected g) \<or>
    (\<exists>l. ol = Some l \<and> gm_get (sg_inspected g1) (uid, iface) = Some l \<and>
       (sg_inspected g1 = sg_inspected g \<or>
        (sg_inspected g1 = gm_put (uid, iface) l (sg_inspected g) \<and> Inspect (te_netlink te) (hd_Path h) iface = Inr l)))"
  using assms by (auto simp: inspect_turn_def split: option.splits sum.splits)

lemma probe_turn_rest [simp]:
  "sg_handles (probe_turn a te at h l g) = sg_handles g" "sg_cache (probe_turn a te at h l g) = sg_cache g" "sg_inspected (probe_turn a te at h l g) = sg_inspected g"
  "sg_locals (probe_turn a te at h l g) = sg_locals g" "sg_prev (probe_turn a te at h l g) = sg_prev g"
  "sg_live (probe_turn a te at h l g) = sg_live g" "sg_changed (probe_turn a te at h l g) = sg_changed g"
  by (simp_all add: probe_turn_def Let_def)

lemma observation_id [simp]: "lh_AttachmentID (observation a now at l) = ID at"
  by (simp add: observation_def)

lemma observe_turn_simp: "observe_turn a now te at h l g =
    (let r = observation a now at l;
         g1 = probe_turn a te at h l (g\<lparr>sg_live := gm_put (ID at) True (sg_live g), sg_locals := sg_locals g @ [r]\<rparr>);
         moved = snd (snd (transition r h (sg_prev g))) in
     g1\<lparr>sg_prev := gm_put (ID at) (lh_Ready r) (sg_prev g),
        sg_changed := (if moved then gm_put (ID at) True (sg_changed g) else sg_changed g),
        sg_events := sg_events g1 @ fst (snd (transition r h (sg_prev g))) @ [local_health_event r]\<rparr>)"
proof -
  have "fst (transition r h prev) = gm_put (lh_AttachmentID r) (lh_Ready r) prev" for r prev by (simp add: transition_def)
  then show ?thesis by (simp add: observe_turn_def Let_def case_prod_beta)
qed

lemma probe_turn_live [simp]:
  "sg_specs (probe_turn a te at h l (g\<lparr>sg_live := x, sg_locals := y\<rparr>)) = sg_specs (probe_turn a te at h l g)"
  "sg_probeCfg (probe_turn a te at h l (g\<lparr>sg_live := x, sg_locals := y\<rparr>)) = sg_probeCfg (probe_turn a te at h l g)"
  by (simp_all add: probe_turn_def Let_def)

lemma transition_moved: "snd (snd (transition r h prev)) \<longleftrightarrow> gm_get prev (lh_AttachmentID r) \<noteq> Some (lh_Ready r)"
  by (auto simp: transition_def split: option.split)

lemma observe_turn_fields:
  "sg_handles (observe_turn a now te at h l g) = sg_handles g"
  "sg_cache (observe_turn a now te at h l g) = sg_cache g"
  "sg_inspected (observe_turn a now te at h l g) = sg_inspected g"
  "sg_locals (observe_turn a now te at h l g) = sg_locals g @ [observation a now at l]"
  "sg_prev (observe_turn a now te at h l g) = gm_put (ID at) (lh_Ready (observation a now at l)) (sg_prev g)"
  "sg_live (observe_turn a now te at h l g) = gm_put (ID at) True (sg_live g)"
  "sg_changed (observe_turn a now te at h l g) =
      (if gm_get (sg_prev g) (ID at) = Some (lh_Ready (observation a now at l)) then sg_changed g else gm_put (ID at) True (sg_changed g))"
  "sg_specs (observe_turn a now te at h l g) = sg_specs (probe_turn a te at h l g)"
  "sg_probeCfg (observe_turn a now te at h l g) = sg_probeCfg (probe_turn a te at h l g)"
  by (simp_all add: observe_turn_simp Let_def transition_moved)

text \<open>A turn either adds the observation of one interface, or nothing but knowledge of the namespace.\<close>

lemma sweep_turn_cases:
  obtains (skip) "sg_locals (sweep_turn a now te at g) = sg_locals g" "sg_prev (sweep_turn a now te at g) = sg_prev g"
      "sg_live (sweep_turn a now te at g) = sg_live g" "sg_changed (sweep_turn a now te at g) = sg_changed g"
      "sg_specs (sweep_turn a now te at g) = sg_specs g" "sg_probeCfg (sweep_turn a now te at g) = sg_probeCfg g"
    | (observe) h l g2 where "sweep_turn a now te at g = observe_turn a now te at h l g2"
      "sg_locals g2 = sg_locals g" "sg_prev g2 = sg_prev g" "sg_live g2 = sg_live g" "sg_changed g2 = sg_changed g"
      "sg_specs g2 = sg_specs g" "sg_probeCfg g2 = sg_probeCfg g"
      "gm_get (sg_inspected g2) (att_PodUID at, att_Interface at) = Some l" "gm_get (sg_handles g2) (att_PodUID at) = Some h"
proof -
  obtain g1 oh where 1: "resolve_turn te (att_PodUID at) g = (g1, oh)" by fastforce
  show thesis
  proof (cases oh)
    case None
    then have e: "sweep_turn a now te at g = g1" by (simp add: sweep_turn_def 1)
    show thesis by (rule skip) (simp_all add: e resolve_turn_rest [OF 1])
  next
    case (Some h)
    obtain g2 ol where 2: "inspect_turn te h (att_PodUID at) (att_Interface at) g1 = (g2, ol)" by fastforce
    show thesis
    proof (cases ol)
      case None
      then have e: "sweep_turn a now te at g = g2" by (simp add: sweep_turn_def 1 2 Some)
      show thesis by (rule skip) (simp_all add: e resolve_turn_rest [OF 1] inspect_turn_rest [OF 2])
    next
      case l: (Some l)
      have e: "sweep_turn a now te at g = observe_turn a now te at h l g2" by (simp add: sweep_turn_def 1 2 Some l)
      show thesis
        using resolve_turn_handles [OF 1] inspect_turn_links [OF 2]
        by (intro observe [OF e]) (auto simp: Some l resolve_turn_rest [OF 1] inspect_turn_rest [OF 2])
    qed
  qed
qed

lemma sweep_loop_snoc: "sweep_loop a now te (atts @ [at]) = sweep_turn a now (te (length atts)) at (sweep_loop a now te atts)"
  by (simp add: sweep_loop_def enumerate_append_eq)

lemma gm_put_all_snoc: "gm_put_all key val (xs @ [x]) m = gm_put (key x) (val x) (gm_put_all key val xs m)"
  by (simp add: gm_put_all_append)

lemma sweep_loop_memory:
  "sg_prev (sweep_loop a now te atts) = gm_put_all lh_AttachmentID lh_Ready (sg_locals (sweep_loop a now te atts)) (ag_prev a)"
  "sg_live (sweep_loop a now te atts) = gm_put_all lh_AttachmentID (\<lambda>_. True) (sg_locals (sweep_loop a now te atts)) []"
proof (induction atts rule: rev_induct)
  case Nil
  case 1 show ?case by (simp add: sweep_loop_def sweep_start_def)
  case 2 show ?case by (simp add: sweep_loop_def sweep_start_def)
next
  case (snoc at atts)
  let ?g = "sweep_loop a now te atts"
  case 1 show ?case
    by (cases rule: sweep_turn_cases [of a now "te (length atts)" at ?g])
       (simp_all add: sweep_loop_snoc snoc observe_turn_fields gm_put_all_snoc)
  case 2 show ?case
    by (cases rule: sweep_turn_cases [of a now "te (length atts)" at ?g])
       (simp_all add: sweep_loop_snoc snoc observe_turn_fields gm_put_all_snoc)
qed

text \<open>The changed ids are those of the observations that differ from the memory at the start.\<close>

lemma sweep_loop_changed:
  "gm_get (sg_changed (sweep_loop a now te atts)) k =
     (if \<exists>r \<in> set (sg_locals (sweep_loop a now te atts)). lh_AttachmentID r = k \<and> gm_get (ag_prev a) k \<noteq> Some (lh_Ready r)
      then Some True else None)"
proof (induction atts rule: rev_induct)
  case Nil
  show ?case by (simp add: sweep_loop_def sweep_start_def)
next
  case (snoc at atts)
  let ?g = "sweep_loop a now te atts"
  note mem = sweep_loop_memory(1) [of a now te atts]
  show ?case
  proof (cases rule: sweep_turn_cases [of a now "te (length atts)" at ?g])
    case skip
    then show ?thesis by (simp add: sweep_loop_snoc snoc)
  next
    case (observe h l g2)
    let ?r = "observation a now at l"
    have old: "\<exists>r \<in> set (sg_locals ?g). lh_AttachmentID r = ID at \<and> gm_get (ag_prev a) (ID at) \<noteq> Some (lh_Ready r)"
      if "gm_get (sg_prev ?g) (ID at) \<noteq> gm_get (ag_prev a) (ID at)"
    proof -
      from that obtain v where v: "gm_get (sg_prev ?g) (ID at) = Some v"
        unfolding mem gm_get_put_all by (auto split: option.splits)
      from gm_get_put_all_Some [OF this [unfolded mem]] that v show ?thesis by auto
    qed
    note step = sweep_loop_snoc observe(1) observe_turn_fields observe(2,3,5)
    show ?thesis
    proof (cases "k = ID at")
      case False
      then show ?thesis by (simp add: step snoc)
    next
      case True
      let ?P = "\<exists>r \<in> set (sg_locals ?g). lh_AttachmentID r = ID at \<and> gm_get (ag_prev a) (ID at) \<noteq> Some (lh_Ready r)"
      have ih: "gm_get (sg_changed ?g) (ID at) = (if ?P then Some True else None)" using snoc by (simp only: True)
      have new: "(\<exists>r \<in> set (sg_locals ?g @ [?r]). lh_AttachmentID r = ID at \<and> gm_get (ag_prev a) (ID at) \<noteq> Some (lh_Ready r))
          \<longleftrightarrow> ?P \<or> gm_get (ag_prev a) (ID at) \<noteq> Some (lh_Ready ?r)"
        by auto
      have "?P" if "gm_get (sg_prev ?g) (ID at) = Some (lh_Ready ?r)" "gm_get (ag_prev a) (ID at) \<noteq> Some (lh_Ready ?r)"
        using old that by metis
      moreover have "?P" if "gm_get (sg_prev ?g) (ID at) \<noteq> Some (lh_Ready ?r)" "gm_get (ag_prev a) (ID at) = Some (lh_Ready ?r)"
        using old that by metis
      ultimately show ?thesis
        unfolding step True new by (cases "gm_get (sg_prev ?g) (ID at) = Some (lh_Ready ?r)") (simp_all only: ih gm_get_put if_True if_False simp_thms refl, metis+)
    qed
  qed
qed

text \<open>
  Where the knowledge of a sweep comes from: after \<open>n\<close> turns over the attachments \<open>A\<close>, each namespace,
  each interface and each network setting was read during one of those turns, and each observation
  and each probe target is made of them.
\<close>

definition handle_read :: "Agent \<Rightarrow> (nat \<Rightarrow> turn_env) \<Rightarrow> nat \<Rightarrow> string \<Rightarrow> Handle \<Rightarrow> bool" where
  "handle_read a te n uid h \<longleftrightarrow>
     (\<exists>i<n. te_runtime (te i) uid = Inr h \<or> (gm_get (ag_Resolver a) uid = Some h \<and> te_exists (te i) (hd_Path h)))"

definition link_read :: "(nat \<Rightarrow> turn_env) \<Rightarrow> nat \<Rightarrow> sweeping \<Rightarrow> string \<Rightarrow> string \<Rightarrow> Link \<Rightarrow> bool" where
  "link_read te n g uid iface l \<longleftrightarrow>
     (\<exists>i<n. \<exists>h. gm_get (sg_handles g) uid = Some h \<and> Inspect (te_netlink (te i)) (hd_Path h) iface = Inr l)"

definition spec_made :: "Agent \<Rightarrow> Attachment set \<Rightarrow> sweeping \<Rightarrow> Spec \<Rightarrow> bool" where
  "spec_made a A g s \<longleftrightarrow> (\<exists>at l h cfg. at \<in> A \<and> gm_get (sg_inspected g) (att_PodUID at, att_Interface at) = Some l \<and> ln_Exists l \<and>
     gm_get (sg_handles g) (att_PodUID at) = Some h \<and> gm_get (sg_probeCfg g) (att_NAD at) = Some cfg \<and> Configured cfg \<and>
     s = probe_spec a at h cfg)"

definition grounded :: "Agent \<Rightarrow> int \<Rightarrow> (nat \<Rightarrow> turn_env) \<Rightarrow> nat \<Rightarrow> Attachment set \<Rightarrow> sweeping \<Rightarrow> bool" where
  "grounded a now te n A g \<longleftrightarrow>
     (\<forall>uid h. gm_get (sg_handles g) uid = Some h \<longrightarrow> handle_read a te n uid h) \<and>
     (\<forall>uid. gm_get (sg_handles g) uid = None \<longrightarrow> gm_get (sg_cache g) uid = None \<or> gm_get (sg_cache g) uid = gm_get (ag_Resolver a) uid) \<and>
     (\<forall>uid iface l. gm_get (sg_inspected g) (uid, iface) = Some l \<longrightarrow> link_read te n g uid iface l) \<and>
     (\<forall>r \<in> set (sg_locals g). \<exists>at \<in> A. \<exists>l. gm_get (sg_inspected g) (att_PodUID at, att_Interface at) = Some l \<and> r = observation a now at l) \<and>
     (\<forall>nad cfg. gm_get (sg_probeCfg g) nad = Some cfg \<longrightarrow> (\<exists>i<n. cfg = probeConfig (te_NAD (te i)) nad)) \<and>
     (\<forall>s \<in> set (sg_specs g). ag_PathMode a = PathICMP \<and> spec_made a A g s)"

text \<open>A state that knows at least as much keeps what was made from the smaller one.\<close>

definition knows_more :: "sweeping \<Rightarrow> sweeping \<Rightarrow> bool" where
  "knows_more g g' \<longleftrightarrow> (\<forall>u h. gm_get (sg_handles g) u = Some h \<longrightarrow> gm_get (sg_handles g') u = Some h) \<and>
     (\<forall>k l. gm_get (sg_inspected g) k = Some l \<longrightarrow> gm_get (sg_inspected g') k = Some l) \<and>
     (\<forall>n c. gm_get (sg_probeCfg g) n = Some c \<longrightarrow> gm_get (sg_probeCfg g') n = Some c)"

lemma knows_more_refl [simp]: "knows_more g g"
  by (simp add: knows_more_def)

lemma knows_moreD:
  assumes "knows_more g g'"
  shows "handle_read a te n u h \<Longrightarrow> handle_read a te (Suc n) u h"
    and "link_read te n g u f l \<Longrightarrow> link_read te (Suc n) g' u f l"
    and "spec_made a A g s \<Longrightarrow> spec_made a (insert at A) g' s"
  subgoal by (auto simp: handle_read_def intro: less_SucI)
  subgoal using assms by (auto simp: link_read_def knows_more_def intro: less_SucI)
  subgoal using assms unfolding spec_made_def knows_more_def by blast
  done

lemma knows_more_trans: "knows_more g g' \<Longrightarrow> knows_more g' g'' \<Longrightarrow> knows_more g g''"
  by (simp add: knows_more_def)

lemma grounded_step:
  assumes g: "grounded a now te n A g" and more: "knows_more g g'"
    and H: "\<And>u h. gm_get (sg_handles g') u = Some h \<Longrightarrow> gm_get (sg_handles g) u = Some h \<or> handle_read a te (Suc n) u h"
    and K: "\<And>u. gm_get (sg_handles g') u = None \<Longrightarrow> gm_get (sg_cache g') u = None \<or> gm_get (sg_cache g') u = gm_get (sg_cache g) u"
    and I: "\<And>u f l. gm_get (sg_inspected g') (u, f) = Some l \<Longrightarrow> gm_get (sg_inspected g) (u, f) = Some l \<or> link_read te (Suc n) g' u f l"
    and C: "\<And>nad c. gm_get (sg_probeCfg g') nad = Some c \<Longrightarrow> gm_get (sg_probeCfg g) nad = Some c \<or> c = probeConfig (te_NAD (te n)) nad"
    and L: "\<And>r. r \<in> set (sg_locals g') \<Longrightarrow> r \<in> set (sg_locals g) \<or>
      (\<exists>l. gm_get (sg_inspected g') (att_PodUID at, att_Interface at) = Some l \<and> r = observation a now at l)"
    and S: "\<And>s. s \<in> set (sg_specs g') \<Longrightarrow> s \<in> set (sg_specs g) \<or> (ag_PathMode a = PathICMP \<and> spec_made a {at} g' s)"
  shows "grounded a now te (Suc n) (insert at A) g'"
  unfolding grounded_def
proof (intro conjI allI ballI impI)
  note old = g [unfolded grounded_def] and mores = knows_moreD [OF more]
  show "handle_read a te (Suc n) u h" if "gm_get (sg_handles g') u = Some h" for u h
    using H [OF that] old mores(1) by blast
  show "gm_get (sg_cache g') u = None \<or> gm_get (sg_cache g') u = gm_get (ag_Resolver a) u" if u: "gm_get (sg_handles g') u = None" for u
  proof -
    have "gm_get (sg_handles g) u = None" using u more unfolding knows_more_def by (cases "gm_get (sg_handles g) u") auto
    then have "gm_get (sg_cache g) u = None \<or> gm_get (sg_cache g) u = gm_get (ag_Resolver a) u" using old by blast
    then show ?thesis using K [OF u] by auto
  qed
  show "link_read te (Suc n) g' u f l" if "gm_get (sg_inspected g') (u, f) = Some l" for u f l
    using I [OF that] old mores(2) by blast
  show "\<exists>i<Suc n. c = probeConfig (te_NAD (te i)) nad" if "gm_get (sg_probeCfg g') nad = Some c" for nad c
    using C [OF that] old less_SucI lessI [of n] by metis
  show "\<exists>at'\<in>insert at A. \<exists>l. gm_get (sg_inspected g') (att_PodUID at', att_Interface at') = Some l \<and> r = observation a now at' l"
    if "r \<in> set (sg_locals g')" for r
    using L [OF that]
  proof
    assume "r \<in> set (sg_locals g)"
    then obtain at' l where "at' \<in> A" "gm_get (sg_inspected g) (att_PodUID at', att_Interface at') = Some l" "r = observation a now at' l"
      using old by blast
    then show ?thesis using more unfolding knows_more_def by (intro bexI [of _ at'] exI [of _ l]) simp_all
  qed blast
  show "ag_PathMode a = PathICMP" if "s \<in> set (sg_specs g')" for s
    using S [OF that] old by blast
  show "spec_made a (insert at A) g' s" if "s \<in> set (sg_specs g')" for s
    using S [OF that]
  proof
    assume "s \<in> set (sg_specs g)" then show ?thesis using old mores(3) by blast
  next
    assume "ag_PathMode a = PathICMP \<and> spec_made a {at} g' s"
    then show ?thesis unfolding spec_made_def by blast
  qed
qed

lemma resolve_more: "resolve_turn te uid g = (g1, oh) \<Longrightarrow> knows_more g g1"
  using resolve_turn_handles [of te uid g g1 oh] resolve_turn_rest [of te uid g g1 oh] by (auto simp: knows_more_def)

lemma inspect_more:
  assumes "inspect_turn te h uid iface g = (g1, ol)" shows "knows_more g g1"
  using assms by (auto simp: inspect_turn_def knows_more_def split: option.splits sum.splits)

lemma probe_turn_cfg:
  "gm_get (sg_probeCfg (probe_turn a te at h l g)) nad = Some c \<Longrightarrow>
     gm_get (sg_probeCfg g) nad = Some c \<or> c = probeConfig (te_NAD te) nad"
  by (auto simp: probe_turn_def Let_def split: if_splits option.splits)

lemma probe_turn_specs:
  assumes "s \<in> set (sg_specs (probe_turn a te at h l g))"
  shows "s \<in> set (sg_specs g) \<or> (ag_PathMode a = PathICMP \<and> ln_Exists l \<and>
    (\<exists>cfg. gm_get (sg_probeCfg (probe_turn a te at h l g)) (att_NAD at) = Some cfg \<and> Configured cfg \<and> s = probe_spec a at h cfg))"
  using assms by (auto simp: probe_turn_def Let_def split: if_splits option.splits)

lemma observe_more: "knows_more g (observe_turn a now te at h l g)"
  by (auto simp: knows_more_def observe_turn_fields probe_turn_def Let_def)

lemma sweep_turn_grounded:
  assumes g: "grounded a now te n A g"
  shows "grounded a now te (Suc n) (insert at A) (sweep_turn a now (te n) at g)"
proof -
  let ?u = "att_PodUID at" and ?f = "att_Interface at"
  obtain g1 oh where 1: "resolve_turn (te n) ?u g = (g1, oh)" by fastforce
  have H1: "gm_get (sg_handles g) u = Some h \<or> handle_read a te (Suc n) u h" if u: "gm_get (sg_handles g1) u = Some h" for u h
  proof (cases "gm_get (sg_handles g) u = Some h")
    case False
    then have new: "gm_get (sg_handles g) u = None"
      and "te_runtime (te n) u = Inr h \<or> gm_get (sg_cache g) u = Some h \<and> te_exists (te n) (hd_Path h)"
      using u resolve_turn_handles [OF 1] by (auto split: if_splits)
    moreover have "gm_get (sg_cache g) u = None \<or> gm_get (sg_cache g) u = gm_get (ag_Resolver a) u"
      using g new unfolding grounded_def by blast
    ultimately show ?thesis unfolding handle_read_def by (intro disjI2 exI [of _ n]) auto
  qed simp
  have K1: "gm_get (sg_cache g1) u = None \<or> gm_get (sg_cache g1) u = gm_get (sg_cache g) u"
    if "gm_get (sg_handles g1) u = None" for u
    using that resolve_turn_handles [OF 1] resolve_turn_cache [OF 1, of u] by (cases "u = ?u") auto
  note rest1 = resolve_turn_rest [OF 1]
  show ?thesis
  proof (cases oh)
    case None
    then have e: "sweep_turn a now (te n) at g = g1" by (simp add: sweep_turn_def 1)
    show ?thesis unfolding e
      by (rule grounded_step [OF g resolve_more [OF 1]]) (simp_all add: rest1 H1 K1)
  next
    case (Some h)
    then have h: "gm_get (sg_handles g1) ?u = Some h" using resolve_turn_handles [OF 1] by auto
    obtain g2 ol where 2: "inspect_turn (te n) h ?u ?f g1 = (g2, ol)" by fastforce
    note rest2 = inspect_turn_rest [OF 2]
    have I2: "gm_get (sg_inspected g2) (u, f) = Some l \<Longrightarrow> gm_get (sg_inspected g) (u, f) = Some l \<or> link_read te (Suc n) g2 u f l" for u f l
      using inspect_turn_links [OF 2] h unfolding link_read_def rest1 rest2 by (auto split: if_splits)
    have more: "knows_more g g2" using knows_more_trans resolve_more [OF 1] inspect_more [OF 2] by blast
    show ?thesis
    proof (cases ol)
      case None
      then have e: "sweep_turn a now (te n) at g = g2" by (simp add: sweep_turn_def 1 2 Some)
      show ?thesis unfolding e
        by (rule grounded_step [OF g more]) (simp_all add: rest1 rest2 H1 I2 K1)
    next
      case l: (Some l)
      then have ins: "gm_get (sg_inspected g2) (?u, ?f) = Some l" using inspect_turn_links [OF 2] by auto
      let ?g = "observe_turn a now (te n) at h l g2"
      have e: "sweep_turn a now (te n) at g = ?g" by (simp add: sweep_turn_def 1 2 Some l)
      note fields = observe_turn_fields [of a now "te n" at h l g2]
      show ?thesis unfolding e
      proof (rule grounded_step [OF g])
        show "knows_more g ?g" using knows_more_trans [OF more observe_more] .
        show "gm_get (sg_handles g) u = Some h' \<or> handle_read a te (Suc n) u h'" if "gm_get (sg_handles ?g) u = Some h'" for u h'
          using that H1 by (simp add: fields rest2)
        show "gm_get (sg_cache ?g) u = None \<or> gm_get (sg_cache ?g) u = gm_get (sg_cache g) u" if "gm_get (sg_handles ?g) u = None" for u
          using that K1 by (simp add: fields rest2)
        show "gm_get (sg_inspected g) (u, f) = Some k \<or> link_read te (Suc n) ?g u f k" if "gm_get (sg_inspected ?g) (u, f) = Some k" for u f k
          using that I2 by (simp add: fields link_read_def)
        show "gm_get (sg_probeCfg g) nad = Some c \<or> c = probeConfig (te_NAD (te n)) nad" if "gm_get (sg_probeCfg ?g) nad = Some c" for nad c
          using probe_turn_cfg that unfolding fields rest1(7) [symmetric] rest2(8) [symmetric] .
        show "r \<in> set (sg_locals g) \<or> (\<exists>k. gm_get (sg_inspected ?g) (?u, ?f) = Some k \<and> r = observation a now at k)"
          if "r \<in> set (sg_locals ?g)" for r
          using that ins by (auto simp: fields rest1 rest2)
        show "s \<in> set (sg_specs g) \<or> (ag_PathMode a = PathICMP \<and> spec_made a {at} ?g s)" if "s \<in> set (sg_specs ?g)" for s
          using probe_turn_specs [OF that [unfolded fields]] ins h
          by (auto simp: fields spec_made_def rest1 rest2)
      qed
    qed
  qed
qed

lemma sweep_loop_grounded: "grounded a now te (length atts) (set atts) (sweep_loop a now te atts)"
proof (induction atts rule: rev_induct)
  case Nil
  then show ?case by (simp add: grounded_def sweep_loop_def sweep_start_def)
next
  case (snoc at atts)
  then show ?case using sweep_turn_grounded [OF snoc, of at] by (simp add: sweep_loop_snoc)
qed

end
