(* ===== verification/Agent_Report.thy ===== *)
theory Agent_Report
  imports Agent_Sweep
begin

text \<open>
  What a sweep reports: the observations, the attachments it covers, the memory it keeps of the last
  report and the deltas computed from it, and the probe verdicts it carries.
\<close>

section \<open>The snapshot of a sweep\<close>

lemma forget_pod_rest [simp]:
  "sg_locals (forget_pod u g) = sg_locals g" "sg_specs (forget_pod u g) = sg_specs g" "sg_changed (forget_pod u g) = sg_changed g"
  "sg_prev (forget_pod u g) = sg_prev g" "sg_handles (forget_pod u g) = sg_handles g" "sg_events (forget_pod u g) = sg_events g"
  by (simp_all add: forget_pod_def)

lemma forget_pods_rest [simp]:
  "sg_locals (fold forget_pod us g) = sg_locals g" "sg_specs (fold forget_pod us g) = sg_specs g"
  "sg_changed (fold forget_pod us g) = sg_changed g" "sg_prev (fold forget_pod us g) = sg_prev g"
  "sg_handles (fold forget_pod us g) = sg_handles g"
  by (induction us arbitrary: g) simp_all

lemma retire_fields:
  assumes "retire order g = (g', gone)"
  shows "gone = retired_ids order g" "sg_locals g' = sg_locals g" "sg_specs g' = sg_specs g" "sg_changed g' = sg_changed g"
    "sg_prev g' = fold gm_del gone (sg_prev g)"
  using assms by (auto simp: retire_def Let_def)

lemma sweep_snapshot_Some:
  assumes "sweep_snapshot L e a = Some (a', snap, evs)"
  obtains atts g gone probes changed where "targets L (se_Services e) (se_Pods e) = Inr atts"
    "g = sweep_loop a (se_now e) (se_turn e) atts" "gone = retired_ids (se_order e) g"
    "sn_Locals snap = sg_locals g" "sn_Retired snap = gone" "ag_prev a' = fold gm_del gone (sg_prev g)"
    "sn_Changed snap = changed" "path_phase e a g = (probes, sn_Paths snap, changed)" "ag_Probes a' = probes" "ag_Sink a' = ag_Sink a"
    "ag_PathMode a' = ag_PathMode a"
proof -
  from assms obtain atts where atts: "targets L (se_Services e) (se_Pods e) = Inr atts"
    by (auto simp: sweep_snapshot_def split: sum.splits)
  obtain g' gone where r: "retire (se_order e) (sweep_loop a (se_now e) (se_turn e) atts) = (g', gone)" by fastforce
  obtain probes paths changed where p: "path_phase e a g' = (probes, paths, changed)" by (cases "path_phase e a g'")
  note f = retire_fields [OF r]
  have "path_phase e a (sweep_loop a (se_now e) (se_turn e) atts) = (probes, paths, changed)"
    using p unfolding path_phase_def f(2-4) .
  then show thesis
    using assms atts r p by (intro that [OF atts refl f(1)]) (auto simp: sweep_snapshot_def f)
qed

lemma sweep_snapshot_total: "targets L (se_Services e) (se_Pods e) = Inr atts \<Longrightarrow> \<exists>x. sweep_snapshot L e a = Some x"
  by (simp add: sweep_snapshot_def split: prod.split)

text \<open>The ids the path phase adds to the changed ones.\<close>

lemma path_phase_changed:
  assumes "path_phase e a g = (probes, paths, changed)"
  shows "gm_get (sg_changed g) k = Some True \<Longrightarrow> gm_get changed k = Some True"
  using assms unfolding path_phase_def
  by (auto simp: gm_get_all_true split: if_splits option.splits prod.splits)

section \<open>An example\<close>

text \<open>One node with one Pod, whose interface is up and carries its address; the network is not probed.\<close>

definition example_up :: netlink where
  "example_up = \<lparr>nl_Open = (\<lambda>_. None), nl_Handle = (\<lambda>_. None),
     nl_Link = (\<lambda>_ _. Inr \<lparr>la_Flags = 0x1003, la_FlagsString = ''up'', la_OperDown = False, la_OperString = ''up''\<rparr>),
     nl_Addrs = (\<lambda>_ _. Inr [Some [0,0,0,0,0,0,0,0,0,0,255,255,10,0,0,1]])\<rparr>"

definition example_handle :: Handle where
  "example_handle = \<lparr>hd_PodUID = ''p1'', hd_SandboxID = ''sb'', hd_Path = ''/proc/42/ns/net'', hd_PID = 42\<rparr>"

definition example_turn :: turn_env where
  "example_turn = \<lparr>te_exists = (\<lambda>_. True), te_runtime = (\<lambda>_. Inr example_handle), te_subscribe = calls_ok,
     te_netlink = example_up, te_NAD = (\<lambda>_ _. Inl (ErrApi ''down''))\<rparr>"

definition example_sweep_env :: "Service list \<Rightarrow> sweep_env" where
  "example_sweep_env svcs = \<lparr>se_Services = Inr svcs, se_Pods = Inr [example_web_pod], se_now = 7, se_turn = (\<lambda>_. example_turn),
     se_order = (\<lambda>l. l), se_mid = id, se_states_now = 8, se_late = id, se_publish = (\<lambda>snap s. (s, [], [], None))\<rparr>"

definition example_agent :: "string \<Rightarrow> Agent" where
  "example_agent mode = \<lparr>ag_NodeName = ''n1'', ag_Resolver = [(''old'', example_handle)], ag_Monitor = NewMonitor 256, ag_Sink = None,
     ag_PathMode = mode, ag_Probes = Some (NewManager 1 3 1 ''n1''), ag_ProbeTimeout = 400, ag_prev = [(''gone'', True)]\<rparr>"

abbreviation example_target :: Attachment where
  "example_target \<equiv> example_att ''p1'' ''10.0.0.1''"

lemma example_targets: "targets example_labels (Inr [example_net_svc]) (Inr [example_web_pod]) = Inr [example_target]"
proof -
  have "pod_targets example_labels example_net_svc ''ns/net'' ''web'' example_web_pod = [example_target]"
    using example_found
    by (simp add: pod_targets_def Eligible_def example_labels_def) (simp add: example_web_pod_def example_net_svc_def example_svc_def gm_str_def gm_get_def)
  then have "svc_targets example_labels [example_web_pod] example_net_svc = [example_target]"
    using example_publishable by (simp add: svc_targets_def publishable_def)
  then show ?thesis by (simp add: targets_def)
qed

lemma example_env_targets:
  "targets example_labels (se_Services (example_sweep_env [example_net_svc])) (se_Pods (example_sweep_env [example_net_svc])) = Inr [example_target]"
  by (simp add: example_sweep_env_def example_targets)

lemma example_ip: "ip_string [0,0,0,0,0,0,0,0,0,0,255,255,10,0,0,1] = ''10.0.0.1''"
  by code_simp

lemma example_link: "\<exists>l. Inspect example_up p i = Inr l \<and> ln_Exists l \<and> ln_Usable l \<and> Has l ''10.0.0.1''"
proof -
  have "Inspect example_up p i = Inr \<lparr>ln_Exists = True, ln_Usable = True, ln_Flags = ''up'', ln_Oper = ''up'', ln_Addrs = [(''10.0.0.1'', True)]\<rparr>"
    by (simp add: Inspect_def example_up_def Let_def List.map_filter_simps example_ip gm_put_def del: One_nat_def)
  then show ?thesis by (simp add: Has_def gm_get_def)
qed

lemma example_observed:
  obtains a' snap evs l where
    "sweep_snapshot example_labels (example_sweep_env [example_net_svc]) (example_agent PathNone) = Some (a', snap, evs)"
    "sn_Locals snap = [observation (example_agent PathNone) 7 example_target l]" "ln_Exists l" "ln_Usable l" "Has l ''10.0.0.1''"
proof -
  obtain l where l: "Inspect example_up (hd_Path example_handle) (att_Interface example_target) = Inr l" "ln_Exists l" "ln_Usable l" "Has l ''10.0.0.1''"
    using example_link by blast
  have loop: "sg_locals (sweep_loop (example_agent PathNone) 7 (\<lambda>_. example_turn) [example_target]) =
      [observation (example_agent PathNone) 7 example_target l]"
    using l(1)
    by (simp add: sweep_loop_def sweep_turn_def resolve_turn_def inspect_turn_def sweep_start_def Cache_Resolve_def observe_turn_fields
      example_turn_def example_agent_def example_att_def gm_get_def)
  obtain x where x: "sweep_snapshot example_labels (example_sweep_env [example_net_svc]) (example_agent PathNone) = Some x"
    using sweep_snapshot_total [OF example_env_targets] by blast
  obtain a' snap evs where e: "x = (a', snap, evs)" by (cases x)
  from x e have "sn_Locals snap = [observation (example_agent PathNone) 7 example_target l]"
    using sweep_snapshot_Some loop by (force simp: example_sweep_env_def example_targets)
  then show thesis using x e l that by blast
qed

section \<open>Properties\<close>

text \<open>
  C7. The agents cover exactly what the controller publishes. Let the Pods of the cluster be
  \<open>pods\<close>, and let the agent of a node see those of its node. What its sweep looks at is, attachment
  for attachment, what the controller discovers for its publishable Services on that node.
\<close>

theorem agent_covers_the_controller:
  "\<exists>atts. targets L (Inr svcs) (Inr (filter (\<lambda>p. pod_NodeName p = n) pods)) = Inr atts \<and>
     (\<forall>a. a \<in> set atts \<longleftrightarrow> att_NodeName a = n \<and> (\<exists>svc nad sel. svc \<in> set svcs \<and> publishable L svc nad sel \<and>
        a \<in> set (discovered svc nad (filter (\<lambda>p. pod_Namespace p = svc_Namespace svc \<and> lbl_Matches L sel (pod_Labels p)) pods))))"
proof -
  have pod: "a \<in> set (pod_targets L svc nad sel p) \<longleftrightarrow> pod_Namespace p = svc_Namespace svc \<and> lbl_Matches L sel (pod_Labels p) \<and>
      Eligible p \<and> (\<exists>l. FromPod p nad = Inr l \<and> a \<in> set l)" for a svc nad sel p
    by (cases "FromPod p nad") (auto simp: pod_targets_def)
  have svc: "a \<in> set (svc_targets L ps svc) \<longleftrightarrow>
      (\<exists>nad sel p. publishable L svc nad sel \<and> p \<in> set ps \<and> a \<in> set (pod_targets L svc nad sel p))" for a ps svc
    by (cases "NAD_of svc"; cases "Selector_of L svc") (auto simp: svc_targets_def publishable_def)
  have node: "FromPod p nad = Inr l \<Longrightarrow> a \<in> set l \<Longrightarrow> att_NodeName a = pod_NodeName p" for p nad l a
    by (erule FromPod_ok)
  have "a \<in> set (concat (map (svc_targets L (filter (\<lambda>p. pod_NodeName p = n) pods)) svcs)) \<longleftrightarrow>
      att_NodeName a = n \<and> (\<exists>svc nad sel. svc \<in> set svcs \<and> publishable L svc nad sel \<and>
        a \<in> set (discovered svc nad (filter (\<lambda>p. pod_Namespace p = svc_Namespace svc \<and> lbl_Matches L sel (pod_Labels p)) pods)))" for a
    unfolding discovered_iff using node by (auto simp: svc pod) blast+
  then show ?thesis by (simp add: targets_def)
qed

text \<open>
  C19. A sweep reports only what it saw. Each local report is about an attachment of the node's Services;
  its fields copy the attachment, and its three flags are those of the attachment's interface as read,
  during this sweep, in the Pod's namespace. That namespace is the one the runtime gave during the sweep,
  or the one remembered in the cache from before, if its path still exists. In ICMP mode the probe
  manager is given one list of targets: each is for an attachment of the node's Services whose interface,
  read in the same way, exists, and whose network declares a health target; it is probed from that
  namespace, from the attachment's address, through its interface or the one the network names, to that
  target. The path states of the snapshot are those the manager then has.
\<close>

theorem sweep_reports_observations:
  assumes "sweep_snapshot L e a = Some (a', snap, evs)"
  shows "\<exists>atts specs. targets L (se_Services e) (se_Pods e) = Inr atts \<and>
    (let resolved = (\<lambda>uid h. \<exists>j < length atts. te_runtime (se_turn e j) uid = Inr h \<or>
           gm_get (ag_Resolver a) uid = Some h \<and> te_exists (se_turn e j) (hd_Path h));
         seen = (\<lambda>at h l. resolved (att_PodUID at) h \<and>
           (\<exists>i < length atts. Inspect (te_netlink (se_turn e i)) (hd_Path h) (att_Interface at) = Inr l)) in
     (\<forall>r \<in> set (sn_Locals snap). \<exists>at \<in> set atts. \<exists>h l. seen at h l \<and>
        r = \<lparr>lh_AttachmentID = ID at, lh_PodUID = att_PodUID at, lh_Namespace = att_PodNamespace at,
              lh_PodName = att_PodName at, lh_NAD = att_NAD at, lh_Interface = att_Interface at, lh_IP = att_IP at,
              lh_NodeName = ag_NodeName a, lh_InterfaceExists = ln_Exists l, lh_AddressPresent = Has l (att_IP at),
              lh_LinkUsable = (ln_Exists l \<and> ln_Usable l), lh_ObservedAt = se_now e\<rparr>) \<and>
     (\<forall>s \<in> set specs. \<exists>at \<in> set atts. \<exists>h l. \<exists>k < length atts. seen at h l \<and> ln_Exists l \<and>
        (let cfg = probeConfig (te_NAD (se_turn e k)) (att_NAD at) in pc_Target cfg \<noteq> [] \<and>
        s = \<lparr>ps_ScopeKey = ID at, ps_Scope = ScopeEndpoint, ps_NAD = att_NAD at, ps_AttachmentID = ID at, ps_PodName = att_PodName at,
              ps_NetnsPath = hd_Path h,
              ps_Interface = (if pc_SourceInterface cfg \<noteq> [] then pc_SourceInterface cfg else att_Interface at),
              ps_SourceIP = att_IP at, ps_Target = pc_Target cfg, ps_Timeout = ag_ProbeTimeout a\<rparr>))) \<and>
    (\<forall>m. ag_PathMode a = PathICMP \<and> ag_Probes a = Some m \<longrightarrow>
       sn_Paths snap = States (se_states_now e) (se_mid e (SetTargets specs m)) \<and>
       ag_Probes a' = Some (fst (TakeChanged (se_late e (se_mid e (SetTargets specs m))))))"
proof -
  from assms obtain atts g probes changed where t: "targets L (se_Services e) (se_Pods e) = Inr atts"
    and g: "g = sweep_loop a (se_now e) (se_turn e) atts" and l: "sn_Locals snap = sg_locals g"
    and p: "path_phase e a g = (probes, sn_Paths snap, changed)" "ag_Probes a' = probes"
    by (rule sweep_snapshot_Some)
  note ok = sweep_loop_grounded [of a "se_now e" "se_turn e" atts, folded g, unfolded grounded_def]
  have read: "(\<exists>j < length atts. te_runtime (se_turn e j) (att_PodUID at) = Inr h \<or>
        gm_get (ag_Resolver a) (att_PodUID at) = Some h \<and> te_exists (se_turn e j) (hd_Path h)) \<and>
      (\<exists>i < length atts. Inspect (te_netlink (se_turn e i)) (hd_Path h) (att_Interface at) = Inr k)"
    if k: "gm_get (sg_inspected g) (att_PodUID at, att_Interface at) = Some k" and h: "gm_get (sg_handles g) (att_PodUID at) = Some h" for at k h
  proof -
    from k ok have "link_read (se_turn e) (length atts) g (att_PodUID at) (att_Interface at) k" by blast
    moreover from h ok have "handle_read a (se_turn e) (length atts) (att_PodUID at) h" by blast
    ultimately show ?thesis using h by (auto simp: link_read_def handle_read_def)
  qed
  have locals: "\<exists>at \<in> set atts. \<exists>h k. gm_get (sg_inspected g) (att_PodUID at, att_Interface at) = Some k \<and>
      gm_get (sg_handles g) (att_PodUID at) = Some h \<and> r = observation a (se_now e) at k" if "r \<in> set (sn_Locals snap)" for r
  proof -
    from that ok l obtain at k where at: "at \<in> set atts" and k: "gm_get (sg_inspected g) (att_PodUID at, att_Interface at) = Some k"
      and r: "r = observation a (se_now e) at k"
      by fastforce
    from k ok have "link_read (se_turn e) (length atts) g (att_PodUID at) (att_Interface at) k" by blast
    then show ?thesis using at k r unfolding link_read_def by blast
  qed
  have made: "\<exists>at \<in> set atts. \<exists>h k. \<exists>i < length atts. gm_get (sg_inspected g) (att_PodUID at, att_Interface at) = Some k \<and>
      gm_get (sg_handles g) (att_PodUID at) = Some h \<and> ln_Exists k \<and> Configured (probeConfig (te_NAD (se_turn e i)) (att_NAD at)) \<and>
      s = probe_spec a at h (probeConfig (te_NAD (se_turn e i)) (att_NAD at))" if "s \<in> set (sg_specs g)" for s
  proof -
    from that ok have "spec_made a (set atts) g s" by blast
    then obtain at k h cfg where at: "at \<in> set atts" "gm_get (sg_inspected g) (att_PodUID at, att_Interface at) = Some k" "ln_Exists k"
        "gm_get (sg_handles g) (att_PodUID at) = Some h" and cfg: "gm_get (sg_probeCfg g) (att_NAD at) = Some cfg" "Configured cfg"
      and s: "s = probe_spec a at h cfg"
      unfolding spec_made_def by blast
    from cfg(1) ok obtain i where "i < length atts" "cfg = probeConfig (te_NAD (se_turn e i)) (att_NAD at)" by blast
    then show ?thesis using at cfg(2) s by blast
  qed
  have manager: "sn_Paths snap = States (se_states_now e) (se_mid e (SetTargets (sg_specs g) m)) \<and>
       ag_Probes a' = Some (fst (TakeChanged (se_late e (se_mid e (SetTargets (sg_specs g) m)))))"
    if "ag_PathMode a = PathICMP" "ag_Probes a = Some m" for m
    using p that by (auto simp: path_phase_def probe_phase_def Let_def PathAssumeReady_def PathICMP_def split: prod.splits)
  show ?thesis
    unfolding Let_def
  proof (intro exI conjI allI ballI impI, rule t)
    fix r assume "r \<in> set (sn_Locals snap)"
    from locals [OF this] read show "\<exists>at \<in> set atts. \<exists>h l. ((\<exists>j < length atts. te_runtime (se_turn e j) (att_PodUID at) = Inr h \<or>
           gm_get (ag_Resolver a) (att_PodUID at) = Some h \<and> te_exists (se_turn e j) (hd_Path h)) \<and>
           (\<exists>i < length atts. Inspect (te_netlink (se_turn e i)) (hd_Path h) (att_Interface at) = Inr l)) \<and>
        r = \<lparr>lh_AttachmentID = ID at, lh_PodUID = att_PodUID at, lh_Namespace = att_PodNamespace at,
              lh_PodName = att_PodName at, lh_NAD = att_NAD at, lh_Interface = att_Interface at, lh_IP = att_IP at,
              lh_NodeName = ag_NodeName a, lh_InterfaceExists = ln_Exists l, lh_AddressPresent = Has l (att_IP at),
              lh_LinkUsable = (ln_Exists l \<and> ln_Usable l), lh_ObservedAt = se_now e\<rparr>"
      unfolding observation_def by blast
  next
    fix s assume "s \<in> set (sg_specs g)"
    from made [OF this] read show "\<exists>at \<in> set atts. \<exists>h l. \<exists>k < length atts. ((\<exists>j < length atts. te_runtime (se_turn e j) (att_PodUID at) = Inr h \<or>
           gm_get (ag_Resolver a) (att_PodUID at) = Some h \<and> te_exists (se_turn e j) (hd_Path h)) \<and>
           (\<exists>i < length atts. Inspect (te_netlink (se_turn e i)) (hd_Path h) (att_Interface at) = Inr l)) \<and> ln_Exists l \<and>
        pc_Target (probeConfig (te_NAD (se_turn e k)) (att_NAD at)) \<noteq> [] \<and>
        s = \<lparr>ps_ScopeKey = ID at, ps_Scope = ScopeEndpoint, ps_NAD = att_NAD at, ps_AttachmentID = ID at, ps_PodName = att_PodName at,
              ps_NetnsPath = hd_Path h,
              ps_Interface = (if pc_SourceInterface (probeConfig (te_NAD (se_turn e k)) (att_NAD at)) \<noteq> []
                then pc_SourceInterface (probeConfig (te_NAD (se_turn e k)) (att_NAD at)) else att_Interface at),
              ps_SourceIP = att_IP at, ps_Target = pc_Target (probeConfig (te_NAD (se_turn e k)) (att_NAD at)), ps_Timeout = ag_ProbeTimeout a\<rparr>"
      unfolding probe_spec_def Configured_def by blast
  next
    fix m assume "ag_PathMode a = PathICMP \<and> ag_Probes a = Some m"
    with manager [of m] show "sn_Paths snap = States (se_states_now e) (se_mid e (SetTargets (sg_specs g) m))"
      "ag_Probes a' = Some (fst (TakeChanged (se_late e (se_mid e (SetTargets (sg_specs g) m)))))" by simp_all
  qed
qed

text \<open>The same node, its network now declaring a health target, and a sweep in ICMP mode.\<close>

definition example_probed_env :: sweep_env where
  "example_probed_env = (example_sweep_env [example_net_svc])\<lparr>se_turn := (\<lambda>_. example_turn\<lparr>te_NAD := \<lambda>_ _.
     Inr \<lparr>nad_Namespace = ''ns'', nad_Name = ''net'', nad_Annotations = [(NADHealthTarget, ''10.0.0.254'')]\<rparr>\<rparr>)\<rparr>"

lemma sweep_reports_observations_witness:
  "\<exists>a' snap evs m. sweep_snapshot example_labels example_probed_env (example_agent PathICMP) = Some (a', snap, evs) \<and>
     (\<exists>r. sn_Locals snap = [r] \<and> lh_AttachmentID r = ID example_target \<and> lh_NodeName r = ''n1'' \<and> lh_IP r = ''10.0.0.1'') \<and>
     ag_Probes a' = Some m \<and> map ps_Target (map snd (mg_targets m)) = [''10.0.0.254''] \<and>
     map ps_NetnsPath (map snd (mg_targets m)) = [''/proc/42/ns/net'']"
proof -
  let ?e = example_probed_env and ?a = "example_agent PathICMP"
  obtain l where l: "Inspect example_up (hd_Path example_handle) (att_Interface example_target) = Inr l" "ln_Exists l"
    using example_link by blast
  have cfg: "probeConfig (\<lambda>_ _. Inr \<lparr>nad_Namespace = ''ns'', nad_Name = ''net'', nad_Annotations = [(NADHealthTarget, ''10.0.0.254'')]\<rparr>) ''ns/net''
      = \<lparr>pc_Scope = ScopeEndpoint, pc_Target = ''10.0.0.254'', pc_SourceInterface = []\<rparr>" by code_simp
  have ts: "targets example_labels (se_Services ?e) (se_Pods ?e) = Inr [example_target]"
    using example_env_targets by (simp add: example_probed_env_def)
  have turn: "te_netlink (se_turn ?e i) = example_up" "te_runtime (se_turn ?e i) u = Inr example_handle" for i u
    by (simp_all add: example_probed_env_def example_turn_def)
  have none: "gm_get (ag_Resolver ?a) ''p1'' = None" by (simp add: example_agent_def gm_get_def)
  obtain a' snap evs where s: "sweep_snapshot example_labels ?e ?a = Some (a', snap, evs)"
    using sweep_snapshot_total [OF ts] by (metis prod_cases3)
  let ?cfg = "\<lparr>pc_Scope = ScopeEndpoint, pc_Target = ''10.0.0.254'', pc_SourceInterface = []\<rparr>"
  have nad: "att_NAD example_target = ''ns/net''" "att_PodUID example_target = ''p1''" "att_IP example_target = ''10.0.0.1''"
    by (simp_all add: example_att_def)
  have pc: "probeConfig (te_NAD (se_turn ?e i)) (att_NAD example_target) = ?cfg" for i
    unfolding nad cfg [symmetric] by (simp add: example_probed_env_def)
  have icmp: "ag_PathMode ?a = PathICMP" "ag_Probes ?a = Some (NewManager 1 3 1 ''n1'')" by (simp_all add: example_agent_def)
  have loop: "sg_locals (sweep_loop ?a (se_now ?e) (se_turn ?e) [example_target]) = [observation ?a (se_now ?e) example_target l] \<and>
      sg_specs (sweep_loop ?a (se_now ?e) (se_turn ?e) [example_target]) = [probe_spec ?a example_target example_handle ?cfg]"
    using l none icmp(1)
    by (simp add: sweep_loop_def sweep_turn_def resolve_turn_def inspect_turn_def sweep_start_def Cache_Resolve_def observe_turn_fields
      probe_turn_def pc [unfolded nad(1)] Configured_def turn nad Let_def gm_get_def)
  from s obtain atts g probes changed where t: "targets example_labels (se_Services ?e) (se_Pods ?e) = Inr atts"
    and g: "g = sweep_loop ?a (se_now ?e) (se_turn ?e) atts" and ls: "sn_Locals snap = sg_locals g"
    and p: "path_phase ?e ?a g = (probes, sn_Paths snap, changed)" "ag_Probes a' = probes"
    by (rule sweep_snapshot_Some)
  have atts: "atts = [example_target]" using t ts by simp
  obtain r where r: "sn_Locals snap = [r]" using loop ls g atts by simp
  have "lh_AttachmentID r = ID example_target \<and> lh_NodeName r = ag_NodeName ?a \<and> lh_IP r = ''10.0.0.1''"
    using sweep_reports_observations [OF s, unfolded Let_def] r unfolding ts by (fastforce simp: nad)
  moreover have ne: "PathICMP \<noteq> PathAssumeReady" by (simp add: PathICMP_def PathAssumeReady_def)
  have se: "se_mid ?e = id" "se_late ?e = id" by (simp_all add: example_probed_env_def example_sweep_env_def)
  let ?m = "fst (TakeChanged (SetTargets [probe_spec ?a example_target example_handle ?cfg] (NewManager 1 3 1 ''n1'')))"
  have specs: "sg_specs g = [probe_spec ?a example_target example_handle ?cfg]" using loop g atts by simp
  have "ag_Probes a' = Some ?m"
    using p by (auto simp: path_phase_def probe_phase_def Let_def icmp ne specs se split: prod.splits)
  moreover have "mg_targets ?m = gm_put_all ps_ScopeKey id [probe_spec ?a example_target example_handle ?cfg] []"
    by (simp add: TakeChanged_def SetTargets_targets)
  then have "map ps_Target (map snd (mg_targets ?m)) = [''10.0.0.254'']" "map ps_NetnsPath (map snd (mg_targets ?m)) = [''/proc/42/ns/net'']"
    by (simp_all add: gm_put_all_def gm_put_def probe_spec_def example_handle_def)
  moreover have "ag_NodeName ?a = ''n1''" by (simp add: example_agent_def)
  ultimately show ?thesis using s r by (intro exI conjI) auto
qed

text \<open>What the deltas of a snapshot tell whoever hears them.\<close>

definition hear :: "Payload \<Rightarrow> (string \<Rightarrow> bool option) \<Rightarrow> (string \<Rightarrow> bool option)" where
  "hear p told = (case p of PLocal r \<Rightarrow> told(pbl_AttachmentId r \<mapsto> pbl_LocalReady r) | PRetired i \<Rightarrow> told(i := None) | _ \<Rightarrow> told)"

definition last_seen :: "LocalHealth list \<Rightarrow> string \<Rightarrow> bool option" where
  "last_seen rs i = map_option lh_Ready (find (\<lambda>r. lh_AttachmentID r = i) (rev rs))"

lemma last_seen_snoc: "last_seen (rs @ [r]) = (last_seen rs)(lh_AttachmentID r \<mapsto> lh_Ready r)"
  by (auto simp: last_seen_def)

lemma last_seen_None: "last_seen rs i = None \<longleftrightarrow> (\<forall>r \<in> set rs. lh_AttachmentID r \<noteq> i)"
  by (auto simp: last_seen_def find_None_iff)

lemma gm_get_memory: "gm_get (gm_put_all lh_AttachmentID lh_Ready rs m) = gm_get m ++ last_seen rs"
proof (induction rs rule: rev_induct)
  case Nil
  show ?case by (simp add: last_seen_def fun_eq_iff map_add_def)
next
  case (snoc r rs)
  have "gm_get (gm_put_all lh_AttachmentID lh_Ready (rs @ [r]) m) = (gm_get (gm_put_all lh_AttachmentID lh_Ready rs m))(lh_AttachmentID r \<mapsto> lh_Ready r)"
    by (simp add: gm_put_all_append fun_eq_iff)
  then show ?case by (simp only: snoc last_seen_snoc map_add_upd)
qed

lemma hear_locals: "fold hear (map (PLocal \<circ> toLocalPB) rs) told = told ++ last_seen rs"
proof (induction rs rule: rev_induct)
  case Nil
  show ?case by (simp add: last_seen_def map_add_def fun_eq_iff)
next
  case (snoc r rs)
  have "hear (PLocal (toLocalPB r)) t = t(lh_AttachmentID r \<mapsto> lh_Ready r)" for t by (simp add: hear_def toLocalPB_def)
  then show ?case by (simp only: map_append fold_append list.map fold_simps o_def snoc [unfolded o_def] last_seen_snoc map_add_upd)
qed

lemma hear_paths: "fold hear (map (PPath \<circ> toPathPB) ps) told = told"
  by (induction ps) (simp_all add: hear_def)

lemma hear_retired: "fold hear (map PRetired gone) told = (\<lambda>i. if i \<in> set gone then None else told i)"
  by (induction gone arbitrary: told) (auto simp: hear_def)

lemma last_seen_filter: "last_seen (filter (\<lambda>r. P (lh_AttachmentID r)) rs) i = (if P i then last_seen rs i else None)"
proof (induction rs rule: rev_induct)
  case Nil
  show ?case by (simp add: last_seen_def)
qed (auto simp: last_seen_snoc)

lemma gm_get_fold_del: "gm_get (fold gm_del ks m) k = (if k \<in> set ks then None else gm_get m k)"
  by (induction ks arbitrary: m) auto

definition delta_msgs :: "Snapshot \<Rightarrow> Payload list" where
  "delta_msgs snap = map (PLocal \<circ> toLocalPB) (filter (\<lambda>r. is_changed snap (lh_AttachmentID r)) (sn_Locals snap)) @
    map (PPath \<circ> toPathPB) (filter (\<lambda>r. is_changed snap (ph_ScopeID r)) (sn_Paths snap)) @ map PRetired (sn_Retired snap)"

lemma delta_list: "map fst (delta_payloads snap s) = delta_msgs snap"
  by (simp add: delta_payloads_def delta_msgs_def o_def)

lemma last_seen_Some: "last_seen rs i = Some b \<Longrightarrow> \<exists>r \<in> set rs. lh_AttachmentID r = i \<and> lh_Ready r = b"
proof (induction rs rule: rev_induct)
  case Nil
  then show ?case by (simp add: last_seen_def)
qed (auto simp: last_seen_snoc split: if_splits)

lemma sweep_deltas:
  assumes "sweep_snapshot L e a = Some (a', snap, evs)" and "\<forall>l. set (se_order e l) = set l"
  shows "gm_get (ag_prev a') = last_seen (sn_Locals snap) \<and>
    fold hear (map fst (delta_payloads snap s)) (gm_get (ag_prev a)) = gm_get (ag_prev a')"
proof -
  from assms(1) obtain atts g gone probes changed where g: "g = sweep_loop a (se_now e) (se_turn e) atts"
    and gone: "gone = retired_ids (se_order e) g" and s: "sn_Locals snap = sg_locals g" "sn_Retired snap = gone"
    and prev: "ag_prev a' = fold gm_del gone (sg_prev g)" and ch: "sn_Changed snap = changed"
    and path: "path_phase e a g = (probes, sn_Paths snap, changed)"
    by (rule sweep_snapshot_Some)
  let ?rs = "sg_locals g" and ?m = "gm_get (ag_prev a)"
  have mem: "gm_get (sg_prev g) = ?m ++ last_seen ?rs" by (simp add: g sweep_loop_memory(1) gm_get_memory)
  have live: "gm_get (sg_live g) i = Some True \<longleftrightarrow> last_seen ?rs i \<noteq> None" for i
    unfolding g sweep_loop_memory(2) by (auto simp: gm_get_put_all last_seen_def split: option.split)
  have gone_iff: "i \<in> set gone \<longleftrightarrow> ?m i \<noteq> None \<and> last_seen ?rs i = None" for i
    using assms(2) live by (auto simp: gone retired_ids_def gm_keys_iff mem map_add_def split: option.splits)
  have now: "gm_get (ag_prev a') = last_seen ?rs"
    by (rule ext) (auto simp: prev gm_get_fold_del gone_iff mem map_add_def split: option.split)
  have same: "?m i = last_seen ?rs i" if "\<not> is_changed snap i" "last_seen ?rs i = Some b" for i b
  proof -
    have "gm_get (sg_changed g) i \<noteq> Some True" using that(1) path_phase_changed [OF path] ch by (auto simp: is_changed_def)
    then have "\<forall>r \<in> set ?rs. lh_AttachmentID r = i \<longrightarrow> ?m i = Some (lh_Ready r)"
      unfolding g by (auto simp: sweep_loop_changed split: if_splits)
    then show ?thesis using last_seen_Some [OF that(2)] that(2) by auto
  qed
  have "fold hear (map fst (delta_payloads snap s)) ?m = last_seen ?rs"
  proof
    fix i
    show "fold hear (map fst (delta_payloads snap s)) ?m i = last_seen ?rs i"
      unfolding delta_list delta_msgs_def fold_append o_apply hear_locals hear_paths hear_retired
      using same [of i] gone_iff [of i]
      by (cases "last_seen ?rs i") (auto simp: s map_add_def last_seen_filter split: option.split)
  qed
  then show ?thesis using now s by simp
qed

text \<open>
  The deltas lose no change. After a sweep the agent remembers, for each attachment it observed,
  the readiness it observed last, and nothing else; and whoever was told what it remembered before
  knows exactly what it remembers now after hearing the deltas of that sweep, in the order they are sent.
\<close>

theorem deltas_carry_the_memory:
  assumes "sweep_snapshot L e a = Some (a', snap, evs)" and "\<forall>l. set (se_order e l) = set l"
  shows "gm_get (ag_prev a') = last_seen (sn_Locals snap) \<and>
    fold hear (map fst (delta_payloads snap s)) (gm_get (ag_prev a)) = gm_get (ag_prev a')"
  using assms by (rule sweep_deltas)

lemma deltas_carry_the_memory_witness:
  "\<exists>a' snap evs. sweep_snapshot example_labels (example_sweep_env [example_net_svc]) (example_agent PathNone) = Some (a', snap, evs) \<and>
     fold hear (map fst (delta_payloads snap example_sink)) (gm_get [(''gone'', True)]) (ID example_target) = Some True"
proof -
  obtain a' snap evs l where s: "sweep_snapshot example_labels (example_sweep_env [example_net_svc]) (example_agent PathNone) = Some (a', snap, evs)"
    and l: "sn_Locals snap = [observation (example_agent PathNone) 7 example_target l]" "ln_Exists l" "ln_Usable l" "Has l ''10.0.0.1''"
    by (rule example_observed)
  have "last_seen (sn_Locals snap) (ID example_target) = Some True"
    using l(2-4) by (simp add: l(1) last_seen_def observation_def lh_Ready_def example_att_def)
  moreover have "ag_prev (example_agent PathNone) = [(''gone'', True)]" by (simp add: example_agent_def)
  ultimately show ?thesis
    using deltas_carry_the_memory [OF s, of example_sink] s by (auto simp: example_sweep_env_def)
qed

section \<open>Findings\<close>

lemma fold_sample_moved:
  assumes "fold_sample s r m = (m', evs, True)"
  shows "\<exists>mc mc'. gm_get (mg_machines m) (ps_ScopeKey s) = Some mc \<and> mc_state mc' \<noteq> mc_state mc \<and>
    mg_machines m' = gm_put (ps_ScopeKey s) mc' (mg_machines m) \<and> mg_changed m' = gm_put (ps_ScopeKey s) True (mg_changed m)"
proof (cases "gm_get (mg_machines m) (ps_ScopeKey s)")
  case None
  then show ?thesis using assms by (simp add: fold_sample_def Let_def)
next
  case (Some mc)
  obtain mc' st1 st2 ch where o: "Observe r mc = (mc', st1, st2, ch)" by (metis prod_cases4)
  have ch: ch and "mg_machines m' = gm_put (ps_ScopeKey s) mc' (mg_machines m)" "mg_changed m' = gm_put (ps_ScopeKey s) True (mg_changed m)"
    using assms Some o by (auto simp: fold_sample_def Let_def split: if_splits)
  moreover have "mc_state mc' \<noteq> mc_state mc" using o ch by (auto simp: Observe_def Let_def)
  ultimately show ?thesis using Some by blast
qed

text \<open>
  C39. A path change can be reported with the verdict from before it. If the round folds in the sample
  that moves a path between the reads \<^verbatim>\<open>States\<close> and \<^verbatim>\<open>TakeChanged\<close> of one sweep, that sweep carries the
  old verdict and consumes the change; the next sweep has the new verdict but no longer marks it as
  changed, so its deltas leave the path out and it waits for the next full snapshot.
\<close>

theorem path_change_can_miss_the_deltas:
  assumes "gm_wf (mg_machines m)" and "s \<in> set specs"
    and "fold_sample s r (SetTargets specs m) = (m2, evs, True)"
    and "se_mid e = id" and "se_late e (SetTargets specs m) = m2"
    and "se_mid e' = id" and "se_late e' = id"
  shows "\<exists>m3 mc mc'. probe_phase e specs m = (m3, States (se_states_now e) (SetTargets specs m), mg_changed m2) \<and>
    gm_get (mg_changed m2) (ps_ScopeKey s) = Some True \<and>
    gm_get (mg_machines (SetTargets specs m)) (ps_ScopeKey s) = Some mc \<and>
    gm_get (mg_machines (SetTargets specs m3)) (ps_ScopeKey s) = Some mc' \<and> mc_state mc' \<noteq> mc_state mc \<and>
    (\<exists>m4. probe_phase e' specs m3 = (m4, States (se_states_now e') (SetTargets specs m3), []))"
proof -
  let ?k = "ps_ScopeKey s" and ?m1 = "SetTargets specs m" and ?m3 = "m2\<lparr>mg_changed := []\<rparr>"
  from fold_sample_moved [OF assms(3)] obtain mc mc' where mc: "gm_get (mg_machines ?m1) ?k = Some mc" "mc_state mc' \<noteq> mc_state mc"
    "mg_machines m2 = gm_put ?k mc' (mg_machines ?m1)" "mg_changed m2 = gm_put ?k True (mg_changed ?m1)"
    by blast
  have "gm_wf (mg_machines ?m1)" using assms(1) by (simp add: SetTargets_def Let_def fresh_wf)
  then have wf: "gm_wf (mg_machines ?m3)" by (simp add: mc(3))
  have "has_key specs ?k" using assms(2) by (simp add: has_key_def)
  then have "gm_get (mg_machines (SetTargets specs ?m3)) ?k = Some mc'"
    by (simp add: SetTargets_machines [OF wf]) (simp add: mc(3))
  moreover have "probe_phase e specs m = (?m3, States (se_states_now e) ?m1, mg_changed m2)"
    by (simp add: probe_phase_def TakeChanged_def assms(4,5))
  moreover have "mg_changed (SetTargets specs ?m3) = []" by (rule SetTargets_no_new_change) simp
  then have "\<exists>m4. probe_phase e' specs ?m3 = (m4, States (se_states_now e') (SetTargets specs ?m3), [])"
    by (simp add: probe_phase_def TakeChanged_def Let_def assms(6,7))
  ultimately show ?thesis using mc by (intro exI [of _ ?m3] exI [of _ mc] exI [of _ mc']) simp
qed

lemma path_change_can_miss_the_deltas_witness:
  "\<exists>m2. gm_get (mg_changed m2) ''a'' = Some True \<and> (\<exists>m3. probe_phase ((example_sweep_env [])\<lparr>se_late := \<lambda>_. m2\<rparr>) [example_spec] (NewManager 1 3 1 ''n1'')
     = (m3, [], mg_changed m2))"
proof -
  have c: "snd (snd (fold_sample example_spec good_result (SetTargets [example_spec] (NewManager 1 3 1 ''n1''))))" by code_simp
  obtain m2 evs where f: "fold_sample example_spec good_result (SetTargets [example_spec] (NewManager 1 3 1 ''n1'')) = (m2, evs, True)"
    using c by (metis prod.collapse)
  have n: "States 8 (SetTargets [example_spec] (NewManager 1 3 1 ''n1'')) = []" by code_simp
  show ?thesis
    using path_change_can_miss_the_deltas [of "NewManager 1 3 1 ''n1''" example_spec "[example_spec]", OF _ _ f,
        of "(example_sweep_env [])\<lparr>se_late := \<lambda>_. m2\<rparr>" "example_sweep_env []"] n
    by (auto simp: example_sweep_env_def NewManager_def example_spec_def)
qed

section \<open>The namespace cache\<close>

lemma Ensure_other: "v \<noteq> u \<Longrightarrow> gm_get (mo_watching (fst (Ensure c u p m))) v = gm_get (mo_watching m) v"
  by (auto simp: Ensure_def mon_subscribe_def Let_def split: option.splits)

lemma sweep_turn_other:
  assumes "att_PodUID at \<noteq> u"
  shows "gm_get (sg_cache (sweep_turn a now te at g)) u = gm_get (sg_cache g) u"
    and "gm_get (mo_watching (sg_monitor (sweep_turn a now te at g))) u = gm_get (mo_watching (sg_monitor g)) u"
proof -
  have 1: "gm_get (sg_cache g1) u = gm_get (sg_cache g) u" "gm_get (mo_watching (sg_monitor g1)) u = gm_get (mo_watching (sg_monitor g)) u"
    if "resolve_turn te (att_PodUID at) g = (g1, oh)" for g1 oh
    using that assms by (auto simp: resolve_turn_def Cache_Resolve_def Cache_Forget_def Let_def Ensure_other
      split: option.splits sum.splits prod.splits if_splits)
  have 2: "sg_cache g2 = sg_cache g1" "sg_monitor g2 = sg_monitor g1" if "inspect_turn te h u' f g1 = (g2, ol)" for g1 g2 h u' f ol
    using that by (auto simp: inspect_turn_def split: option.splits sum.splits)
  have 3: "sg_cache (observe_turn a now te at h l g2) = sg_cache g2" "sg_monitor (observe_turn a now te at h l g2) = sg_monitor g2" for h l g2
    by (auto simp: observe_turn_def probe_turn_def transition_def Let_def split: option.splits)
  obtain g1 oh where r: "resolve_turn te (att_PodUID at) g = (g1, oh)" by fastforce
  note r1 = 1 [OF r]
  show "gm_get (sg_cache (sweep_turn a now te at g)) u = gm_get (sg_cache g) u"
    and "gm_get (mo_watching (sg_monitor (sweep_turn a now te at g))) u = gm_get (mo_watching (sg_monitor g)) u"
    using r1 by (auto simp: sweep_turn_def r 3 dest: 2 split: prod.splits option.splits)
qed

lemma sweep_loop_other:
  assumes "\<forall>at \<in> set atts. att_PodUID at \<noteq> u"
  shows "gm_get (sg_cache (sweep_loop a now te atts)) u = gm_get (ag_Resolver a) u \<and>
    gm_get (mo_watching (sg_monitor (sweep_loop a now te atts))) u = gm_get (mo_watching (ag_Monitor a)) u"
  using assms
proof (induction atts rule: rev_induct)
  case Nil
  show ?case by (simp add: sweep_loop_def sweep_start_def)
next
  case (snoc at atts)
  then show ?case by (simp add: sweep_loop_snoc sweep_turn_other)
qed

lemma forget_pods_other: "u \<notin> set us \<Longrightarrow> gm_get (sg_cache (fold forget_pod us g)) u = gm_get (sg_cache g) u"
  by (induction us arbitrary: g) (auto simp: forget_pod_def Cache_Forget_def)

text \<open>
  The cache entry of a Pod whose subscription failed is never released. A sweep that does not
  look at the Pod leaves its entry as it is unless the monitor watches the Pod, whether or not the
  Pod still exists.
\<close>

theorem unwatched_entry_is_kept:
  assumes "sweep_snapshot L e a = Some (a', snap, evs)" and "targets L (se_Services e) (se_Pods e) = Inr atts"
    and "\<forall>at \<in> set atts. att_PodUID at \<noteq> u" and "gm_get (mo_watching (ag_Monitor a)) u = None"
  shows "gm_get (ag_Resolver a') u = gm_get (ag_Resolver a) u \<and> gm_get (mo_watching (ag_Monitor a')) u = None"
proof -
  let ?g = "sweep_loop a (se_now e) (se_turn e) atts"
  note o = sweep_loop_other [OF assms(3), of a "se_now e" "se_turn e"]
  obtain g gone where r: "retire (se_order e) ?g = (g, gone)" by fastforce
  let ?us = "Watching (sg_monitor ?g)"
  have nw: "u \<notin> set ?us" using o assms(4) by (simp add: Watching_def gm_keys_iff)
  let ?g1 = "?g\<lparr>sg_prev := fold gm_del gone (sg_prev ?g),
     sg_events := sg_events ?g @ map (\<lambda>i. Event ''attachment_retired'' [(''attachment_id'', VStr i)]) gone\<rparr>"
  have g: "g = fold forget_pod ?us ?g1" using r by (auto simp: retire_def Let_def)
  have w: "gm_get (mo_watching (sg_monitor (fold forget_pod us h))) u = None" if "gm_get (mo_watching (sg_monitor h)) u = None" for us h
    using that by (induction us arbitrary: h) (auto simp: forget_pod_def mon_Forget_def split: option.split)
  have "gm_get (sg_cache g) u = gm_get (ag_Resolver a) u" "gm_get (mo_watching (sg_monitor g)) u = None"
    using forget_pods_other [OF nw, of ?g1] w [of ?g1 ?us] o assms(4) by (simp_all add: g)
  moreover have "ag_Resolver a' = sg_cache g" "ag_Monitor a' = sg_monitor g"
    using assms(1,2) r by (auto simp: sweep_snapshot_def split: prod.splits)
  ultimately show ?thesis by simp
qed

lemma unwatched_entry_is_kept_witness:
  "\<exists>a' snap evs. sweep_snapshot example_labels (example_sweep_env []) (example_agent PathNone) = Some (a', snap, evs) \<and>
     gm_get (ag_Resolver a') ''old'' = Some example_handle"
proof -
  have t: "targets example_labels (se_Services (example_sweep_env [])) (se_Pods (example_sweep_env [])) = Inr []"
    by (simp add: example_sweep_env_def targets_def)
  obtain a' snap evs where s: "sweep_snapshot example_labels (example_sweep_env []) (example_agent PathNone) = Some (a', snap, evs)"
    using sweep_snapshot_total [OF t] by (metis prod_cases3)
  have "gm_get (mo_watching (ag_Monitor (example_agent PathNone))) ''old'' = None"
    by (simp add: example_agent_def NewMonitor_def)
  then have "gm_get (ag_Resolver a') ''old'' = Some example_handle"
    using unwatched_entry_is_kept [OF s t] by (simp add: example_agent_def gm_get_def)
  then show ?thesis using s by blast
qed

end
