(* ===== verification/Sink_Session.thy ===== *)
theory Sink_Session
  imports Grpc_Sink
begin

text \<open>
  \<^verbatim>\<open>session\<close> and \<^verbatim>\<open>Start\<close> of \<^verbatim>\<open>internal/agent/grpc_sink.go\<close>: how a connection is set up, what becomes of
  the sink while it lives and when it ends, and the loop that reconnects. The TLS files, the dial, the
  opening of the stream and what \<^verbatim>\<open>Recv\<close> returns are parameters.
\<close>

section \<open>Dialling\<close>

text \<open>The settings of a connection to the controller.\<close>

record dial =
  dl_TokenPath :: string
  dl_CAPath :: string
  dl_ServerName :: string
  dl_MaxSession :: int

text \<open>What is handed to \<^verbatim>\<open>grpc.NewClient\<close>: \<open>None\<close> is plaintext; the token file and whether it requires TLS.\<close>

record 'c client_opts =
  co_Transport :: "'c option"
  co_PerRPC :: "(string \<times> bool) option"

datatype session_error = TlsFailed go_error | DialFailed string go_error | OpenFailed go_error | RecvFailed go_error

definition errString :: "session_error option \<Rightarrow> ev_value" where
  "errString err = (case err of
      None \<Rightarrow> VStr []
    | Some (TlsFailed e) \<Rightarrow> VFmt ''client tls: %w'' [VErr e]
    | Some (DialFailed addr e) \<Rightarrow> VFmt ''dial %s: %w'' [VStr addr, VErr e]
    | Some (OpenFailed e) \<Rightarrow> VFmt ''open stream: %w'' [VErr e]
    | Some (RecvFailed e) \<Rightarrow> VErr e)"

definition dial_options :: "(string \<Rightarrow> string \<Rightarrow> go_error + 'c) \<Rightarrow> dial \<Rightarrow> session_error + 'c client_opts" where
  "dial_options fromFile d = (case transportCreds fromFile (dl_CAPath d) (dl_ServerName d) of
      Inl e \<Rightarrow> Inl (TlsFailed e)
    | Inr tc \<Rightarrow> Inr \<lparr>co_Transport = tc, co_PerRPC = map_option (Pair (dl_TokenPath d)) (session_requires_tls tc (dl_TokenPath d))\<rparr>)"

definition session_cap :: "dial \<Rightarrow> int option" where
  "session_cap d = (if dl_MaxSession d > 0 then Some (dl_MaxSession d) else None)"

section \<open>A session\<close>

text \<open>
  \<open>sx_Sync\<close> opens the stream under a context with that timeout. \<open>sx_Recv\<close> is what the successive calls
  of \<^verbatim>\<open>Recv\<close> return, each with what the publisher did to the sink before it; when the list is used up the
  loop is waiting in the next call.
\<close>

record 'c session_env =
  sx_FromFile :: "string \<Rightarrow> string \<Rightarrow> go_error + 'c"
  sx_NewClient :: "string \<Rightarrow> 'c client_opts \<Rightarrow> go_error option"
  sx_Sync :: "int option \<Rightarrow> go_error + nat"
  sx_Recv :: "((GRPCSink \<Rightarrow> GRPCSink) \<times> (go_error + HealthAck)) list"

fun recv_loop :: "((GRPCSink \<Rightarrow> GRPCSink) \<times> (go_error + HealthAck)) list \<Rightarrow> GRPCSink
    \<Rightarrow> GRPCSink \<times> event list \<times> session_error option" where
  "recv_loop [] s = (s, [], None)"
| "recv_loop ((meanwhile, Inl e) # rs) s = (meanwhile s, [], Some (RecvFailed e))"
| "recv_loop ((meanwhile, Inr ack) # rs) s = (case on_ack ack (meanwhile s) of (s1, evs1) \<Rightarrow>
     (case recv_loop rs s1 of (s2, evs2, err) \<Rightarrow> (s2, evs1 @ evs2, err)))"

definition session :: "'c session_env \<Rightarrow> dial \<Rightarrow> GRPCSink \<Rightarrow> GRPCSink \<times> event list \<times> session_error option" where
  "session x d s = (case dial_options (sx_FromFile x) d of
      Inl err \<Rightarrow> (s, [], Some err)
    | Inr opts \<Rightarrow> (case sx_NewClient x (gs_Addr s) opts of
        Some e \<Rightarrow> (s, [], Some (DialFailed (gs_Addr s) e))
      | None \<Rightarrow> (case sx_Sync x (session_cap d) of
          Inl e \<Rightarrow> (s, [], Some (OpenFailed e))
        | Inr stream \<Rightarrow> (case recv_loop (sx_Recv x) (session_open stream s) of (s1, evs, err) \<Rightarrow>
            (if err = None then s1 else session_close s1,
             Event ''health_stream_opened'' [(''node'', VStr (gs_NodeName s)), (''agent_instance'', VStr (gs_InstanceID s)),
               (''addr'', VStr (gs_Addr s))] # evs, err)))))"

section \<open>The reconnect loop\<close>

text \<open>
  One turn of the loop: the session's surroundings and how long it lived, whether the context has ended
  before it, after it or during the sleep, and what publishes that finish during the sleep do to the sink.
\<close>

record 'c attempt =
  at_over :: bool
  at_env :: "'c session_env"
  at_lived :: int
  at_ended :: bool
  at_mid :: "GRPCSink \<Rightarrow> GRPCSink"
  at_woken :: bool

text \<open>The sink, the events, the sleeps, and whether \<^verbatim>\<open>Start\<close> has returned.\<close>

fun sink_Start :: "'c attempt list \<Rightarrow> dial \<Rightarrow> int \<Rightarrow> GRPCSink \<Rightarrow> GRPCSink \<times> event list \<times> int list \<times> bool" where
  "sink_Start [] d backoff s = (s, [], [], False)"
| "sink_Start (x # xs) d backoff s =
     (if at_over x then (s, [], [], True)
      else case session (at_env x) d s of
        (s1, evs, None) \<Rightarrow> (s1, evs, [], False)
      | (s1, evs, Some err) \<Rightarrow>
          if at_ended x then (s1, evs, [], True)
          else let evs1 = evs @ [Event ''health_stream_closed'' [(''node'', VStr (gs_NodeName s)), (''err'', errString (Some err))]] in
            (case backoff_step (at_lived x) backoff of (sleep, backoff') \<Rightarrow>
               if at_woken x then (at_mid x s1, evs1, [sleep], True)
               else (case sink_Start xs d backoff' (at_mid x s1) of
                 (s2, evs2, sleeps, returned) \<Rightarrow> (s2, evs1 @ evs2, sleep # sleeps, returned))))"

section \<open>What a stream carries\<close>

text \<open>The sink between the opening and the end of a session: acknowledgements and publishes, one at a time.\<close>

datatype stream_step = SAck HealthAck | SPublish int int "nat \<Rightarrow> go_error option" Snapshot

fun stream_run :: "stream_step list \<Rightarrow> GRPCSink \<Rightarrow> GRPCSink \<times> Envelope list" where
  "stream_run [] s = (s, [])"
| "stream_run (SAck a # xs) s = stream_run xs (fst (on_ack a s))"
| "stream_run (SPublish now now' send snap # xs) s = (case Publish now now' id send snap s of (s1, envs, _) \<Rightarrow>
     (case stream_run xs s1 of (s2, envs2) \<Rightarrow> (s2, envs @ envs2)))"

section \<open>Lemmas\<close>

lemma session_closed:
  assumes "session x d s = (s', evs, Some err)" and "gs_stream s = None"
  shows "gs_stream s' = None"
  using assms
  by (auto simp: session_def session_close_def split: sum.splits option.splits prod.splits if_splits)

lemma on_ack_keeps [simp]:
  "gs_stream (fst (on_ack a s)) = gs_stream s" "gs_needSnapshot s \<Longrightarrow> gs_needSnapshot (fst (on_ack a s))"
  by (simp_all add: on_ack_def)

lemma send_list_keeps:
  "send_list send n ps s = (s', envs, evs, err) \<Longrightarrow> gs_stream s' = gs_stream s \<and> gs_needSnapshot s' = gs_needSnapshot s"
proof (induction ps arbitrary: n s s' envs evs err)
  case (Cons p ps)
  obtain pl pe where p: "p = (pl, pe)" by fastforce
  obtain t es vs er where r: "send_list send (Suc n) ps (s\<lparr>gs_seq := gs_seq s + 1\<rparr>) = (t, es, vs, er)" by (metis prod_cases4)
  from Cons.IH [OF r] Cons.prems r show ?case by (cases "send n") (auto simp: p envelope_def)
qed simp

text \<open>A snapshot whose first send fails sends nothing; otherwise its begin is the first message.\<close>

lemma snapshot_first:
  assumes "sendSnapshot send snap s = (s', envs, evs, err)"
  shows "envs = [] \<longrightarrow> err \<noteq> None" and "env # envs' = envs \<Longrightarrow> \<exists>e l p. env_Payload env = Some (PSnapshotBegin e l p)"
    and "gs_stream s' = gs_stream s" and "gs_needSnapshot s' = gs_needSnapshot s"
proof -
  let ?s = "s\<lparr>gs_epoch := gs_epoch s + 1\<rparr>"
  obtain t es vs er where l: "send_list send 0 (map (\<lambda>p. (p, [])) (snapshot_payloads (gs_epoch s + 1) snap)) ?s = (t, es, vs, er)"
    by (metis prod_cases4)
  have eq: "s' = t" "envs = es" "err = er"
    using assms l by (auto simp: sendSnapshot_def Let_def split: option.splits)
  from l have "es = [] \<and> er \<noteq> None \<or> (\<exists>m ms e k p. es = m # ms \<and> env_Payload m = Some (PSnapshotBegin e k p))"
    by (cases "send 0") (auto simp: snapshot_payloads_def envelope_def split: prod.splits, metis)
  then show "envs = [] \<longrightarrow> err \<noteq> None" and "env # envs' = envs \<Longrightarrow> \<exists>e l p. env_Payload env = Some (PSnapshotBegin e l p)"
    by (auto simp: eq)
  show "gs_stream s' = gs_stream s" and "gs_needSnapshot s' = gs_needSnapshot s" using send_list_keeps [OF l] by (simp_all add: eq)
qed

lemma stream_run_first:
  assumes "gs_stream s \<noteq> None" and "gs_needSnapshot s" and "stream_run xs s = (s', env # envs)"
  shows "\<exists>e l p. env_Payload env = Some (PSnapshotBegin e l p)"
  using assms
proof (induction xs arbitrary: s)
  case (Cons x xs)
  show ?case
  proof (cases x)
    case (SAck a)
    then show ?thesis using Cons.IH [of "fst (on_ack a s)"] Cons.prems by simp
  next
    case (SPublish now now' send snap)
    obtain t es vs er where r: "sendSnapshot send snap s = (t, es, vs, er)" by (metis prod_cases4)
    obtain s1 es1 rest where p: "Publish now now' id send snap s = (s1, es1, rest)" by (metis prod_cases3)
    have full: "wants_full now s" using Cons.prems(2) by (simp add: wants_full_def)
    then have es: "es1 = es" and s1: "er \<noteq> None \<Longrightarrow> s1 = t"
      using p r Cons.prems(1) by (auto simp: Publish_def split: option.splits)
    note f = snapshot_first [OF r]
    show ?thesis
    proof (cases es)
      case Nil
      then have "s1 = t" using f(1) s1 by simp
      then show ?thesis using Cons.prems Cons.IH [of t] f(3,4) p Nil es by (auto simp: SPublish split: prod.splits)
    next
      case (Cons m ms)
      then show ?thesis using f(2) [of m ms] \<open>stream_run (x # xs) s = _\<close> p es by (auto simp: SPublish split: prod.splits)
    qed
  qed
qed simp

text \<open>What a publisher does to the sink leaves its stream alone.\<close>

definition keeps_stream :: "(GRPCSink \<Rightarrow> GRPCSink) \<Rightarrow> bool" where
  "keeps_stream f \<longleftrightarrow> (\<forall>s. gs_stream (f s) = gs_stream s)"

lemma publish_keeps_stream: "keeps_stream (\<lambda>s. fst (Publish now now' id send snap s))"
proof -
  have "gs_stream (fst (Publish now now' id send snap s)) = gs_stream s" for s
  proof -
    obtain t es vs er where r: "sendSnapshot send snap s = (t, es, vs, er)" by (metis prod_cases4)
    obtain t2 es2 vs2 er2 where d: "sendDeltas send snap s = (t2, es2, vs2, er2)" by (metis prod_cases4)
    from d have "gs_stream t2 = gs_stream s" unfolding sendDeltas_def by (rule send_list_keeps [THEN conjunct1])
    with snapshot_first(3) [OF r] r d show ?thesis by (auto simp: Publish_def split: option.splits)
  qed
  then show ?thesis by (simp add: keeps_stream_def)
qed

lemma recv_keeps_stream:
  assumes "\<forall>r \<in> set rs. keeps_stream (fst r)"
  shows "gs_stream (fst (recv_loop rs s)) = gs_stream s"
  using assms
proof (induction rs arbitrary: s)
  case (Cons r rs)
  obtain m res where r: "r = (m, res)" by fastforce
  have m: "gs_stream (m s) = gs_stream s" using Cons.prems by (simp add: r keeps_stream_def)
  show ?case
  proof (cases res)
    case (Inr ack)
    obtain s1 evs1 where a: "on_ack ack (m s) = (s1, evs1)" by fastforce
    then have "gs_stream s1 = gs_stream s" using on_ack_keeps(1) [of ack "m s"] m by simp
    then show ?thesis using Cons.IH [of s1] Cons.prems by (auto simp: r Inr a split: prod.splits)
  qed (simp add: r m)
qed simp

lemma session_running:
  assumes "session x d s = (s', evs, None)" and "\<forall>r \<in> set (sx_Recv x). keeps_stream (fst r)"
  shows "gs_stream s' \<noteq> None"
proof -
  from assms(1) obtain stream evs' where "recv_loop (sx_Recv x) (session_open stream s) = (s', evs', None)"
    by (auto simp: session_def split: sum.splits option.splits prod.splits if_splits)
  with recv_keeps_stream [OF assms(2), of "session_open stream s"] show ?thesis by (simp add: session_open_def)
qed

section \<open>Properties\<close>

text \<open>
  C9. Every stream begins with a full snapshot. Whatever acknowledgements arrive and whichever sends fail,
  the first message a newly opened stream carries is the begin of a snapshot, as long as no publish
  overlaps the opening.
\<close>

theorem stream_begins_with_snapshot:
  assumes "stream_run steps (session_open stream s) = (s', env # envs)"
  shows "\<exists>epoch locals paths. env_Payload env = Some (PSnapshotBegin epoch locals paths)"
  using assms by (intro stream_run_first) (simp_all add: session_open_def)

lemma stream_begins_with_snapshot_witness:
  "\<exists>s' env. stream_run [SPublish 5 6 (\<lambda>n. if n = 1 then Some ErrSessionRevoked else None) (example_sweep example_a)]
      (session_open 1 example_sink) = (s', [env]) \<and> (\<exists>e l p. env_Payload env = Some (PSnapshotBegin e l p))"
proof -
  let ?run = "stream_run [SPublish 5 6 (\<lambda>n. if n = 1 then Some ErrSessionRevoked else None) (example_sweep example_a)]
      (session_open 1 example_sink)"
  have "\<exists>s' env. ?run = (s', [env])"
    by (simp add: Publish_def session_open_def wants_full_def example_sink_def sendSnapshot_def snapshot_payloads_def
      example_sweep_def envelope_def Let_def)
  then show ?thesis using stream_begins_with_snapshot by blast
qed

text \<open>
  C40. A publish that overlaps a reconnect breaks this. It clears the request for a snapshot after its own
  sends, on whichever stream the sink has by then: if the session ends and the next one opens before
  that, the new stream owes nothing, and until the refresh period is over it carries changes only.
\<close>

theorem reopened_stream_skips_snapshot:
  assumes "gs_stream s \<noteq> None" and "wants_full now s" and "time_sub now2 now' < gs_Refresh s"
    and "s1 = fst (Publish now now' (session_open stream \<circ> session_close) (\<lambda>_. None) snap s)"
    and "stream_run [SPublish now2 now2' send snap2] s1 = (s2, envs)"
  shows "gs_needSnapshot (session_open stream (session_close s)) \<and> gs_stream s1 = Some stream \<and>
    (\<forall>env \<in> set envs. \<forall>epoch locals paths. env_Payload env \<noteq> Some (PSnapshotBegin epoch locals paths))"
proof -
  obtain t es vs er where r: "sendSnapshot (\<lambda>_. None) snap s = (t, es, vs, er)" by (metis prod_cases4)
  obtain b items e where "er = None" by (rule snapshot_sent [OF r]) blast
  moreover obtain n where "gs_stream s = Some n" using assms(1) by blast
  ultimately have s1: "s1 = (session_open stream (session_close t))\<lparr>gs_needSnapshot := False, gs_lastSnapshot := now'\<rparr>"
    using assms(2,4) r by (simp add: Publish_def)
  have "gs_Refresh t = gs_Refresh s"
    using r by (auto simp: sendSnapshot_def Let_def send_list_ok)
  then have nf: "\<not> wants_full now2 s1" using assms(3) by (simp add: s1 wants_full_def session_open_def session_close_def)
  obtain t2 es2 vs2 er2 where d: "send_list send 0 (delta_payloads snap2 s1) s1 = (t2, es2, vs2, er2)" by (metis prod_cases4)
  have sent: "env_Payload env \<in> (Some \<circ> fst) ` set ps"
    if "send_list snd' n ps u = (u', ms, ws, er')" "env \<in> set ms" for snd' n ps u u' ms ws er' env
    using that
  proof (induction ps arbitrary: n u ms ws)
    case (Cons p ps)
    obtain pl pe where p: "p = (pl, pe)" by fastforce
    from Cons show ?case by (cases "snd' n") (fastforce simp: p envelope_def split: prod.splits)+
  qed simp
  have "envs = es2"
    using assms(5) nf d by (auto simp: Publish_def sendDeltas_def s1 session_open_def split: prod.splits)
  then have "\<forall>env \<in> set envs. \<forall>epoch locals paths. env_Payload env \<noteq> Some (PSnapshotBegin epoch locals paths)"
    using sent [OF d] by (fastforce simp: delta_payloads_def)
  then show ?thesis by (simp add: s1 session_open_def)
qed

lemma reopened_stream_skips_snapshot_witness:
  "\<exists>s1 env. gs_stream s1 = Some 2 \<and>
     snd (stream_run [SPublish 7 8 (\<lambda>_. None) ((example_sweep example_a)\<lparr>sn_Retired := [''old'']\<rparr>)] s1) = [env] \<and>
     env_Payload env = Some (PRetired ''old'')"
proof -
  let ?snap = "(example_sweep example_a)\<lparr>sn_Retired := [''old'']\<rparr>"
  let ?s1 = "fst (Publish 5 6 (session_open 2 \<circ> session_close) (\<lambda>_. None) (example_sweep example_a) example_sink)"
  obtain s2 envs where r: "stream_run [SPublish 7 8 (\<lambda>_. None) ?snap] ?s1 = (s2, envs)" by fastforce
  have refresh: "time_sub 7 6 < gs_Refresh example_sink" by (simp add: example_sink_def time_sub_def)
  note R = reopened_stream_skips_snapshot [OF example_full(1,2) refresh refl r]
  obtain t es vs er where snd1: "sendSnapshot (\<lambda>_. None) (example_sweep example_a) example_sink = (t, es, vs, er)" by (metis prod_cases4)
  have "\<exists>env. envs = [env] \<and> env_Payload env = Some (PRetired ''old'')"
  proof (cases "wants_full 7 ?s1")
    case False
    with r R show ?thesis
      by (auto simp: Publish_def [of 7] sendDeltas_def send_list_ok delta_payloads_def is_changed_def example_sweep_def)
  next
    case True
    have "\<exists>m ms. envs = m # ms \<and> (\<exists>e l p. env_Payload m = Some (PSnapshotBegin e l p))"
      using r True R by (auto simp: Publish_def [of 7] sendSnapshot_def Let_def send_list_ok snapshot_payloads_def split: prod.splits)
    with R show ?thesis by fastforce
  qed
  with R r show ?thesis by (intro exI [of _ ?s1]) auto
qed

text \<open>
  C10. The agent reconnects until it is told to stop. Whatever ends the sessions, \<^verbatim>\<open>Start\<close> returns only
  when its context has ended, and then it leaves no stream behind; while it has not, either a session is
  running and the sink holds its stream, or every session so far has ended, there is no stream and the
  loop has slept one, two, four or eight seconds after each of them.
\<close>

theorem reconnects_until_cancelled:
  assumes "sink_Start xs d time_Second s = (s', evs, sleeps, returned)" and "gs_stream s = None"
    and "\<forall>x \<in> set xs. keeps_stream (at_mid x) \<and> (\<forall>r \<in> set (sx_Recv (at_env x)). keeps_stream (fst r))"
  shows "set sleeps \<subseteq> backoff_range \<and>
    (returned \<longrightarrow> gs_stream s' = None \<and> (\<exists>x \<in> set xs. at_over x \<or> at_ended x \<or> at_woken x)) \<and>
    (\<not> returned \<longrightarrow> (gs_stream s' = None \<longleftrightarrow> length sleeps = length xs))"
proof -
  have "set sleeps \<subseteq> backoff_range \<and>
    (returned \<longrightarrow> gs_stream s' = None \<and> (\<exists>x \<in> set xs. at_over x \<or> at_ended x \<or> at_woken x)) \<and>
    (\<not> returned \<longrightarrow> (gs_stream s' = None \<longleftrightarrow> length sleeps = length xs) \<and> length sleeps \<le> length xs)"
    if "sink_Start xs d b s = (s', evs, sleeps, returned)" "b \<in> backoff_range" for b
    using that assms(2,3)
  proof (induction xs arbitrary: b s evs sleeps)
    case (Cons x xs)
    obtain s1 evs1 err where r: "session (at_env x) d s = (s1, evs1, err)" by (metis prod_cases3)
    obtain sleep b' where b: "backoff_step (at_lived x) b = (sleep, b')" by fastforce
    note range = backoff_step_range [OF Cons.prems(2) b]
    obtain s2 evs2 sl ret where rest: "sink_Start xs d b' (at_mid x s1) = (s2, evs2, sl, ret)" by (metis prod_cases4)
    show ?case
    proof (cases err)
      case None
      then have "gs_stream s1 \<noteq> None" using session_running r Cons.prems(4) by fastforce
      then show ?thesis using Cons.prems(1,3) by (auto simp: r None split: if_splits)
    next
      case (Some e)
      then have closed: "gs_stream s1 = None" using session_closed r Cons.prems(3) by blast
      then have mid: "gs_stream (at_mid x s1) = None" using Cons.prems(4) by (simp add: keeps_stream_def)
      consider "at_over x" | "\<not> at_over x" "at_ended x" | "\<not> at_over x" "\<not> at_ended x" "at_woken x"
        | "\<not> at_over x" "\<not> at_ended x" "\<not> at_woken x" by blast
      then show ?thesis
      proof cases
        case 4
        then have e: "s' = s2" "sleeps = sleep # sl" "returned = ret"
          using Cons.prems(1) by (auto simp: r Some b rest Let_def)
        from Cons.IH [OF rest [folded e(1,3)] _ mid] range Cons.prems(4) show ?thesis by (auto simp: e)
      qed (use Cons.prems(1,3) closed mid range in \<open>auto simp: r Some b Let_def\<close>)
    qed
  qed simp
  from this [OF assms(1)] show ?thesis by (simp add: backoff_range_def)
qed

definition example_attempt :: "go_error option \<Rightarrow> nat attempt" where
  "example_attempt refused = \<lparr>at_over = False,
     at_env = \<lparr>sx_FromFile = (\<lambda>_ _. Inr 0), sx_NewClient = (\<lambda>_ _. refused), sx_Sync = (\<lambda>_. Inr 7),
       sx_Recv = [(id, Inr \<lparr>ack_AcceptedSequence = 1, ack_ResyncRequired = True, ack_Reason = ''new stream''\<rparr>)]\<rparr>,
     at_lived = 0, at_ended = False, at_mid = id, at_woken = False\<rparr>"

lemma reconnects_until_cancelled_witness:
  "\<exists>s' evs. sink_Start [example_attempt (Some (ErrIO ''refused'')), example_attempt None]
      \<lparr>dl_TokenPath = ''/t'', dl_CAPath = ''/ca'', dl_ServerName = ''c'', dl_MaxSession = 300 * time_Second\<rparr> time_Second
      (session_close example_sink) = (s', evs, [time_Second], False) \<and> gs_stream s' \<noteq> None"
proof -
  let ?xs = "[example_attempt (Some (ErrIO ''refused'')), example_attempt None]"
  let ?d = "\<lparr>dl_TokenPath = ''/t'', dl_CAPath = ''/ca'', dl_ServerName = ''c'', dl_MaxSession = 300 * time_Second\<rparr>"
  have "\<exists>s' evs. sink_Start ?xs ?d time_Second (session_close example_sink) = (s', evs, [time_Second], False)"
    by (simp add: example_attempt_def session_def dial_options_def transportCreds_def session_requires_tls_def session_close_def
      session_open_def on_ack_def backoff_step_def Let_def session_cap_def)
  then obtain s' evs where r: "sink_Start ?xs ?d time_Second (session_close example_sink) = (s', evs, [time_Second], False)" by blast
  have "gs_stream (session_close example_sink) = None" by (simp add: session_close_def)
  from reconnects_until_cancelled [OF r this] r show ?thesis
    by (auto simp: example_attempt_def keeps_stream_def)
qed

end
