(* ===== verification/Agent_Main.thy ===== *)
theory Agent_Main
  imports Agent_Report Sink_Session
begin

text \<open>
  \<^verbatim>\<open>cmd/agent/main.go\<close> and the loop of \<^verbatim>\<open>agent.go\<close>: the checks at start-up, the wiring of the sink and
  of the agent, and the agent's life as a sequence of wake-ups, each of which runs one sweep.
  Parsing the flags and the calls that connect to the runtime, to the API server and to
  controller-runtime are parameters: whether each of them fails.
\<close>

section \<open>Start-up\<close>

record agent_flags =
  fl_nodeName :: string
  fl_resync :: int
  fl_ctrlAddr :: string
  fl_ctrlName :: string
  fl_tokenPath :: string
  fl_caPath :: string
  fl_refresh :: int
  fl_pathMode :: string
  fl_probeEvery :: int
  fl_probeWait :: int
  fl_failK :: int
  fl_successM :: int
  fl_evalMode :: bool
  fl_endpoint :: string
  fl_eventsFile :: string
  fl_probeAddr :: string
  fl_metricsAddr :: string
  fl_maxSession :: int

text \<open>The defaults; three of them come from the environment.\<close>

definition default_agent_flags :: "(string \<Rightarrow> string) \<Rightarrow> agent_flags" where
  "default_agent_flags getenv = \<lparr>fl_nodeName = getenv ''NODE_NAME'', fl_resync = 2 * time_Second,
     fl_ctrlAddr = getenv ''CONTROLLER_ADDRESS'', fl_ctrlName = getenv ''CONTROLLER_SERVER_NAME'',
     fl_tokenPath = ''/var/run/secrets/multus-service/health-token'', fl_caPath = ''/etc/multus-service/ca/ca.crt'',
     fl_refresh = time_Second, fl_pathMode = PathNone, fl_probeEvery = 500000000, fl_probeWait = 400000000,
     fl_failK = 3, fl_successM = 2, fl_evalMode = False, fl_endpoint = ''unix:///run/k3s/containerd/containerd.sock'',
     fl_eventsFile = ''-'', fl_probeAddr = '':8081'', fl_metricsAddr = ''0'', fl_maxSession = 300 * time_Second\<rparr>"

text \<open>The message of the check that refuses to start.\<close>

definition start_refused :: "agent_flags \<Rightarrow> string option" where
  "start_refused fl =
     (if fl_nodeName fl = [] then Some ''--node-name or NODE_NAME is required''
      else if fl_evalMode fl \<and> fl_pathMode fl \<noteq> PathICMP then Some ''--evaluation-mode requires a real path probe''
      else if fl_pathMode fl = PathNone \<or> fl_pathMode fl = PathAssumeReady \<or> fl_pathMode fl = PathICMP then None
      else Some ''unknown --path-probe'')"

definition hostOf :: "string \<Rightarrow> string" where
  "hostOf addr = (if CHR '':'' \<in> set addr then rev (tl (dropWhile (\<lambda>c. c \<noteq> CHR '':'') (rev addr))) else addr)"

definition wire_sink :: "(string \<Rightarrow> bool) \<Rightarrow> string \<Rightarrow> agent_flags \<Rightarrow> (GRPCSink \<times> dial) option" where
  "wire_sink exists instanceID fl =
     (if fl_ctrlAddr fl \<noteq> [] then
        (let usableCA = (if \<not> exists (fl_caPath fl) then [] else fl_caPath fl);
             usableTok = (if \<not> exists (fl_tokenPath fl) then [] else fl_tokenPath fl);
             sn = (if fl_ctrlName fl = [] then hostOf (fl_ctrlAddr fl) else fl_ctrlName fl) in
         Some (\<lparr>gs_Addr = fl_ctrlAddr fl, gs_NodeName = fl_nodeName fl, gs_InstanceID = instanceID, gs_Refresh = fl_refresh fl,
                gs_stream = None, gs_needSnapshot = False, gs_lastSnapshot = time_zero, gs_seq = 0, gs_epoch = 0\<rparr>,
           \<lparr>dl_TokenPath = usableTok, dl_CAPath = usableCA, dl_ServerName = sn, dl_MaxSession = fl_maxSession fl\<rparr>))
      else None)"

text \<open>The agent, as \<^verbatim>\<open>Start\<close> leaves it before the first sweep.\<close>

definition new_agent :: "(string \<Rightarrow> bool) \<Rightarrow> string \<Rightarrow> agent_flags \<Rightarrow> Agent" where
  "new_agent exists instanceID fl = \<lparr>ag_NodeName = fl_nodeName fl, ag_Resolver = [], ag_Monitor = NewMonitor 256,
     ag_Sink = map_option fst (wire_sink exists instanceID fl), ag_PathMode = fl_pathMode fl,
     ag_Probes = (if fl_pathMode fl = PathICMP
       then Some (NewManager (fl_probeEvery fl) (fl_failK fl) (fl_successM fl) (fl_nodeName fl)) else None),
     ag_ProbeTimeout = fl_probeWait fl, ag_prev = []\<rparr>"

text \<open>\<open>fails msg\<close> says whether the call that is logged as \<open>msg\<close> fails; \<open>Inl msg\<close> is exit 1.\<close>

definition agent_main :: "(string \<Rightarrow> bool) \<Rightarrow> (string \<Rightarrow> bool) \<Rightarrow> string \<Rightarrow> agent_flags \<Rightarrow> string + Agent \<times> dial option" where
  "agent_main fails exists instanceID fl = (case start_refused fl of
      Some msg \<Rightarrow> Inl msg
    | None \<Rightarrow>
        if fails ''opening events file'' then Inl ''opening events file''
        else if fails ''connecting to the container runtime'' then Inl ''connecting to the container runtime''
        else if fails ''creating manager'' then Inl ''creating manager''
        else if fl_ctrlAddr fl \<noteq> [] \<and> fails ''registering health sink'' then Inl ''registering health sink''
        else if fl_pathMode fl = PathICMP \<and> fails ''registering probe manager'' then Inl ''registering probe manager''
        else if fails ''registering agent'' then Inl ''registering agent''
        else if fails ''adding healthz'' then Inl ''adding healthz''
        else if fails ''adding readyz'' then Inl ''adding readyz''
        else Inr (new_agent exists instanceID fl, map_option snd (wire_sink exists instanceID fl)))"

section \<open>The loop\<close>

text \<open>
  One sweep, and the snapshot it published, if it got that far. A wake-up of the monitor is received
  with everything queued behind it; the wake-up of the probe manager is a flag.
\<close>

definition drain :: "Monitor \<Rightarrow> Monitor" where
  "drain m = m\<lparr>mo_out := []\<rparr>"

definition swept :: "'sel label_lib \<Rightarrow> sweep_env \<Rightarrow> Agent \<times> Snapshot list \<Rightarrow> Agent \<times> Snapshot list" where
  "swept L e st = (fst (sweep L e (fst st)),
     case sweep_snapshot L e (fst st) of None \<Rightarrow> snd st | Some (_, snap, _) \<Rightarrow> snap # snd st)"

text \<open>
  The agent between its start and the end of its context, with the snapshots of its sweeps, newest
  first. The last four rules are its surroundings: a pump that wakes it or ends, the probe manager, and
  the sink's session.
\<close>

inductive agent_reach :: "'sel label_lib \<Rightarrow> Agent \<Rightarrow> Agent \<times> Snapshot list \<Rightarrow> bool" for L a0 where
  start: "\<forall>l. set (se_order e l) = set l \<Longrightarrow> agent_reach L a0 (swept L e (a0, []))"
| tick: "agent_reach L a0 st \<Longrightarrow> \<forall>l. set (se_order e l) = set l \<Longrightarrow> agent_reach L a0 (swept L e st)"
| netlink: "agent_reach L a0 (a, ss) \<Longrightarrow> mo_out (ag_Monitor a) \<noteq> [] \<Longrightarrow> \<forall>l. set (se_order e l) = set l \<Longrightarrow>
    agent_reach L a0 (swept L e (a\<lparr>ag_Monitor := drain (ag_Monitor a)\<rparr>, ss))"
| probe: "agent_reach L a0 (a, ss) \<Longrightarrow> ag_Probes a = Some m \<Longrightarrow> mg_wake m \<Longrightarrow> \<forall>l. set (se_order e l) = set l \<Longrightarrow>
    agent_reach L a0 (swept L e (a\<lparr>ag_Probes := Some (m\<lparr>mg_wake := False\<rparr>)\<rparr>, ss))"
| pump: "agent_reach L a0 (a, ss) \<Longrightarrow> gm_get (mo_watching (ag_Monitor a)) u = Some s \<Longrightarrow> pump_runs (ag_Monitor a) s \<Longrightarrow>
    agent_reach L a0 (a\<lparr>ag_Monitor := mon_wake u (ag_Monitor a)\<rparr>, ss)"
| exits: "agent_reach L a0 (a, ss) \<Longrightarrow> gm_get (mo_watching (ag_Monitor a)) u = Some s \<Longrightarrow>
    agent_reach L a0 (a\<lparr>ag_Monitor := pump_exit s (ag_Monitor a)\<rparr>, ss)"
| probes: "agent_reach L a0 (a, ss) \<Longrightarrow> agent_reach L a0 (a\<lparr>ag_Probes := p\<rparr>, ss)"
| session: "agent_reach L a0 (a, ss) \<Longrightarrow> agent_reach L a0 (a\<lparr>ag_Sink := s\<rparr>, ss)"

text \<open>The deferred close when the context ends.\<close>

definition agent_stop :: "Agent \<Rightarrow> Agent" where
  "agent_stop a = a\<lparr>ag_Monitor := mon_Close (ag_Monitor a)\<rparr>"

section \<open>Lemmas\<close>

lemma sweep_turn_monitor: "mon_ok (sg_monitor g) \<Longrightarrow> mon_ok (sg_monitor (sweep_turn a now te at g))"
proof -
  assume ok: "mon_ok (sg_monitor g)"
  have 1: "mon_ok (sg_monitor g1)" if "resolve_turn te (att_PodUID at) g = (g1, oh)" for g1 oh
    using that ok mon_ok_Ensure [OF ok] by (auto simp: resolve_turn_def split: option.splits sum.splits prod.splits)
  have 2: "sg_monitor g2 = sg_monitor g1" if "inspect_turn te h u f g1 = (g2, ol)" for g1 g2 h u f ol
    using that by (auto simp: inspect_turn_def split: option.splits sum.splits)
  have 3: "sg_monitor (observe_turn a now te at h l g2) = sg_monitor g2" for h l g2
    by (auto simp: observe_turn_def probe_turn_def transition_def Let_def split: option.splits)
  obtain g1 oh where r: "resolve_turn te (att_PodUID at) g = (g1, oh)" by fastforce
  show ?thesis
    using 1 [OF r] by (auto simp: sweep_turn_def r 3 dest: 2 split: prod.splits option.splits)
qed

lemma sweep_loop_monitor: "mon_ok (ag_Monitor a) \<Longrightarrow> mon_ok (sg_monitor (sweep_loop a now te atts))"
proof (induction atts rule: rev_induct)
  case Nil
  then show ?case by (simp add: sweep_loop_def sweep_start_def)
next
  case (snoc at atts)
  then show ?case by (simp add: sweep_loop_snoc sweep_turn_monitor)
qed

lemma forget_pods_monitor: "mon_ok (sg_monitor g) \<Longrightarrow> mon_ok (sg_monitor (fold forget_pod us g))"
proof (induction us arbitrary: g)
  case (Cons u us)
  have "mon_ok (sg_monitor (forget_pod u g))"
    using Cons.prems mon_ok_run [of "sg_monitor g" "MForget u"] by (simp add: forget_pod_def)
  then show ?case using Cons.IH by simp
qed simp

lemma snapshot_agent:
  assumes "sweep_snapshot L e a = Some (a', snap, evs)"
  shows "mon_ok (ag_Monitor a) \<Longrightarrow> mon_ok (ag_Monitor a')"
    and "ag_NodeName a' = ag_NodeName a" and "ag_PathMode a' = ag_PathMode a"
    and "\<forall>r \<in> set (sn_Locals snap). lh_NodeName r = ag_NodeName a"
proof -
  from assms obtain atts where atts: "targets L (se_Services e) (se_Pods e) = Inr atts"
    by (auto simp: sweep_snapshot_def split: sum.splits)
  let ?g = "sweep_loop a (se_now e) (se_turn e) atts"
  obtain g gone where r: "retire (se_order e) ?g = (g, gone)" by fastforce
  have a': "ag_Monitor a' = sg_monitor g" "ag_NodeName a' = ag_NodeName a" "ag_PathMode a' = ag_PathMode a" "sn_Locals snap = sg_locals ?g"
    using assms atts r retire_fields [OF r] by (auto simp: sweep_snapshot_def split: prod.splits)
  show "mon_ok (ag_Monitor a')" if "mon_ok (ag_Monitor a)"
    using forget_pods_monitor sweep_loop_monitor [OF that] r by (auto simp: a' retire_def Let_def)
  show "ag_NodeName a' = ag_NodeName a" "ag_PathMode a' = ag_PathMode a" by (simp_all add: a')
  have "grounded a (se_now e) (se_turn e) (length atts) (set atts) ?g" by (rule sweep_loop_grounded)
  then show "\<forall>r \<in> set (sn_Locals snap). lh_NodeName r = ag_NodeName a"
    unfolding grounded_def a'(4) by (fastforce simp: observation_def)
qed

text \<open>What a listener knows that heard every delta, from the oldest snapshot on.\<close>

fun heard :: "Snapshot list \<Rightarrow> string \<Rightarrow> bool option" where
  "heard [] = Map.empty"
| "heard (snap # snaps) = fold hear (delta_msgs snap) (heard snaps)"

definition agent_ok :: "Agent \<Rightarrow> Agent \<times> Snapshot list \<Rightarrow> bool" where
  "agent_ok a0 st \<longleftrightarrow> mon_ok (ag_Monitor (fst st)) \<and> ag_NodeName (fst st) = ag_NodeName a0 \<and> ag_PathMode (fst st) = ag_PathMode a0 \<and>
     gm_get (ag_prev (fst st)) = (case snd st of [] \<Rightarrow> Map.empty | snap # _ \<Rightarrow> last_seen (sn_Locals snap)) \<and>
     heard (snd st) = gm_get (ag_prev (fst st)) \<and>
     (\<forall>snap \<in> set (snd st). \<forall>r \<in> set (sn_Locals snap). lh_NodeName r = ag_NodeName a0)"

lemma swept_ok:
  assumes ok: "agent_ok a0 st" and order: "\<forall>l. set (se_order e l) = set l"
  shows "agent_ok a0 (swept L e st)"
proof (cases "sweep_snapshot L e (fst st)")
  case None
  then show ?thesis using ok by (simp add: swept_def sweep_def)
next
  case (Some x)
  obtain a1 snap evs where x: "x = (a1, snap, evs)" by (cases x)
  note s = Some [unfolded x] and o = ok [unfolded agent_ok_def]
  have f: "fst (sweep L e (fst st)) = a1\<lparr>ag_Sink := ag_Sink (fst (sweep L e (fst st)))\<rparr>"
    by (auto simp: sweep_def s split: option.split prod.split)
  note m = sweep_deltas [OF s order, unfolded delta_list]
  have "agent_ok a0 (a1\<lparr>ag_Sink := ag_Sink (fst (sweep L e (fst st)))\<rparr>, snap # snd st)"
    using o m snapshot_agent [OF s] by (simp add: agent_ok_def)
  then show ?thesis using f by (simp add: swept_def s)
qed

lemma swept_start_ok:
  assumes "ag_prev a0 = []" and "ag_Monitor a0 = NewMonitor buf"
  shows "agent_ok a0 (a0, [])"
  using assms by (simp add: agent_ok_def mon_ok_New fun_eq_iff gm_get_def)

lemma agent_reach_ok:
  assumes "agent_reach L a0 st" and "ag_prev a0 = []" and "ag_Monitor a0 = NewMonitor buf"
  shows "agent_ok a0 st"
  using assms(1)
proof (induction rule: agent_reach.induct)
  case (start e)
  then show ?case using swept_ok swept_start_ok [OF assms(2,3)] by blast
next
  case (tick st e)
  then show ?case using swept_ok by blast
next
  case (netlink a ss e)
  have "mon_ok (drain (ag_Monitor a))" using netlink mon_ok_run [of "ag_Monitor a" MDrain] by (simp add: agent_ok_def drain_def)
  then have "agent_ok a0 (a\<lparr>ag_Monitor := drain (ag_Monitor a)\<rparr>, ss)" using netlink by (simp add: agent_ok_def)
  then show ?case using swept_ok netlink by blast
next
  case (probe a ss m e)
  then have "agent_ok a0 (a\<lparr>ag_Probes := Some (m\<lparr>mg_wake := False\<rparr>)\<rparr>, ss)" by (simp add: agent_ok_def)
  then show ?case using swept_ok probe by blast
next
  case (pump a ss u s)
  have "mon_ok (mon_wake u (ag_Monitor a))" using pump mon_ok_run [of "ag_Monitor a" "MWake u"] by (simp add: agent_ok_def)
  then show ?case using pump by (simp add: agent_ok_def)
next
  case (exits a ss u s)
  have "mon_ok (pump_exit s (ag_Monitor a))" using exits mon_ok_run [of "ag_Monitor a" "MExit s"] by (simp add: agent_ok_def)
  then show ?case using exits by (simp add: agent_ok_def)
qed (simp_all add: agent_ok_def)

section \<open>Properties\<close>

text \<open>
  C18. Whatever wakes the agent, in whatever order, its memory is what its last sweep observed, and a
  listener that heard the deltas of all its sweeps knows exactly that; every report it made names its
  own node; the subscription of every namespace it watches is open, and after the stop it watches none.
\<close>

theorem agent_memory_is_its_last_report:
  assumes "agent_reach L (new_agent exists instanceID fl) (a, snaps)"
  shows "gm_get (ag_prev a) = (case snaps of [] \<Rightarrow> Map.empty | snap # _ \<Rightarrow> last_seen (sn_Locals snap)) \<and>
    heard snaps = gm_get (ag_prev a) \<and>
    (\<forall>snap \<in> set snaps. \<forall>r \<in> set (sn_Locals snap). lh_NodeName r = fl_nodeName fl) \<and>
    (\<forall>u s. gm_get (mo_watching (ag_Monitor a)) u = Some s \<longrightarrow> sub_open (ag_Monitor a) s) \<and>
    Watching (ag_Monitor (agent_stop a)) = []"
proof -
  have ok: "agent_ok (new_agent exists instanceID fl) (a, snaps)"
    by (rule agent_reach_ok [OF assms]) (simp_all add: new_agent_def)
  then have mon: "mon_ok (ag_Monitor a)" by (simp add: agent_ok_def)
  then have "mon_ok (mon_Close (ag_Monitor a))" using mon_ok_run [of "ag_Monitor a" MClose] by simp
  moreover have "mo_closed (mon_Close (ag_Monitor a))" by (simp add: mon_Close_def)
  ultimately have "Watching (ag_Monitor (agent_stop a)) = []"
    by (simp add: agent_stop_def Watching_def gm_keys_def mon_ok_def)
  then show ?thesis using ok mon by (simp add: agent_ok_def mon_ok_def new_agent_def)
qed

definition example_flags :: agent_flags where
  "example_flags = \<lparr>fl_nodeName = ''n1'', fl_resync = 2 * time_Second, fl_ctrlAddr = ''controller:8443'', fl_ctrlName = [],
     fl_tokenPath = ''/token'', fl_caPath = ''/ca.crt'', fl_refresh = time_Second, fl_pathMode = PathICMP,
     fl_probeEvery = 1, fl_probeWait = 400000000, fl_failK = 3, fl_successM = 1, fl_evalMode = True,
     fl_endpoint = [], fl_eventsFile = [], fl_probeAddr = [], fl_metricsAddr = [], fl_maxSession = 0\<rparr>"

lemma agent_memory_is_its_last_report_witness:
  "\<exists>a snaps. agent_reach example_labels (new_agent (\<lambda>_. True) ''i1'' example_flags) (a, snaps) \<and> length snaps = 1 \<and>
     heard snaps = gm_get (ag_prev a)"
proof -
  let ?e = "example_sweep_env [example_net_svc]" and ?a = "new_agent (\<lambda>_. True) ''i1'' example_flags"
  obtain a' snap evs where s: "sweep_snapshot example_labels ?e ?a = Some (a', snap, evs)"
    using sweep_snapshot_total [OF example_env_targets] by (metis prod_cases3)
  obtain a snaps where st: "swept example_labels ?e (?a, []) = (a, snaps)" by fastforce
  have "agent_reach example_labels ?a (swept example_labels ?e (?a, []))"
    by (rule agent_reach.start) (simp add: example_sweep_env_def)
  then have r: "agent_reach example_labels ?a (a, snaps)" by (simp add: st)
  have "snaps = [snap]" using st s by (simp add: swept_def)
  then have "length snaps = 1" by simp
  moreover have "heard snaps = gm_get (ag_prev a)" using agent_memory_is_its_last_report [OF r] by blast
  ultimately show ?thesis using r by blast
qed

text \<open>What the probe loop may do to its manager: whatever its own steps do.\<close>

definition probe_moves :: "int \<Rightarrow> int \<Rightarrow> int \<Rightarrow> string \<Rightarrow> (Manager \<Rightarrow> Manager) \<Rightarrow> bool" where
  "probe_moves i f g node h \<longleftrightarrow> (\<forall>y. probe_reach i f g node y \<longrightarrow> (\<exists>y'. probe_reach i f g node y' \<and> py_mgr y' = h (py_mgr y)))"

text \<open>
  An agent started for an evaluation reports no path verdict that was not measured: each one is
  what the samples of its machine decide, and there was at least one sample. Between the calls of a
  sweep the probe manager only takes its own steps.
\<close>

theorem evaluation_is_measured:
  assumes "start_refused fl = None" and "fl_evalMode fl" and "ag_PathMode a = fl_pathMode fl"
    and "ag_Probes a = Some (py_mgr y)" and "probe_reach (fl_probeEvery fl) (fl_failK fl) (fl_successM fl) (fl_nodeName fl) y"
    and "probe_moves (fl_probeEvery fl) (fl_failK fl) (fl_successM fl) (fl_nodeName fl) (se_mid e)"
    and "sweep_snapshot L e a = Some (a', snap, evs)" and "p \<in> set (sn_Paths snap)"
  shows "\<exists>y' h mc. probe_reach (fl_probeEvery fl) (fl_failK fl) (fl_successM fl) (fl_nodeName fl) y' \<and>
    gm_get (mg_machines (py_mgr y')) (ph_ScopeID p) = Some mc \<and> mc_samples mc = int (length h) \<and> h \<noteq> [] \<and>
    ph_PathReady p = last_run True (threshold (fl_successM fl)) (threshold (fl_failK fl)) h"
proof -
  let ?R = "probe_reach (fl_probeEvery fl) (fl_failK fl) (fl_successM fl) (fl_nodeName fl)"
  have icmp: "ag_PathMode a = PathICMP" using assms(1-3) by (auto simp: start_refused_def split: if_splits)
  from assms(7) obtain g probes changed where p: "path_phase e a g = (probes, sn_Paths snap, changed)"
    by (rule sweep_snapshot_Some)
  have "?R (y\<lparr>py_mgr := SetTargets (sg_specs g) (py_mgr y)\<rparr>)"
    by (rule probe_reach.step [OF assms(5) probe_step.targets])
  then obtain y' where y': "?R y'" "py_mgr y' = se_mid e (SetTargets (sg_specs g) (py_mgr y))"
    using assms(6) unfolding probe_moves_def by fastforce
  have "sn_Paths snap = States (se_states_now e) (py_mgr y')"
    using p by (simp add: path_phase_def icmp assms(4) y'(2) probe_phase_def Let_def PathAssumeReady_def PathICMP_def split: prod.splits)
  then have "p \<in> set (States (se_states_now e) (py_mgr y'))" using assms(8) by simp
  from States_verdict [OF y'(1) this] obtain h mc where
    h: "ph_PathReady p = last_run True (threshold (fl_successM fl)) (threshold (fl_failK fl)) h"
      "last_run True (threshold (fl_successM fl)) (threshold (fl_failK fl)) h \<or> last_run False (threshold (fl_failK fl)) (threshold (fl_successM fl)) h"
    and mc: "gm_get (mg_machines (py_mgr y')) (ph_ScopeID p) = Some mc" "mc_samples mc = int (length h)"
    by blast
  have "h \<noteq> []" using h(2) by (auto simp: last_run_def threshold_def)
  then show ?thesis using h mc y'(1) by blast
qed

lemma evaluation_is_measured_witness:
  "start_refused example_flags = None \<and> fl_evalMode example_flags \<and> (\<exists>y (h :: bool list) mc. probe_reach 1 3 1 ''n1'' y \<and>
    gm_get (mg_machines (py_mgr y)) ''a'' = Some mc \<and> mc_samples mc = int (length h) \<and> h \<noteq> [])"
proof -
  let ?e = "(example_sweep_env [])\<lparr>se_mid := \<lambda>_. py_mgr example_sys\<rparr>"
  have fl: "start_refused example_flags = None" "fl_evalMode example_flags" "fl_pathMode example_flags = PathICMP"
    "fl_probeEvery example_flags = 1" "fl_failK example_flags = 3" "fl_successM example_flags = 1" "fl_nodeName example_flags = ''n1''"
    by (simp_all add: example_flags_def start_refused_def)
  have ag: "ag_PathMode (example_agent PathICMP) = fl_pathMode example_flags"
    "ag_Probes (example_agent PathICMP) = Some (py_mgr (probe_init 1 3 1 ''n1''))"
    by (simp_all add: example_agent_def fl probe_init_def)
  have t: "targets example_labels (se_Services ?e) (se_Pods ?e) = Inr []"
    by (simp add: example_sweep_env_def targets_def)
  obtain a' snap evs where s: "sweep_snapshot example_labels ?e (example_agent PathICMP) = Some (a', snap, evs)"
    using sweep_snapshot_total [OF t] by (metis prod_cases3)
  from s obtain g probes changed where p: "path_phase ?e (example_agent PathICMP) g = (probes, sn_Paths snap, changed)"
    by (rule sweep_snapshot_Some)
  have "sn_Paths snap = States 8 (py_mgr example_sys)"
    using p by (simp add: path_phase_def example_agent_def probe_phase_def Let_def PathAssumeReady_def PathICMP_def example_sweep_env_def
      split: prod.splits)
  moreover have "map ph_ScopeID (States 8 (py_mgr example_sys)) = [''a'']"
    unfolding example_sys_def by code_simp
  ultimately obtain q where q: "q \<in> set (sn_Paths snap)" "ph_ScopeID q = ''a''" by (cases "sn_Paths snap") auto
  have m: "probe_moves (fl_probeEvery example_flags) (fl_failK example_flags) (fl_successM example_flags) (fl_nodeName example_flags) (se_mid ?e)"
    using example_reach by (auto simp: probe_moves_def fl)
  have r: "probe_reach (fl_probeEvery example_flags) (fl_failK example_flags) (fl_successM example_flags) (fl_nodeName example_flags)
      (probe_init 1 3 1 ''n1'')"
    using probe_reach.init [of 1 3 1 "''n1''"] by (simp add: fl)
  obtain y mc and h :: "bool list" where "probe_reach 1 3 1 ''n1'' y" "gm_get (mg_machines (py_mgr y)) ''a'' = Some mc" "mc_samples mc = int (length h)" "h \<noteq> []"
    using evaluation_is_measured [OF fl(1,2) ag r m s q(1), unfolded fl(4-7) q(2)] by blast
  then show ?thesis using fl(1,2) by metis
qed

text \<open>
  A CA file that is missing at start-up turns the connection into plaintext without a refusal,
  and the bearer token, if its file is there, is then sent over it: the credential is wired not to
  require transport security.
\<close>

theorem missing_ca_sends_the_token_in_plaintext:
  assumes "fl_ctrlAddr fl \<noteq> []" and "\<not> exists (fl_caPath fl)" and "exists (fl_tokenPath fl)" and "fl_tokenPath fl \<noteq> []"
  shows "\<exists>sink d. wire_sink exists instanceID fl = Some (sink, d) \<and> dl_TokenPath d = fl_tokenPath fl \<and>
    transportCreds fromFile (dl_CAPath d) (dl_ServerName d) = Inr None \<and>
    session_requires_tls (None :: 'c option) (dl_TokenPath d) = Some False"
  using assms by (simp add: wire_sink_def Let_def transportCreds_def session_requires_tls_def)

lemma missing_ca_sends_the_token_in_plaintext_witness:
  "\<exists>sink d. wire_sink (\<lambda>p. p = ''/token'') ''i1'' example_flags = Some (sink, d) \<and> dl_TokenPath d = ''/token'' \<and>
     session_requires_tls (None :: nat option) (dl_TokenPath d) = Some False"
proof -
  have f: "fl_ctrlAddr example_flags \<noteq> []" "\<not> (\<lambda>p. p = ''/token'') (fl_caPath example_flags)"
    "(\<lambda>p. p = ''/token'') (fl_tokenPath example_flags)" "fl_tokenPath example_flags \<noteq> []"
    by (simp_all add: example_flags_def)
  show ?thesis
    using missing_ca_sends_the_token_in_plaintext [OF f, where fromFile = "\<lambda>_ _. Inr (0 :: nat)" and instanceID = "''i1''"] f(3) by auto
qed

lemma hostOf_port: "CHR '':'' \<notin> set port \<Longrightarrow> hostOf (host @ '':'' @ port) = host"
proof -
  assume "CHR '':'' \<notin> set port"
  then have "dropWhile (\<lambda>c. c \<noteq> CHR '':'') (rev port @ CHR '':'' # rev host) = CHR '':'' # rev host"
    by (subst dropWhile_append2) auto
  then show ?thesis by (simp add: hostOf_def)
qed

end
