(* ===== verification/Heartbeat.thy ===== *)
theory Heartbeat
  imports Controller_Main Agent_Main
begin

text \<open>
  How often an agent renews the leases of its reports: \<^verbatim>\<open>Publish\<close> of \<^verbatim>\<open>grpc_sink.go\<close> decides between
  a full snapshot and the changes only, the loop of \<^verbatim>\<open>agent.go\<close> when it is called, and the flags of both
  programs fix the periods. The clock is part of the history.
\<close>

section \<open>A quiet session\<close>

text \<open>
  Publishes of one open stream whose sends succeed. Each has the instants at which it reads the
  clock, before the choice and after a snapshot, the acknowledgements handled meanwhile, and what
  it publishes.
\<close>

type_synonym beat = "int \<times> int \<times> HealthAck list \<times> Snapshot"

definition acks :: "HealthAck list \<Rightarrow> GRPCSink \<Rightarrow> GRPCSink" where
  "acks as s = fold (\<lambda>a s. fst (on_ack a s)) as s"

fun beat_step :: "beat \<Rightarrow> GRPCSink \<Rightarrow> GRPCSink" where
  "beat_step (now, now', as, snap) s = fst (Publish now now' (acks as) (\<lambda>_. None) snap s)"

fun beats :: "beat list \<Rightarrow> GRPCSink \<Rightarrow> GRPCSink" where
  "beats [] s = s"
| "beats (b # bs) s = beats bs (beat_step b s)"

text \<open>Which of them sent everything.\<close>

fun fulls :: "beat list \<Rightarrow> GRPCSink \<Rightarrow> bool list" where
  "fulls [] s = []"
| "fulls (b # bs) s = wants_full (fst b) s # fulls bs (beat_step b s)"

text \<open>
  The pace: a publish begins after the one before it ended (at \<open>q\<close>), and at most \<open>R\<close> after that
  one began (at \<open>p\<close>).
\<close>

fun paced :: "int \<Rightarrow> int \<Rightarrow> int \<Rightarrow> beat list \<Rightarrow> bool" where
  "paced R p q [] \<longleftrightarrow> True"
| "paced R p q ((now, now', as, snap) # bs) \<longleftrightarrow> q \<le> now \<and> now \<le> p + R \<and> now \<le> now' \<and> paced R now now' bs"

section \<open>Lemmas\<close>

lemma acks_Cons: "acks (a # as) s = acks as (fst (on_ack a s))"
  by (simp add: acks_def)

lemma acks_keep [simp]:
  "gs_stream (acks as s) = gs_stream s \<and> gs_Refresh (acks as s) = gs_Refresh s \<and> gs_lastSnapshot (acks as s) = gs_lastSnapshot s"
proof (induction as arbitrary: s)
  case (Cons a as)
  have "gs_stream (fst (on_ack a s)) = gs_stream s" "gs_Refresh (fst (on_ack a s)) = gs_Refresh s"
    "gs_lastSnapshot (fst (on_ack a s)) = gs_lastSnapshot s" by (simp_all add: on_ack_def)
  with Cons [of "fst (on_ack a s)"] show ?case by (simp add: acks_Cons)
qed (simp add: acks_def)

lemma beat_keeps:
  assumes "gs_stream s \<noteq> None"
  shows "gs_stream (beat_step (now, now', as, snap) s) = gs_stream s"
    and "gs_Refresh (beat_step (now, now', as, snap) s) = gs_Refresh s"
    and "gs_lastSnapshot (beat_step (now, now', as, snap) s) = (if wants_full now s then now' else gs_lastSnapshot s)"
  using assms
  by (auto simp: Publish_def sendSnapshot_def sendDeltas_def send_list_ok Let_def split: prod.split)

lemma beat_needs:
  assumes "gs_stream s \<noteq> None" and "wants_full now s \<or> \<not> gs_needSnapshot s"
  shows "\<not> gs_needSnapshot (beat_step (now, now', [], snap) s)"
  using assms by (auto simp: Publish_def sendSnapshot_def sendDeltas_def send_list_ok Let_def acks_def split: prod.split)

text \<open>A publish that sends only changes comes less than a refresh period after the last snapshot.\<close>

lemma not_full: "\<not> wants_full now s \<Longrightarrow> gs_Refresh s < 2 ^ 63 \<Longrightarrow> now - gs_lastSnapshot s < gs_Refresh s"
  by (auto simp: wants_full_def time_sub_def)

lemma beats_age:
  assumes "gs_stream s \<noteq> None" and "gs_Refresh s < 2 ^ 63" and "0 < gs_Refresh s"
    and "p - gs_lastSnapshot s < gs_Refresh s" and "paced R p q (bs @ [(n, n', as, snap)])"
  shows "n - gs_lastSnapshot (beats bs s) < gs_Refresh s + R"
  using assms
proof (induction bs arbitrary: s p q)
  case Nil
  then show ?case by simp
next
  case (Cons b bs)
  obtain now now' a sn where b: "b = (now, now', a, sn)" by (metis prod_cases4)
  note k = beat_keeps [OF Cons.prems(1), of now now' a sn]
  have pace: "now \<le> now'" "paced R now now' (bs @ [(n, n', as, snap)])" using Cons.prems(5) by (simp_all add: b)
  have "now - gs_lastSnapshot (beat_step b s) < gs_Refresh (beat_step b s)"
    using k pace(1) not_full [of now s] Cons.prems(2,3) by (auto simp: b)
  from Cons.IH [OF _ _ _ this, of now'] show ?case
    using Cons.prems(1-3) k pace(2) by (simp add: b del: beat_step.simps)
qed

section \<open>Properties\<close>

text \<open>
  C35. The lease of every report is renewed in time: on an open stream whose sends succeed, with
  publishes at most \<open>R\<close> apart, every publish after the first full one finds the last full snapshot
  less than \<open>Refresh + R\<close> old, whatever is acknowledged in between.
\<close>

theorem full_snapshot_period:
  assumes "gs_stream s \<noteq> None" and "0 < gs_Refresh s" and "gs_Refresh s < 2 ^ 63"
    and "wants_full t s" and "t \<le> t'" and "paced R t t' (bs @ [(n, n', as', snap')])"
  shows "n - gs_lastSnapshot (beats ((t, t', as, snap) # bs) s) < gs_Refresh s + R"
proof -
  note k = beat_keeps [OF assms(1), of t t' as snap]
  have "t - gs_lastSnapshot (beat_step (t, t', as, snap) s) < gs_Refresh s"
    using k(3) assms(2,4,5) by simp
  from beats_age [OF _ _ _ _ assms(6), of "beat_step (t, t', as, snap) s"] this show ?thesis
    using assms(1-3) k(1,2) by (simp del: beat_step.simps)
qed

definition fresh_sink :: GRPCSink where
  "fresh_sink = example_sink\<lparr>gs_stream := Some 1, gs_needSnapshot := True, gs_Refresh := fl_refresh (default_agent_flags (\<lambda>_. []))\<rparr>"

definition no_sweep :: Snapshot where
  "no_sweep = \<lparr>sn_Locals = [], sn_Paths = [], sn_Changed = [], sn_Retired = []\<rparr>"

lemma full_snapshot_period_witness:
  "5 * 10 ^ 8 - gs_lastSnapshot (beats [(0, 0, [], no_sweep)] fresh_sink) < 3 * time_Second"
  using full_snapshot_period [of fresh_sink 0 0 "2 * time_Second" "[]" "5 * 10 ^ 8" "5 * 10 ^ 8" "[]" no_sweep "[]" no_sweep]
  by (simp add: fresh_sink_def default_agent_flags_def wants_full_def del: beats.simps)

text \<open>
  C36. With the default flags of both programs there is no slack: the refresh period and the resync period
  add up to the lease exactly. A publish between two ticks, of a changed path or interface, can shift the
  full snapshots so that two of them are anything short of the lease apart, with every publish in
  time and every send successful; if the second one takes just that much longer to be accepted than
  the first, the store has forgotten the agent's healthy reports when it arrives.
\<close>

theorem defaults_leave_no_slack:
  assumes "F = default_agent_flags getenv" and "gs_stream s \<noteq> None" and "gs_needSnapshot s" and "gs_Refresh s = fl_refresh F"
    and "0 < d" and "d \<le> fl_refresh F"
    and "held (hs_local hs) i = Some (r, t)" and "hs_ttl hs = cf_healthTTL default_flags" and "d < late"
  shows "fl_refresh F + fl_resync F = cf_healthTTL default_flags \<and>
    (\<exists>b1 b2 b3. fst b1 = 0 \<and> fst b3 = cf_healthTTL default_flags - d \<and> paced (fl_resync F) 0 0 [b1, b2, b3] \<and>
       fulls [b1, b2, b3] s = [True, False, True] \<and>
       LocalState hs (t + fst b3 + late) i = StateUnknown)"
proof -
  let ?b1 = "(0, 0, [], snap) :: beat" and ?b2 = "(time_Second - d, time_Second - d, [], snap) :: beat"
    and ?b3 = "(3 * time_Second - d, 3 * time_Second - d, [], snap) :: beat"
  have F: "fl_refresh F = time_Second" "fl_resync F = 2 * time_Second" "cf_healthTTL default_flags = 3 * time_Second"
    by (simp_all add: assms(1) default_agent_flags_def default_flags_def)
  have w1: "wants_full 0 s" using assms(3) by (simp add: wants_full_def)
  note k1 = beat_keeps [OF assms(2), of 0 0 "[]" snap]
  let ?s1 = "beat_step ?b1 s"
  have s1: "gs_stream ?s1 \<noteq> None" "gs_Refresh ?s1 = time_Second" "gs_lastSnapshot ?s1 = 0" "\<not> gs_needSnapshot ?s1"
    using k1 w1 assms(2,4) F(1) beat_needs [OF assms(2), of 0 0 snap] by (simp_all del: beat_step.simps)
  have w2: "\<not> wants_full (time_Second - d) ?s1" using s1 assms(5) by (simp add: wants_full_def time_sub_def del: beat_step.simps)
  let ?s2 = "beat_step ?b2 ?s1"
  have s2: "gs_Refresh ?s2 = time_Second" "gs_lastSnapshot ?s2 = 0"
    using beat_keeps [OF s1(1), of "time_Second - d" "time_Second - d" "[]" snap] s1 w2 by (simp_all del: beat_step.simps)
  have w3: "wants_full (3 * time_Second - d) ?s2" using s2 assms(5,6) F(1) by (simp add: wants_full_def time_sub_def del: beat_step.simps)
  have "LocalState hs (t + (3 * time_Second - d) + late) i = StateUnknown"
    using assms(7-9) F(3) by (simp add: LocalState_held verdict_def time_sub_def)
  moreover have "paced (fl_resync F) 0 0 [?b1, ?b2, ?b3]" using assms(5,6) F by simp
  moreover have "fulls [?b1, ?b2, ?b3] s = [True, False, True]" using w1 w2 w3 by (simp del: beat_step.simps)
  ultimately show ?thesis
    using F by (intro conjI exI [of _ ?b1] exI [of _ ?b2] exI [of _ ?b3]) simp_all
qed

lemma defaults_leave_no_slack_witness:
  "\<exists>b1 b2 b3. paced (2 * time_Second) 0 0 [b1, b2, b3] \<and> fulls [b1, b2, b3] fresh_sink = [True, False, True] \<and>
     fst b1 = 0 \<and> fst b3 = 3 * time_Second - 1"
proof -
  let ?hs = "(NewHealthStore (3 * time_Second))\<lparr>hs_local := gm_put ''a'' (new_entry example_origin 0 example_local) []\<rparr>"
  have h: "held (hs_local ?hs) ''a'' = Some (example_local, 0)" "hs_ttl ?hs = cf_healthTTL default_flags"
    by (simp_all add: NewHealthStore_def default_flags_def)
  have s: "gs_stream fresh_sink \<noteq> None" "gs_needSnapshot fresh_sink" "gs_Refresh fresh_sink = fl_refresh (default_agent_flags (\<lambda>_. []))"
    by (simp_all add: fresh_sink_def)
  have d: "(0 :: int) < 1" "1 \<le> fl_refresh (default_agent_flags (\<lambda>_. []))" "(1 :: int) < 2"
    "fl_resync (default_agent_flags (\<lambda>_. [])) = 2 * time_Second" "cf_healthTTL default_flags = 3 * time_Second"
    by (simp_all add: default_agent_flags_def default_flags_def)
  from defaults_leave_no_slack [OF refl s d(1,2) h d(3)] show ?thesis unfolding d(4,5) by blast
qed

end
