(* ===== verification/Report_Mirror.thy ===== *)
theory Report_Mirror
  imports Heartbeat
begin

text \<open>
  Both ends of a report stream together: what the sweeps of an agent put on the stream, as
  \<^verbatim>\<open>agent.go\<close> and \<^verbatim>\<open>grpc_sink.go\<close> send it, and what becomes of it in the controller's store, as
  \<^verbatim>\<open>health_server.go\<close> and \<^verbatim>\<open>health_store.go\<close> take it in. The abstraction is the agent's memory of what
  it reported last; the store is shown to be an image of it after every sweep.
\<close>

section \<open>The abstraction\<close>

text \<open>What the store says of a node: the readiness of the reports it holds from it.\<close>

definition node_view :: "HealthStore \<Rightarrow> string \<Rightarrow> string \<Rightarrow> bool option" where
  "node_view hs node i = (case gm_get (hs_local hs) i of
      Some e \<Rightarrow> if lh_NodeName (e_Report e) = node then Some (lh_Ready (e_Report e)) else None
    | None \<Rightarrow> None)"

text \<open>What one message does to that view: a report of an attachment that is not published is refused.\<close>

definition hear_at :: "Registry \<Rightarrow> string \<Rightarrow> Payload \<Rightarrow> (string \<Rightarrow> bool option) \<Rightarrow> (string \<Rightarrow> bool option)" where
  "hear_at R node p told = (case p of
      PLocal m \<Rightarrow> if localFrom R node m = None then told
        else told(pbl_AttachmentId m \<mapsto> pbl_InterfaceExists m \<and> pbl_AddressPresent m \<and> pbl_LinkUsable m)
    | PRetired i \<Rightarrow> told(i := None)
    | _ \<Rightarrow> told)"

section \<open>One message\<close>

definition seq_below :: "string \<Rightarrow> 64 word \<Rightarrow> HealthStore \<Rightarrow> bool" where
  "seq_below inst q hs \<longleftrightarrow> (\<forall>e \<in> snd ` set (hs_local hs). or_AgentInstance (e_Origin e) = inst \<longrightarrow> or_Sequence (e_Origin e) \<le> q)"

definition live :: "string \<Rightarrow> string \<Rightarrow> Stream \<Rightarrow> bool" where
  "live node inst st \<longleftrightarrow> st_adopted st \<and> \<not> st_inSnapshot st \<and> st_node st = node \<and> st_instance st = inst"

definition quiet :: "Registry \<Rightarrow> server_env \<Rightarrow> bool" where
  "quiet R sv \<longleftrightarrow> sv_Registry sv = R \<and> sv_Notify sv \<and> sv_send sv = (\<lambda>_. None)"

definition store_ok :: "string \<Rightarrow> string \<Rightarrow> 64 word \<Rightarrow> HealthStore \<Rightarrow> bool" where
  "store_ok node inst q hs \<longleftrightarrow> hs_ok hs \<and> gm_get (hs_nodeInstance hs) node = Some inst \<and> seq_below inst q hs"

fun is_delta :: "Payload \<Rightarrow> bool" where
  "is_delta (PLocal _) \<longleftrightarrow> True"
| "is_delta (PPath _) \<longleftrightarrow> True"
| "is_delta (PRetired _) \<longleftrightarrow> True"
| "is_delta _ \<longleftrightarrow> False"

lemma seq_below_get:
  assumes "gm_wf (hs_local hs)"
  shows "seq_below inst q hs \<longleftrightarrow> (\<forall>i e. gm_get (hs_local hs) i = Some e \<longrightarrow>
    or_AgentInstance (e_Origin e) = inst \<longrightarrow> or_Sequence (e_Origin e) \<le> q)"
  using gm_mem_iff [OF assms] unfolding seq_below_def by force

lemma store_ok_mono: "store_ok node inst q hs \<Longrightarrow> q \<le> q' \<Longrightarrow> store_ok node inst q' hs"
  by (auto simp: store_ok_def seq_below_def intro: order_trans)

lemma store_ok_wf: "store_ok node inst q hs \<Longrightarrow> gm_wf (hs_local hs)"
  by (simp add: store_ok_def hs_ok_wf)

lemma store_ok_local:
  assumes "store_ok node inst q hs" and "q < q'" and "hs_ok hs'"
    and "hs_local hs' = gm_put i e (hs_local hs)" and "hs_nodeInstance hs' = hs_nodeInstance hs" and "or_Sequence (e_Origin e) = q'"
  shows "store_ok node inst q' hs'"
proof -
  have old: "or_Sequence (e_Origin f) \<le> q'" if "gm_get (hs_local hs) j = Some f" "or_AgentInstance (e_Origin f) = inst" for j f
  proof -
    have "or_Sequence (e_Origin f) \<le> q"
      using that assms(1) seq_below_get [OF store_ok_wf [OF assms(1)]] unfolding store_ok_def by blast
    then show ?thesis using assms(2) by simp
  qed
  have "seq_below inst q' hs'"
    unfolding seq_below_get [OF hs_ok_wf(1) [OF assms(3)]] assms(4) gm_get_put using old assms(6) by (auto split: if_splits)
  with assms(1,3,5) show ?thesis by (simp add: store_ok_def)
qed

lemma AcceptLocal_next:
  assumes "store_ok node inst q hs" and "q < or_Sequence og" and "or_NodeName og = node" and "or_AgentInstance og = inst"
  shows "AcceptLocal og r now hs = (hs\<lparr>hs_local := gm_put (lh_AttachmentID r) (new_entry og now r) (hs_local hs)\<rparr>, None)"
proof -
  have "in_order (gm_get (hs_local hs) (lh_AttachmentID r)) og"
    using assms seq_below_get [OF store_ok_wf [OF assms(1)]]
    by (auto simp: in_order_def store_ok_def split: option.split) (meson leD order_trans)
  with assms show ?thesis by (simp add: AcceptLocal_def currentLocked_def store_ok_def)
qed

text \<open>A report of the agent, on a stream that is in order, changes the view as \<open>hear_at\<close> says.\<close>

lemma delta_payload:
  assumes "live node inst st" and "is_delta p" and "env_Payload env = Some p" and "env_AgentInstanceId env = inst"
    and "quiet R sv" and "store_ok node inst q hs" and "q < env_Sequence env"
  shows "\<exists>st' hs' outs fl. on_payload sv env st hs = (st', hs', outs, fl) \<and> (fl = Fall \<or> fl = Skip) \<and>
    live node inst st' \<and> store_ok node inst (env_Sequence env) hs' \<and>
    node_view hs' node = hear_at R node p (node_view hs node)"
proof -
  have st: "st_adopted st" "\<not> st_inSnapshot st" "st_node st = node" "st_instance st = inst" using assms(1) by (simp_all add: live_def)
  have sv: "sv_Registry sv = R" "sv_Notify sv" "sv_send sv = (\<lambda>_. None)" using assms(5) by (simp_all add: quiet_def)
  have ok: "hs_ok hs" and mono: "store_ok node inst (env_Sequence env) hs"
    using assms(6,7) store_ok_mono by (auto simp: store_ok_def less_imp_le)
  let ?og = "stream_origin st env"
  have og: "or_NodeName ?og = node" "or_AgentInstance ?og = inst" "or_Sequence ?og = env_Sequence env"
    by (simp_all add: stream_origin_def st)
  show ?thesis
  proof (cases p)
    case (PLocal m)
    show ?thesis
    proof (cases "localFrom R node m")
      case None
      then show ?thesis
        using mono st by (simp add: on_payload_def assms(3) PLocal on_local_def sv None hear_at_def sent_def live_def)
    next
      case (Some x)
      then obtain r owners where x: "localFrom R node m = Some (r, owners)" by (cases x) auto
      from localFrom_Some [OF x] have r: "lh_AttachmentID r = pbl_AttachmentId m" "lh_NodeName r = node"
        "lh_Ready r = (pbl_InterfaceExists m \<and> pbl_AddressPresent m \<and> pbl_LinkUsable m)" by blast+
      let ?hs = "hs\<lparr>hs_local := gm_put (lh_AttachmentID r) (new_entry ?og (sv_now sv) r) (hs_local hs)\<rparr>"
      have a: "AcceptLocal ?og r (sv_now sv) hs = (?hs, None)"
        by (rule AcceptLocal_next [OF assms(6)]) (simp_all add: og assms(7))
      have ok': "hs_ok ?hs" using hs_ok_AcceptLocal [OF ok, of ?og r "sv_now sv"] by (simp add: a)
      have "store_ok node inst (env_Sequence env) ?hs"
        by (rule store_ok_local [OF assms(6,7) ok', where e = "new_entry ?og (sv_now sv) r"]) (simp_all add: new_entry_def stream_origin_def)
      moreover have "node_view ?hs node = hear_at R node p (node_view hs node)"
        by (auto simp: node_view_def hear_at_def PLocal x r new_entry_def)
      ultimately show ?thesis
        using st by (simp add: on_payload_def assms(3) PLocal on_local_def sv x a live_def Let_def)
    qed
  next
    case (PPath m)
    show ?thesis
    proof (cases "pathFrom R node m")
      case None
      then show ?thesis
        using mono st by (simp add: on_payload_def assms(3) PPath on_path_def sv None hear_at_def sent_def live_def)
    next
      case (Some x)
      then obtain r owners where x: "pathFrom R node m = Some (r, owners)" by (cases x) auto
      obtain hs' err where a: "AcceptPath ?og r (sv_now sv) hs = (hs', err)" by fastforce
      have cur: "currentLocked hs ?og" using assms(6) by (simp add: currentLocked_def og store_ok_def)
      have e: "err \<noteq> Some ErrStaleInstance" and l: "hs_local hs' = hs_local hs" "hs_nodeInstance hs' = hs_nodeInstance hs"
        using a cur by (auto simp: AcceptPath_def split: if_splits)
      have "hs_ok hs'" using hs_ok_AcceptPath [OF ok, of ?og r "sv_now sv"] by (simp add: a)
      then have "store_ok node inst (env_Sequence env) hs'" using mono l by (simp add: store_ok_def seq_below_def)
      moreover have "node_view hs' node = hear_at R node p (node_view hs node)"
        by (simp add: node_view_def fun_eq_iff hear_at_def PPath l)
      ultimately show ?thesis
        using st e by (cases err) (simp_all add: on_payload_def assms(3) PPath on_path_def sv x a live_def Let_def)
    qed
  next
    case (PRetired i)
    have "hs_ok (ForgetLocal i hs)" using ok by simp
    moreover have "seq_below inst (env_Sequence env) (ForgetLocal i hs)"
      using mono by (auto simp: store_ok_def seq_below_def ForgetLocal_def gm_del_def)
    ultimately have "store_ok node inst (env_Sequence env) (ForgetLocal i hs)"
      using mono by (simp add: store_ok_def ForgetLocal_def)
    moreover have "node_view (ForgetLocal i hs) node = hear_at R node p (node_view hs node)"
      by (auto simp: node_view_def ForgetLocal_def hear_at_def PRetired)
    ultimately show ?thesis using st by (simp add: on_payload_def assms(3) PRetired on_retired_def live_def)
  qed (use assms(2) in simp_all)
qed

lemma delta_msg:
  assumes "live node inst st" and "is_delta p" and "env_Payload env = Some p" and "env_AgentInstanceId env = inst"
    and "quiet R sv" and "store_ok node inst q hs" and "q < env_Sequence env"
  shows "\<exists>st' hs' outs fl. sync_msg sv env st hs = (st', hs', outs, fl) \<and> (fl = Fall \<or> fl = Skip) \<and>
    live node inst st' \<and> store_ok node inst (env_Sequence env) hs' \<and>
    node_view hs' node = hear_at R node p (node_view hs node)"
proof -
  let ?st = "st\<lparr>st_lastSeq := env_Sequence env, st_since := Suc (st_since st)\<rparr>"
  have "live node inst ?st" using assms(1) by (simp add: live_def)
  from delta_payload [OF this assms(2-7)] obtain st' hs' outs fl
    where p: "on_payload sv env ?st hs = (st', hs', outs, fl)" and fl: "fl = Fall \<or> fl = Skip"
    and rest: "live node inst st'" "store_ok node inst (env_Sequence env) hs'" "node_view hs' node = hear_at R node p (node_view hs node)"
    by blast
  have st: "st_adopted st" "st_instance st = inst" and sv: "sv_send sv = (\<lambda>_. None)"
    using assms(1,5) by (simp_all add: live_def quiet_def)
  have "live node inst (acked st')" using rest(1) by (simp add: live_def)
  then show ?thesis
    using fl rest by (auto simp: adopted_msg [OF st(1)] sync_body_def assms(4) st(2) p Let_def sent_def sv)
qed

section \<open>The messages of one publish\<close>

lemma seq_next:
  fixes q :: "64 word"
  assumes "unat q + n < 2 ^ 64" and "k \<le> n"
  shows "unat (q + of_nat k) = unat q + k"
proof -
  have "unat (of_nat k :: 64 word) = k" using assms by (simp add: unat_of_nat)
  moreover have "unat q + k < 2 ^ 64" using assms by simp
  ultimately show ?thesis by (simp add: unat_word_ariths)
qed

text \<open>The messages name the process and are numbered one after the other, after \<open>q\<close>.\<close>

fun numbered :: "string \<Rightarrow> 64 word \<Rightarrow> Envelope list \<Rightarrow> bool" where
  "numbered inst q [] \<longleftrightarrow> True"
| "numbered inst q (env # envs) \<longleftrightarrow> env_AgentInstanceId env = inst \<and> env_Sequence env = q + 1 \<and> numbered inst (q + 1) envs"

lemma sends_numbered:
  "send_list (\<lambda>_. None) n ps s = (s', envs, evs, err) \<Longrightarrow> numbered (gs_InstanceID s) (gs_seq s) envs \<and>
     map env_Payload envs = map (Some \<circ> fst) ps \<and> s' = s\<lparr>gs_seq := gs_seq s + of_nat (length envs)\<rparr>"
proof (induction ps arbitrary: n s envs evs)
  case (Cons p ps)
  obtain pl pe where p: "p = (pl, pe)" by fastforce
  let ?s = "s\<lparr>gs_seq := gs_seq s + 1\<rparr>"
  obtain t es vs er where r: "send_list (\<lambda>_. None) (Suc n) ps ?s = (t, es, vs, er)" by (metis prod_cases4)
  have e: "s' = t" "err = er" "envs = \<lparr>env_NodeName = gs_NodeName s, env_AgentInstanceId = gs_InstanceID s,
      env_Sequence = gs_seq s + 1, env_Payload = Some pl\<rparr> # es"
    using Cons.prems r by (auto simp: p envelope_def)
  from Cons.IH [of "Suc n" ?s es vs] r e show ?case by (simp add: p add.assoc)
qed simp

lemma delta_run:
  assumes "live node inst st" and "quiet R sv" and "store_ok node inst q hs"
    and "numbered inst q envs" and "unat q + length envs < 2 ^ 64" and "\<forall>env \<in> set envs. \<exists>p. env_Payload env = Some p \<and> is_delta p"
  shows "\<exists>st' hs' outs. sync_run (map (Pair sv) envs) st hs = (st', hs', outs, Fall) \<and> live node inst st' \<and>
    store_ok node inst (q + of_nat (length envs)) hs' \<and>
    node_view hs' node = fold (hear_at R node) (map (\<lambda>e. the (env_Payload e)) envs) (node_view hs node)"
  using assms
proof (induction envs arbitrary: st hs q)
  case Nil
  then show ?case by simp
next
  case (Cons env envs)
  from Cons.prems(6) obtain p where p: "env_Payload env = Some p" "is_delta p" by auto
  have len: "unat q + Suc (length envs) < 2 ^ 64" using Cons.prems(5) by simp
  have u: "unat (q + 1) = unat q + 1" using seq_next [OF len, of 1] by simp
  then have lt: "q < q + 1" by (simp add: word_less_nat_alt)
  from Cons.prems(4) have env: "env_AgentInstanceId env = inst" "env_Sequence env = q + 1" by simp_all
  have "q < env_Sequence env" using lt by (simp only: env)
  from delta_msg [OF Cons.prems(1) p(2,1) env(1) Cons.prems(2,3) this] obtain st1 hs1 o1 fl
    where m: "sync_msg sv env st hs = (st1, hs1, o1, fl)" "fl = Fall \<or> fl = Skip"
    and l: "live node inst st1" "store_ok node inst (q + 1) hs1" "node_view hs1 node = hear_at R node p (node_view hs node)"
    unfolding env(2) by blast
  have "unat (q + 1) + length envs < 2 ^ 64" using len by (simp add: u)
  from Cons.IH [OF l(1) Cons.prems(2) l(2) _ this] Cons.prems(4,6) obtain st2 hs2 o2
    where "sync_run (map (Pair sv) envs) st1 hs1 = (st2, hs2, o2, Fall)" "live node inst st2"
      "store_ok node inst (q + 1 + of_nat (length envs)) hs2"
      "node_view hs2 node = fold (hear_at R node) (map (\<lambda>e. the (env_Payload e)) envs) (node_view hs1 node)"
    by auto
  with m l(3) p(1) show ?case by (auto simp: add.assoc)
qed

text \<open>A snapshot, on a stream that has adopted the process.\<close>

lemma last_seen_find: "last_seen rs = (\<lambda>i. map_option lh_Ready (find (\<lambda>r. lh_AttachmentID r = i) (rev rs)))"
  by (simp add: fun_eq_iff last_seen_def)

lemma snapshot_view:
  assumes "hs_ok hs" and "gm_get (hs_nodeInstance hs) node = Some inst" and "\<forall>r \<in> set ls. lh_NodeName r = node"
    and "og = \<lparr>or_NodeName = node, or_AgentInstance = inst, or_Sequence = q\<rparr>"
  shows "node_view (fst (ApplySnapshot og ls ps now hs)) node = last_seen ls"
proof
  fix i
  have "currentLocked hs og" using assms(2) by (simp add: currentLocked_def assms(4))
  then have l: "hs_local (fst (ApplySnapshot og ls ps now hs)) = snapshot_half lh_AttachmentID lh_NodeName og now ls (hs_local hs)"
    by (simp add: ApplySnapshot_def)
  have "lh_NodeName r = node" if "find (\<lambda>r. lh_AttachmentID r = i) (rev ls) = Some r" for r
    using that assms(3) by (metis find_Some_iff nth_mem set_rev)
  moreover have e: "e_Report (new_entry og' now r) = r" for og' and r :: LocalHealth by (simp add: new_entry_def)
  ultimately show "node_view (fst (ApplySnapshot og ls ps now hs)) node i = last_seen ls i"
    unfolding node_view_def l snapshot_get [OF hs_ok_wf(1) [OF assms(1)]] last_seen_def
    by (cases "find (\<lambda>r. lh_AttachmentID r = i) (rev ls)") (auto simp: e assms(4) split: option.split)
qed

lemma snapshot_store_ok:
  assumes "store_ok node inst q hs" and "q \<le> q'" and "og = \<lparr>or_NodeName = node, or_AgentInstance = inst, or_Sequence = q'\<rparr>"
  shows "store_ok node inst q' (fst (ApplySnapshot og ls ps now hs))"
proof -
  let ?hs = "fst (ApplySnapshot og ls ps now hs)"
  have ok: "hs_ok hs" "gm_get (hs_nodeInstance hs) node = Some inst" using assms(1) by (simp_all add: store_ok_def)
  then have "currentLocked hs og" by (simp add: currentLocked_def assms(3))
  then have l: "hs_local ?hs = snapshot_half lh_AttachmentID lh_NodeName og now ls (hs_local hs)" "hs_nodeInstance ?hs = hs_nodeInstance hs"
    by (simp_all add: ApplySnapshot_def)
  have ok': "hs_ok ?hs" using ok(1) by simp
  have "or_Sequence (e_Origin e) \<le> q'" if "gm_get (hs_local ?hs) i = Some e" "or_AgentInstance (e_Origin e) = inst" for i e
  proof (cases "find (\<lambda>r. lh_AttachmentID r = i) (rev ls)")
    case None
    with that(1) have "gm_get (hs_local hs) i = Some e"
      by (auto simp: l(1) snapshot_get [OF hs_ok_wf(1) [OF ok(1)]] split: option.splits if_splits)
    then have "or_Sequence (e_Origin e) \<le> q"
      using that(2) assms(1) seq_below_get [OF hs_ok_wf(1) [OF ok(1)]] unfolding store_ok_def by blast
    with assms(2) show ?thesis by (rule order_trans [rotated])
  next
    case (Some r)
    with that(1) show ?thesis
      unfolding l(1) snapshot_get [OF hs_ok_wf(1) [OF ok(1)]] by (auto simp: new_entry_def assms(3))
  qed
  then have "seq_below inst q' ?hs" unfolding seq_below_get [OF hs_ok_wf(1) [OF ok']] by blast
  with ok ok' l(2) show ?thesis by (simp add: store_ok_def)
qed

lemma sends_snapshot:
  assumes "sendSnapshot (\<lambda>_. None) snap s = (s1, envs, evs, err)"
  shows "s1 = s\<lparr>gs_epoch := gs_epoch s + 1, gs_seq := gs_seq s + of_nat (length envs)\<rparr>" and "err = None"
proof -
  let ?s = "s\<lparr>gs_epoch := gs_epoch s + 1\<rparr>"
  obtain t es vs er where l: "send_list (\<lambda>_. None) 0 (map (\<lambda>p. (p, [])) (snapshot_payloads (gs_epoch s + 1) snap)) ?s = (t, es, vs, er)"
    by (metis prod_cases4)
  moreover have "er = None" using l by (simp add: send_list_ok)
  ultimately show "s1 = s\<lparr>gs_epoch := gs_epoch s + 1, gs_seq := gs_seq s + of_nat (length envs)\<rparr>" and "err = None"
    using assms sends_numbered [OF l] by (auto simp: sendSnapshot_def Let_def)
qed

lemma snapshot_round:
  assumes send: "sendSnapshot (\<lambda>_. None) snap s = (s1, envs, evs, err)" and sv: "quiet R sv"
    and st: "st_adopted st" "st_node st = node" "st_instance st = gs_InstanceID s"
    and hs: "store_ok node (gs_InstanceID s) (gs_seq s) hs" and fits: "unat (gs_seq s) + length envs < 2 ^ 64"
  shows "\<exists>st' hs' outs. sync_run (map (Pair sv) envs) st hs = (st', hs', outs, Fall) \<and> live node (gs_InstanceID s) st' \<and>
    store_ok node (gs_InstanceID s) (gs_seq s1) hs' \<and> node_view hs' node = last_seen (admitted_locals R node snap)"
proof -
  have R: "sv_Registry sv = R" and notify: "sv_Notify sv" and ok: "sv_send sv = (\<lambda>_. None)" using sv by (simp_all add: quiet_def)
  let ?i = "gs_InstanceID s"
  obtain b items e where envs: "envs = b # items @ [e]" and inst: "\<forall>m \<in> set envs. env_AgentInstanceId m = ?i"
    and items: "map env_Payload items = map Some (snapshot_items snap)"
    and b: "env_Payload b = Some (PSnapshotBegin (gs_epoch s + 1) (of_nat (length (sn_Locals snap))) (of_nat (length (sn_Paths snap))))"
    and e: "env_Payload e = Some (PSnapshotEnd (gs_epoch s + 1))" "env_Sequence e = gs_seq s1"
    by (rule snapshot_sent [OF send])
  have item: "snapshot_item (st_instance st) m" if "m \<in> set (map (Pair sv) items)" for m
  proof -
    from that obtain env where env: "m = (sv, env)" "env \<in> set items" by auto
    then have "env_Payload env \<in> set (map Some (snapshot_items snap))" by (simp only: items [symmetric]) simp
    then show ?thesis using env inst ok st(3) by (auto simp: snapshot_item_def envs snapshot_items_def)
  qed
  have "begins (st_instance st) (gs_epoch s + 1) (sv, b)" using b inst ok st(3) by (auto simp: begins_def envs)
  from snapshot_prefix [OF st(1) this, of "map (Pair sv) items" hs] item obtain st2 outs2
    where pre: "sync_run ((sv, b) # map (Pair sv) items) st hs = (st2, hs, outs2, Fall)"
    and buf: "buffering node ?i (gs_epoch s + 1) (admitted_locals R node snap) (admitted_paths R node snap) st2"
    unfolding st(2,3) admitted_items [OF items] R by blast
  let ?og = "\<lparr>or_NodeName = node, or_AgentInstance = ?i, or_Sequence = gs_seq s1\<rparr>"
  let ?apply = "ApplySnapshot ?og (admitted_locals R node snap) (admitted_paths R node snap) (sv_now sv) hs"
  have cur: "gm_get (hs_nodeInstance hs) node = Some ?i" "hs_ok hs" using hs by (simp_all add: store_ok_def)
  then have "currentLocked hs ?og" by (simp add: currentLocked_def)
  then obtain hs2 where a: "?apply = (hs2, None)" by (simp add: ApplySnapshot_def)
  then have hs2: "fst ?apply = hs2" by simp
  have st2: "st_adopted st2" "st_instance st2 = ?i" "st_node st2 = node" "st_inSnapshot st2" "st_epoch st2 = gs_epoch s + 1"
    "st_bufLocal st2 = admitted_locals R node snap" "st_bufPath st2 = admitted_paths R node snap"
    using buf by (simp_all add: buffering_def)
  have inst_e: "env_AgentInstanceId e = ?i" using inst by (simp add: envs)
  have "\<exists>st' outs. sync_msg sv e st2 hs = (st', hs2, outs, Fall) \<and> live node ?i st'"
    using a by (simp add: adopted_msg [OF st2(1)] sync_body_def inst_e st2 e on_payload_def on_end_def stream_origin_def Let_def
      notify sent_def ok live_def acked_def ackEvery_def)
  then obtain st' outs where m: "sync_msg sv e st2 hs = (st', hs2, outs, Fall)" "live node ?i st'" by blast
  have "gs_seq s \<le> gs_seq s1"
    using seq_next [OF fits order_refl] unfolding sends_snapshot(1) [OF send] by (simp add: word_le_nat_alt)
  then have "store_ok node ?i (gs_seq s1) hs2" using snapshot_store_ok [OF hs _ refl] hs2 by metis
  moreover have "node_view hs2 node = last_seen (admitted_locals R node snap)"
    unfolding hs2 [symmetric] by (rule snapshot_view [OF cur(2,1) _ refl]) (auto simp: admitted_locals_def)
  ultimately show ?thesis using run_append [OF pre, of "[(sv, e)]"] m by (simp add: envs)
qed

text \<open>The first one on a fresh stream adopts the process first.\<close>

lemma adopting_run_full:
  assumes "adopt sv b st hs = (st2, hs2, outs, Fall)"
  shows "sync_run ((sv, b) # ms) st hs = (case sync_run ((sv, b) # ms) st2 hs2 of (st3, hs3, outs3, fl) \<Rightarrow> (st3, hs3, outs @ outs3, fl))"
proof -
  have "st_adopted st2" using adopt_adopted [of sv b st hs] by (simp add: assms)
  then have "adopt sv b st2 hs2 = (st2, hs2, [], Fall)" by (simp add: adopt_def)
  then show ?thesis
    by (cases "sync_body sv b st2 hs2") (auto simp: sync_msg_def assms split: prod.split flow.split)
qed

lemma first_round:
  assumes send: "sendSnapshot (\<lambda>_. None) snap s = (s1, envs, evs, err)" and sv: "quiet R sv" and i: "gs_InstanceID s \<noteq> []"
    and hs: "hs_ok hs" "seq_below (gs_InstanceID s) (gs_seq s) hs" and fits: "unat (gs_seq s) + length envs < 2 ^ 64"
  shows "\<exists>st' hs' outs. sync_run (map (Pair sv) envs) (new_Stream (Some ag)) hs = (st', hs', outs, Fall) \<and>
    live (aa_NodeName ag) (gs_InstanceID s) st' \<and> store_ok (aa_NodeName ag) (gs_InstanceID s) (gs_seq s1) hs' \<and>
    node_view hs' (aa_NodeName ag) = last_seen (admitted_locals R (aa_NodeName ag) snap)"
proof -
  let ?n = "aa_NodeName ag" and ?i = "gs_InstanceID s"
  obtain b items e where envs: "envs = b # items @ [e]" and inst: "\<forall>m \<in> set envs. env_AgentInstanceId m = ?i"
    by (rule snapshot_sent [OF send])
  have ok: "sv_send sv = (\<lambda>_. None)" using sv by (simp add: quiet_def)
  obtain st2 outs where a: "adopt sv b (new_Stream (Some ag)) hs = (st2, fst (AdoptInstance ?n ?i hs), outs, Fall)"
    and st2: "st_adopted st2" "st_node st2 = ?n" "st_instance st2 = ?i"
    using fresh_adopt [OF ok _ i, of b ag hs] inst by (auto simp: envs)
  have "store_ok ?n ?i (gs_seq s) (fst (AdoptInstance ?n ?i hs))"
    using hs by (simp add: store_ok_def AdoptInstance_def seq_below_def hs_ok_Adopt [unfolded AdoptInstance_def, simplified])
  from snapshot_round [OF send sv st2 this fits] obtain st' hs' outs'
    where "sync_run (map (Pair sv) envs) st2 (fst (AdoptInstance ?n ?i hs)) = (st', hs', outs', Fall)" "live ?n ?i st'"
      "store_ok ?n ?i (gs_seq s1) hs'" "node_view hs' ?n = last_seen (admitted_locals R ?n snap)"
    by blast
  then show ?thesis using adopting_run_full [OF a, of "map (Pair sv) (items @ [e])"] by (simp add: envs)
qed

text \<open>A publish, whichever form it takes.\<close>

lemma acks_more [simp]:
  "gs_InstanceID (acks as s) = gs_InstanceID s \<and> gs_seq (acks as s) = gs_seq s"
proof (induction as arbitrary: s)
  case (Cons a as)
  have "gs_InstanceID (fst (on_ack a s)) = gs_InstanceID s" "gs_seq (fst (on_ack a s)) = gs_seq s" by (simp_all add: on_ack_def)
  with Cons [of "fst (on_ack a s)"] show ?case by (simp add: acks_Cons)
qed (simp add: acks_def)

definition published_view :: "int \<Rightarrow> GRPCSink \<Rightarrow> Registry \<Rightarrow> string \<Rightarrow> Snapshot \<Rightarrow> (string \<Rightarrow> bool option) \<Rightarrow> (string \<Rightarrow> bool option)" where
  "published_view now s R node snap told =
     (if wants_full now s then last_seen (admitted_locals R node snap) else fold (hear_at R node) (delta_msgs snap) told)"

lemma Publish_full_fields:
  assumes "Publish now now' (acks as) (\<lambda>_. None) snap s = (s', envs, evs, err)" and "gs_stream s \<noteq> None" and "wants_full now s"
  obtains s1 evs1 where "sendSnapshot (\<lambda>_. None) snap s = (s1, envs, evs1, None)"
    and "gs_seq s' = gs_seq s1" and "gs_InstanceID s' = gs_InstanceID s" and "gs_stream s' = gs_stream s"
proof -
  obtain s1 es vs er where send: "sendSnapshot (\<lambda>_. None) snap s = (s1, es, vs, er)" by (metis prod_cases4)
  obtain n where "gs_stream s = Some n" using assms(2) by blast
  then have "s' = (acks as s1)\<lparr>gs_needSnapshot := False, gs_lastSnapshot := now'\<rparr>" "envs = es"
    using assms(1,3) send sends_snapshot(2) [OF send] by (simp_all add: Publish_def)
  then show thesis using that [of s1 vs] send sends_snapshot [OF send] by simp
qed

lemma publish_round:
  assumes pub: "Publish now now' (acks as) (\<lambda>_. None) snap s = (s', envs, evs, err)" and stream: "gs_stream s \<noteq> None"
    and sv: "quiet R sv" and st: "live node (gs_InstanceID s) st"
    and hs: "store_ok node (gs_InstanceID s) (gs_seq s) hs" and fits: "unat (gs_seq s) + length envs < 2 ^ 64"
  shows "gs_stream s' = gs_stream s \<and> gs_InstanceID s' = gs_InstanceID s \<and>
    (\<exists>st' hs' outs. sync_run (map (Pair sv) envs) st hs = (st', hs', outs, Fall) \<and> live node (gs_InstanceID s) st' \<and>
      store_ok node (gs_InstanceID s) (gs_seq s') hs' \<and> node_view hs' node = published_view now s R node snap (node_view hs node))"
proof (cases "wants_full now s")
  case True
  obtain s1 evs1 where send: "sendSnapshot (\<lambda>_. None) snap s = (s1, envs, evs1, None)"
    and s': "gs_seq s' = gs_seq s1" "gs_InstanceID s' = gs_InstanceID s" "gs_stream s' = gs_stream s"
    by (rule Publish_full_fields [OF pub stream True])
  have "st_adopted st" "st_node st = node" "st_instance st = gs_InstanceID s" using st by (simp_all add: live_def)
  from snapshot_round [OF send sv this hs fits] show ?thesis by (simp add: s' published_view_def True)
next
  case False
  obtain s1 es vs er where send: "send_list (\<lambda>_. None) 0 (delta_payloads snap s) s = (s1, es, vs, er)" by (metis prod_cases4)
  obtain n where "gs_stream s = Some n" using stream by blast
  then have s': "s' = acks as s1" "envs = es" using pub False send by (simp_all add: Publish_def sendDeltas_def)
  note n = sends_numbered [OF send]
  have pay: "map env_Payload envs = map Some (delta_msgs snap)" using n by (simp add: s' delta_list [of snap s, symmetric] comp_def)
  have "\<forall>env \<in> set envs. \<exists>p. env_Payload env = Some p \<and> is_delta p"
  proof
    fix env assume "env \<in> set envs"
    then have "env_Payload env \<in> set (map Some (delta_msgs snap))" by (simp only: pay [symmetric]) simp
    then show "\<exists>p. env_Payload env = Some p \<and> is_delta p" by (auto simp: delta_msgs_def)
  qed
  with n fits delta_run [OF st sv hs, of envs]
  obtain st' hs' outs where "sync_run (map (Pair sv) envs) st hs = (st', hs', outs, Fall)" "live node (gs_InstanceID s) st'"
    "store_ok node (gs_InstanceID s) (gs_seq s + of_nat (length envs)) hs'"
    and v: "node_view hs' node = fold (hear_at R node) (map (\<lambda>e. the (env_Payload e)) envs) (node_view hs node)"
    by (auto simp: s')
  moreover have "map (\<lambda>e. the (env_Payload e)) envs = delta_msgs snap"
    using arg_cong [OF pay, of "map the"] by (simp add: comp_def)
  ultimately show ?thesis using n by (simp add: s' published_view_def False)
qed

section \<open>The view and the memory\<close>

definition registered :: "Registry \<Rightarrow> string \<Rightarrow> bool" where
  "registered R i \<longleftrightarrow> snd (snd (reg_Attachment R i))"

definition restricted :: "Registry \<Rightarrow> (string \<Rightarrow> bool option) \<Rightarrow> (string \<Rightarrow> bool option)" where
  "restricted R told i = (if registered R i then told i else None)"

text \<open>The reports name the attachments by the coordinates the registry has for them on this node.\<close>

definition agrees :: "Registry \<Rightarrow> string \<Rightarrow> Snapshot \<Rightarrow> bool" where
  "agrees R node snap \<longleftrightarrow> (\<forall>r \<in> set (sn_Locals snap). local_published R node r \<longleftrightarrow> registered R (lh_AttachmentID r))"

lemma last_seen_stamped: "last_seen (map (stamped_local node) rs) = last_seen rs"
proof (induction rs rule: rev_induct)
  case Nil
  show ?case by (simp add: last_seen_def)
qed (simp add: last_seen_snoc)

lemma full_view: "agrees R node snap \<Longrightarrow> last_seen (admitted_locals R node snap) = restricted R (last_seen (sn_Locals snap))"
proof -
  assume "agrees R node snap"
  then have "filter (local_published R node) (sn_Locals snap) = filter (\<lambda>r. registered R (lh_AttachmentID r)) (sn_Locals snap)"
    by (simp add: agrees_def cong: filter_cong)
  then show ?thesis by (simp add: admitted_locals_def last_seen_stamped fun_eq_iff last_seen_filter restricted_def)
qed

lemma heard_restricted:
  assumes "\<forall>m. PLocal m \<in> set ps \<longrightarrow> (\<exists>r. m = toLocalPB r \<and> (local_published R node r \<longleftrightarrow> registered R (lh_AttachmentID r)))"
  shows "fold (hear_at R node) ps (restricted R told) = restricted R (fold hear ps told)"
  using assms
proof (induction ps arbitrary: told)
  case (Cons p ps)
  have "hear_at R node p (restricted R told) = restricted R (hear p told)"
  proof (cases p)
    case (PLocal m)
    with Cons.prems obtain r where m: "m = toLocalPB r" and r: "local_published R node r \<longleftrightarrow> registered R (lh_AttachmentID r)" by auto
    have "localFrom R node m = None \<longleftrightarrow> \<not> registered R (lh_AttachmentID r)"
      using localFrom_toLocalPB [of R node r] r by (auto simp: m split: if_splits)
    moreover have "pbl_AttachmentId m = lh_AttachmentID r" "pbl_LocalReady m = lh_Ready r"
      "(pbl_InterfaceExists m \<and> pbl_AddressPresent m \<and> pbl_LinkUsable m) = lh_Ready r"
      by (simp_all add: m toLocalPB_def lh_Ready_def)
    ultimately show ?thesis by (auto simp: hear_at_def hear_def PLocal restricted_def fun_eq_iff)
  qed (auto simp: hear_at_def hear_def restricted_def fun_eq_iff)
  with Cons show ?case by simp
qed simp

lemma delta_view:
  assumes "agrees R node snap"
  shows "fold (hear_at R node) (delta_msgs snap) (restricted R told) = restricted R (fold hear (delta_msgs snap) told)"
  by (rule heard_restricted) (use assms in \<open>auto simp: delta_msgs_def agrees_def\<close>)

section \<open>Agent, stream and store\<close>

text \<open>One sweep of the agent, with what it sends taken in by the server in the surroundings \<open>sv\<close>.\<close>

definition report_round :: "'sel label_lib \<Rightarrow> server_env \<Rightarrow> sweep_env \<Rightarrow> Agent \<times> Stream \<times> HealthStore \<Rightarrow> Agent \<times> Stream \<times> HealthStore" where
  "report_round L sv e x = (case x of (a, st, hs) \<Rightarrow> (case sweep L e a of (a', envs, _) \<Rightarrow>
     (case sync_run (map (Pair sv) envs) st hs of (st', hs', _) \<Rightarrow> (a', st', hs'))))"

text \<open>
  The sends succeed and acknowledgements may arrive meanwhile; the registry is \<open>R\<close> and knows the reported
  attachments by the same coordinates or not at all; the sequence numbers do not run out.
\<close>

definition good_round :: "'sel label_lib \<Rightarrow> Registry \<Rightarrow> string \<Rightarrow> server_env \<Rightarrow> sweep_env \<Rightarrow> Agent \<Rightarrow> bool" where
  "good_round L R node sv e a \<longleftrightarrow> quiet R sv \<and> (\<forall>l. set (se_order e l) = set l) \<and>
     (\<exists>now now' as. se_publish e = Publish now now' (acks as) (\<lambda>_. None)) \<and>
     (case sweep_snapshot L e a of None \<Rightarrow> True | Some (_, snap, _) \<Rightarrow> agrees R node snap) \<and>
     (case ag_Sink a of None \<Rightarrow> True | Some s \<Rightarrow> unat (gs_seq s) + length (fst (snd (sweep L e a))) < 2 ^ 64)"

text \<open>A stream of another node that the same server runs, its buffer admitted under the registry \<open>R\<close>.\<close>

definition other_stream :: "Registry \<Rightarrow> string \<Rightarrow> Stream \<Rightarrow> bool" where
  "other_stream R node st \<longleftrightarrow> st_ok st \<and> (\<exists>ag. st_agent st = Some ag \<and> aa_NodeName ag \<noteq> node) \<and>
     (\<forall>r \<in> set (st_bufLocal st). \<exists>m owners. localFrom R (st_node st) m = Some (r, owners))"

text \<open>
  The agent, its stream, the store and the streams of other authenticated nodes, from the agent's first sweep
  on a fresh stream: sweeps, an acknowledgement between them, whatever the agent does besides sweeping; the
  sweeper and the pruner of the controller, which finds nothing of the node to prune; other streams that
  join, fresh or under way, and any message on one of them, sent by another process than the
  agent's, that does not retire an attachment held from the node.
\<close>

inductive reporting :: "'sel label_lib \<Rightarrow> Registry \<Rightarrow> AuthenticatedAgent \<Rightarrow> Agent \<times> Stream \<times> HealthStore \<times> Stream list \<Rightarrow> bool" for L R ag where
  connect: "ag_Sink a = Some s \<Longrightarrow> gs_stream s \<noteq> None \<Longrightarrow> gs_needSnapshot s \<Longrightarrow> gs_InstanceID s \<noteq> [] \<Longrightarrow> hs_ok hs \<Longrightarrow>
    seq_below (gs_InstanceID s) (gs_seq s) hs \<Longrightarrow> sweep_snapshot L e a \<noteq> None \<Longrightarrow> good_round L R (aa_NodeName ag) sv e a \<Longrightarrow>
    report_round L sv e (a, new_Stream (Some ag), hs) = (a', st', hs') \<Longrightarrow> reporting L R ag (a', st', hs', [])"
| round: "reporting L R ag (a, st, hs, os) \<Longrightarrow> good_round L R (aa_NodeName ag) sv e a \<Longrightarrow>
    report_round L sv e (a, st, hs) = (a', st', hs') \<Longrightarrow> reporting L R ag (a', st', hs', os)"
| ack: "reporting L R ag (a, st, hs, os) \<Longrightarrow> ag_Sink a = Some s \<Longrightarrow>
    reporting L R ag (a\<lparr>ag_Sink := Some (fst (on_ack k s))\<rparr>, st, hs, os)"
| agent: "reporting L R ag (a, st, hs, os) \<Longrightarrow> ag_prev a' = ag_prev a \<Longrightarrow> ag_Sink a' = ag_Sink a \<Longrightarrow> reporting L R ag (a', st, hs, os)"
| expire: "reporting L R ag (a, st, hs, os) \<Longrightarrow> reporting L R ag (a, st, fst (SweepExpired now hs), os)"
| prune: "reporting L R ag (a, st, hs, os) \<Longrightarrow>
    (\<And>i. node_view hs (aa_NodeName ag) i \<noteq> None \<Longrightarrow> gm_get (hs_local (fst (Prune now hs))) i \<noteq> None) \<Longrightarrow>
    reporting L R ag (a, st, fst (Prune now hs), os)"
| join: "reporting L R ag (a, st, hs, os) \<Longrightarrow> other_stream R (aa_NodeName ag) st2 \<Longrightarrow> reporting L R ag (a, st, hs, os @ [st2])"
| other: "reporting L R ag (a, st, hs, os) \<Longrightarrow> ag_Sink a = Some s \<Longrightarrow> j < length os \<Longrightarrow> sv_Registry sv = R \<Longrightarrow>
    env_AgentInstanceId env \<noteq> gs_InstanceID s \<Longrightarrow>
    (\<And>i. env_Payload env = Some (PRetired i) \<Longrightarrow> node_view hs (aa_NodeName ag) i = None) \<Longrightarrow>
    sync_msg sv env (os ! j) hs = (st2, hs2, outs, fl) \<Longrightarrow> reporting L R ag (a, st, hs2, os[j := st2])"

definition mirrored :: "Registry \<Rightarrow> AuthenticatedAgent \<Rightarrow> Agent \<times> Stream \<times> HealthStore \<Rightarrow> bool" where
  "mirrored R ag x \<longleftrightarrow> (case x of (a, st, hs) \<Rightarrow> \<exists>s. ag_Sink a = Some s \<and> gs_stream s \<noteq> None \<and>
     live (aa_NodeName ag) (gs_InstanceID s) st \<and> store_ok (aa_NodeName ag) (gs_InstanceID s) (gs_seq s) hs \<and>
     node_view hs (aa_NodeName ag) = restricted R (gm_get (ag_prev a)))"

lemma sweep_Some:
  assumes "sweep_snapshot L e a = Some (a1, snap, evs)" and "ag_Sink a = Some s" and "se_publish e snap s = (s', envs, evs', err)"
  shows "sweep L e a = (a1\<lparr>ag_Sink := Some s'\<rparr>, envs, evs @ evs')"
proof -
  have "ag_Sink a1 = Some s" using sweep_snapshot_Some [OF assms(1)] assms(2) by metis
  then show ?thesis by (simp add: sweep_def assms)
qed

lemma mirrored_connect:
  assumes sink: "ag_Sink a = Some s" "gs_stream s \<noteq> None" "gs_needSnapshot s" "gs_InstanceID s \<noteq> []"
    and hs: "hs_ok hs" "seq_below (gs_InstanceID s) (gs_seq s) hs"
    and snap: "sweep_snapshot L e a = Some (a1, snap, evs)" and good: "good_round L R (aa_NodeName ag) sv e a"
  shows "mirrored R ag (report_round L sv e (a, new_Stream (Some ag), hs))"
proof -
  from good obtain now now' as where pub: "se_publish e = Publish now now' (acks as) (\<lambda>_. None)"
    and q: "quiet R sv" and order: "\<forall>l. set (se_order e l) = set l" and agree: "agrees R (aa_NodeName ag) snap"
    by (auto simp: good_round_def snap)
  obtain s' envs evs' err where p: "Publish now now' (acks as) (\<lambda>_. None) snap s = (s', envs, evs', err)" by (metis prod_cases4)
  have sw: "sweep L e a = (a1\<lparr>ag_Sink := Some s'\<rparr>, envs, evs @ evs')" by (rule sweep_Some [OF snap sink(1)]) (simp add: pub p)
  have fits: "unat (gs_seq s) + length envs < 2 ^ 64" using good by (simp add: good_round_def sink(1) sw)
  have full: "wants_full now s" using sink(3) by (simp add: wants_full_def)
  obtain s1 evs1 where send: "sendSnapshot (\<lambda>_. None) snap s = (s1, envs, evs1, None)"
    and s': "gs_seq s' = gs_seq s1" "gs_InstanceID s' = gs_InstanceID s" "gs_stream s' = gs_stream s"
    by (rule Publish_full_fields [OF p sink(2) full])
  have "last_seen (admitted_locals R (aa_NodeName ag) snap) = restricted R (gm_get (ag_prev a1))"
    using sweep_deltas [OF snap order] full_view [OF agree] by simp
  with first_round [OF send q sink(4) hs fits, of ag] sink(2) show ?thesis
    by (auto simp: mirrored_def report_round_def sw s')
qed

lemma mirrored_round:
  assumes inv: "mirrored R ag (a, st, hs)" and good: "good_round L R (aa_NodeName ag) sv e a"
  shows "mirrored R ag (report_round L sv e (a, st, hs))"
proof (cases "sweep_snapshot L e a")
  case None
  then show ?thesis using inv by (simp add: report_round_def sweep_def)
next
  case (Some x)
  obtain a1 snap evs where "x = (a1, snap, evs)" by (cases x)
  with Some have snap: "sweep_snapshot L e a = Some (a1, snap, evs)" by simp
  from inv obtain s where s: "ag_Sink a = Some s" "gs_stream s \<noteq> None" "live (aa_NodeName ag) (gs_InstanceID s) st"
    "store_ok (aa_NodeName ag) (gs_InstanceID s) (gs_seq s) hs" and v: "node_view hs (aa_NodeName ag) = restricted R (gm_get (ag_prev a))"
    by (auto simp: mirrored_def)
  from good obtain now now' as where pub: "se_publish e = Publish now now' (acks as) (\<lambda>_. None)"
    and q: "quiet R sv" and order: "\<forall>l. set (se_order e l) = set l" and agree: "agrees R (aa_NodeName ag) snap"
    by (auto simp: good_round_def snap)
  obtain s' envs evs' err where p: "Publish now now' (acks as) (\<lambda>_. None) snap s = (s', envs, evs', err)" by (metis prod_cases4)
  have sw: "sweep L e a = (a1\<lparr>ag_Sink := Some s'\<rparr>, envs, evs @ evs')" by (rule sweep_Some [OF snap s(1)]) (simp add: pub p)
  have fits: "unat (gs_seq s) + length envs < 2 ^ 64" using good by (simp add: good_round_def s(1) sw)
  note d = sweep_deltas [OF snap order, of s]
  have "published_view now s R (aa_NodeName ag) snap (restricted R (gm_get (ag_prev a))) = restricted R (gm_get (ag_prev a1))"
    using d full_view [OF agree] delta_view [OF agree] by (simp add: published_view_def delta_list)
  with publish_round [OF p s(2) q s(3,4) fits] v s(2) show ?thesis
    by (auto simp: mirrored_def report_round_def sw)
qed

section \<open>The rest of the controller\<close>

text \<open>A change of the store that leaves the node's view, its process and its sequence numbers alone.\<close>

lemma calm_mirrored:
  assumes "mirrored R ag (a, st, hs)" and "ag_Sink a = Some s" and "hs_ok hs'"
    and "gm_get (hs_nodeInstance hs') (aa_NodeName ag) = gm_get (hs_nodeInstance hs) (aa_NodeName ag)"
    and "\<And>i. node_view hs' (aa_NodeName ag) i = node_view hs (aa_NodeName ag) i"
    and "\<And>i e. gm_get (hs_local hs') i = Some e \<Longrightarrow> or_AgentInstance (e_Origin e) = gs_InstanceID s \<Longrightarrow>
      \<exists>e0. gm_get (hs_local hs) i = Some e0 \<and> e_Origin e0 = e_Origin e"
  shows "mirrored R ag (a, st, hs')"
proof -
  let ?n = "aa_NodeName ag"
  from assms(1,2) have s: "gs_stream s \<noteq> None" "live ?n (gs_InstanceID s) st"
    "store_ok ?n (gs_InstanceID s) (gs_seq s) hs" and v: "node_view hs ?n = restricted R (gm_get (ag_prev a))"
    by (auto simp: mirrored_def)
  have ok: "hs_ok hs" using s(3) by (simp add: store_ok_def)
  have old: "or_Sequence (e_Origin e) \<le> gs_seq s"
    if "gm_get (hs_local hs) i = Some e" "or_AgentInstance (e_Origin e) = gs_InstanceID s" for i e
    using that s(3) seq_below_get [OF hs_ok_wf(1) [OF ok]] unfolding store_ok_def by blast
  have "seq_below (gs_InstanceID s) (gs_seq s) hs'"
    unfolding seq_below_get [OF hs_ok_wf(1) [OF assms(3)]] using assms(6) old by metis
  moreover have "node_view hs' ?n = node_view hs ?n" using assms(5) by blast
  ultimately show ?thesis using s v assms(2-4) by (auto simp: mirrored_def store_ok_def)
qed

lemma expire_mirrored:
  assumes "mirrored R ag (a, st, hs)" shows "mirrored R ag (a, st, fst (SweepExpired now hs))"
proof -
  from assms obtain s where s: "ag_Sink a = Some s" and ok: "hs_ok hs" by (auto simp: mirrored_def store_ok_def)
  have g: "gm_get (hs_local (fst (SweepExpired now hs))) i =
      map_option (\<lambda>e. if \<not> e_expired e \<and> stale (hs_ttl hs) now e then e\<lparr>e_expired := True\<rparr> else e) (gm_get (hs_local hs) i)" for i
    by (simp add: SweepExpired_fst sweep_get)
  show ?thesis
    by (rule calm_mirrored [OF assms s hs_ok_Sweep [OF ok]])
       (auto simp: SweepExpired_fst node_view_def sweep_get split: option.splits if_splits)
qed

lemma prune_mirrored:
  assumes "mirrored R ag (a, st, hs)"
    and "\<And>i. node_view hs (aa_NodeName ag) i \<noteq> None \<Longrightarrow> gm_get (hs_local (fst (Prune now hs))) i \<noteq> None"
  shows "mirrored R ag (a, st, fst (Prune now hs))"
proof -
  from assms obtain s where s: "ag_Sink a = Some s" and ok: "hs_ok hs" by (auto simp: mirrored_def store_ok_def)
  let ?p = "fst (Prune now hs)"
  have g: "gm_get (hs_local ?p) i = None \<or> gm_get (hs_local ?p) i = gm_get (hs_local hs) i" for i
    by (simp add: Prune_def Let_def prune_get [OF hs_ok_wf(1) [OF ok]] split: option.split)
  have "node_view ?p (aa_NodeName ag) i = node_view hs (aa_NodeName ag) i" for i
  proof (cases "gm_get (hs_local ?p) i = gm_get (hs_local hs) i")
    case True
    then show ?thesis by (simp add: node_view_def)
  next
    case False
    then have "gm_get (hs_local ?p) i = None" using g by blast
    then have "node_view ?p (aa_NodeName ag) i = None" and "node_view hs (aa_NodeName ag) i = None"
      using assms(2) [of i] by (simp add: node_view_def, blast)
    then show ?thesis by simp
  qed
  moreover have "\<exists>e0. gm_get (hs_local hs) i = Some e0 \<and> e_Origin e0 = e_Origin e" if "gm_get (hs_local ?p) i = Some e" for i e
    using g [of i] that by (metis option.distinct(1))
  moreover have "hs_nodeInstance ?p = hs_nodeInstance hs" by (simp add: Prune_def Let_def)
  ultimately show ?thesis by (intro calm_mirrored [OF assms(1) s hs_ok_Prune [OF ok]]) simp_all
qed

text \<open>Where the registry has an attachment; an admitted report is of that node.\<close>

definition home :: "Registry \<Rightarrow> string \<Rightarrow> string" where
  "home R i = att_NodeName (fst (reg_Attachment R i))"

definition homed :: "Registry \<Rightarrow> string \<Rightarrow> Agent \<Rightarrow> bool" where
  "homed R node a \<longleftrightarrow> (\<forall>i. registered R i \<and> gm_get (ag_prev a) i \<noteq> None \<longrightarrow> home R i = node)"

definition all_home :: "Registry \<Rightarrow> bool" where
  "all_home R \<longleftrightarrow> (\<forall>i. registered R i \<longrightarrow> home R i \<noteq> [])"

lemma all_homeI:
  assumes "reg_ok R" and "\<forall>k sc a. publishes R k sc a \<longrightarrow> att_NodeName a \<noteq> []"
  shows "all_home R"
  unfolding all_home_def
proof (intro allI impI)
  fix i assume "registered R i"
  then obtain a ks where e: "reg_Attachment R i = (a, ks, True)" by (cases "reg_Attachment R i") (auto simp: registered_def)
  from reg.known [OF assms(1) e] assms(2) show "home R i \<noteq> []" by (auto simp: home_def e)
qed

lemma admitted_home:
  assumes "all_home R" and "localFrom R node m = Some (r, owners)"
  shows "registered R (lh_AttachmentID r) \<and> home R (lh_AttachmentID r) = node"
proof -
  from localFrom_Some [OF assms(2)] obtain a where e: "reg_Attachment R (pbl_AttachmentId m) = (a, owners, True)"
    "att_NodeName a = [] \<or> att_NodeName a = node" "lh_AttachmentID r = pbl_AttachmentId m" by blast
  then have "registered R (lh_AttachmentID r)" by (simp add: registered_def)
  then show ?thesis using assms(1) e by (force simp: all_home_def home_def)
qed

lemma sweep_homed:
  assumes "all_home R" and "sweep_snapshot L e a = Some (a1, snap, evs)" and "\<forall>l. set (se_order e l) = set l" and "agrees R node snap"
    and "ag_prev a' = ag_prev a1"
  shows "homed R node a'"
  unfolding homed_def
proof (intro allI impI)
  fix i assume i: "registered R i \<and> gm_get (ag_prev a') i \<noteq> None"
  have "gm_get (ag_prev a1) = last_seen (sn_Locals snap)" using sweep_deltas [OF assms(2,3)] by blast
  with i assms(5) obtain b where "last_seen (sn_Locals snap) i = Some b" by auto
  from last_seen_Some [OF this] obtain r where r: "r \<in> set (sn_Locals snap)" "lh_AttachmentID r = i" by blast
  then have "local_published R node r" using assms(4) i by (auto simp: agrees_def)
  then have "home R i = [] \<or> home R i = node" by (auto simp: local_published_def home_def r(2) split: prod.splits)
  then show "home R i = node" using assms(1) i by (auto simp: all_home_def)
qed

lemma round_homed:
  assumes "all_home R" and "good_round L R node sv e a" and "report_round L sv e (a, st, hs) = (a', st', hs')"
    and "sweep_snapshot L e a = None \<Longrightarrow> homed R node a"
  shows "homed R node a'"
proof (cases "sweep_snapshot L e a")
  case None
  then have "a' = a" using assms(3) by (auto simp: report_round_def sweep_def)
  then show ?thesis using assms(4) [OF None] by simp
next
  case (Some x)
  then obtain a1 snap evs where snap: "sweep_snapshot L e a = Some (a1, snap, evs)" by (cases x) auto
  have "ag_prev a' = ag_prev a1" using assms(3) by (auto simp: report_round_def sweep_def snap split: option.splits prod.splits)
  with assms(2) snap show ?thesis by (intro sweep_homed [OF assms(1) snap]) (auto simp: good_round_def)
qed

text \<open>A message of another node: its stream stays one, and what it writes belongs to that node.\<close>

lemma on_local_buffer:
  "st_bufLocal (fst (on_local sv env m st s)) = st_bufLocal st \<or>
    (\<exists>r owners. localFrom (sv_Registry sv) (st_node st) m = Some (r, owners) \<and> st_bufLocal (fst (on_local sv env m st s)) = st_bufLocal st @ [r])"
  "st_node (fst (on_local sv env m st s)) = st_node st \<and> st_agent (fst (on_local sv env m st s)) = st_agent st"
  by (auto simp: on_local_def Let_def split: option.splits prod.split)

lemma on_payload_buffer:
  "set (st_bufLocal (fst (on_payload sv env st s))) \<subseteq> set (st_bufLocal st) \<union>
     {r. \<exists>m owners. localFrom (sv_Registry sv) (st_node st) m = Some (r, owners)}"
  "st_node (fst (on_payload sv env st s)) = st_node st \<and> st_agent (fst (on_payload sv env st s)) = st_agent st"
proof -
  let ?P = "\<lambda>st'. set (st_bufLocal st') \<subseteq> set (st_bufLocal st) \<union>
      {r. \<exists>m owners. localFrom (sv_Registry sv) (st_node st) m = Some (r, owners)} \<and> st_node st' = st_node st \<and> st_agent st' = st_agent st"
  have "?P (fst (on_payload sv env st s))"
  proof (cases "env_Payload env")
    case None
    then show ?thesis by (simp add: on_payload_def)
  next
    case (Some pl)
    then show ?thesis
    proof (cases pl)
      case (PLocal m)
      from on_local_buffer(1) [of sv env m st s] on_local_buffer(2) [of sv env m st s]
      have "?P (fst (on_local sv env m st s))" by (elim disjE exE conjE) (auto)
      then show ?thesis by (simp add: on_payload_def Some PLocal)
    next
      case (PPath m)
      have "?P (fst (on_path sv env m st s))" by (auto simp: on_path_def Let_def split: option.split prod.split)
      then show ?thesis by (simp add: on_payload_def Some PPath)
    qed (auto simp: on_payload_def Some on_begin_def on_retired_def on_end_def Let_def split: option.split prod.split)
  qed
  then show "set (st_bufLocal (fst (on_payload sv env st s))) \<subseteq> set (st_bufLocal st) \<union>
     {r. \<exists>m owners. localFrom (sv_Registry sv) (st_node st) m = Some (r, owners)}"
    "st_node (fst (on_payload sv env st s)) = st_node st \<and> st_agent (fst (on_payload sv env st s)) = st_agent st" by auto
qed

lemma other_kept:
  assumes "other_stream R node st" and "sv_Registry sv = R"
  shows "other_stream R node (fst (sync_msg sv env st hs)) \<and> st_node (fst (adopt sv env st hs)) = st_node st \<and> st_node st \<noteq> node"
proof -
  from assms(1) obtain ag where ok: "st_ok st" and ag: "st_agent st = Some ag" "aa_NodeName ag \<noteq> node"
    and buf: "\<forall>r \<in> set (st_bufLocal st). \<exists>m owners. localFrom R (st_node st) m = Some (r, owners)"
    by (auto simp: other_stream_def)
  obtain st1 s1 outs1 fl1 where a: "adopt sv env st hs = (st1, s1, outs1, fl1)" by (metis prod_cases4)
  have st1: "st_node st1 = st_node st" "st_agent st1 = Some ag" "st_bufLocal st1 = st_bufLocal st"
    using a ag(1) by (auto simp: adopt_def Let_def split: if_splits prod.splits)
  let ?st = "st1\<lparr>st_lastSeq := env_Sequence env, st_since := st_since st1 + 1\<rparr>"
  have p: "st_node (fst (on_payload sv env ?st s1)) = st_node st" "st_agent (fst (on_payload sv env ?st s1)) = Some ag"
    using on_payload_buffer(2) [of sv env ?st s1] st1 by simp_all
  have b: "set (st_bufLocal (fst (on_payload sv env ?st s1))) \<subseteq> set (st_bufLocal st) \<union>
      {r. \<exists>m owners. localFrom (sv_Registry sv) (st_node st) m = Some (r, owners)}"
    using on_payload_buffer(1) [of sv env ?st s1] st1 by simp
  have f: "st_node (fst (sync_msg sv env st hs)) = st_node st" "st_agent (fst (sync_msg sv env st hs)) = Some ag"
    "st_bufLocal (fst (sync_msg sv env st hs)) = st_bufLocal st \<or>
      st_bufLocal (fst (sync_msg sv env st hs)) = st_bufLocal (fst (on_payload sv env ?st s1))"
    using a st1 p by (auto simp: sync_msg_def sync_body_def Let_def split: prod.split)
  have "\<exists>m owners. localFrom R (st_node st) m = Some (r, owners)" if "r \<in> set (st_bufLocal (fst (sync_msg sv env st hs)))" for r
    using that f(3) b buf assms(2) by auto
  then have "other_stream R node (fst (sync_msg sv env st hs))"
    using st_ok_msg [OF ok, of sv env hs] f(1,2) ag(2) by (simp add: other_stream_def)
  moreover have "st_node st \<noteq> node" using ok ag by (auto simp: st_ok_def)
  ultimately show ?thesis using a st1(1) by simp
qed

lemma other_writes_home:
  assumes R: "all_home R" "sv_Registry sv = R" and "hs_ok hs"
    and buf: "\<forall>r \<in> set (st_bufLocal st). \<exists>m owners. localFrom R (st_node st) m = Some (r, owners)"
    and "op \<in> set (payload_ops sv env st)" and "gm_get (hs_local (store_run op hs)) i = Some e"
    and "gm_get (hs_local (store_run op hs)) i \<noteq> gm_get (hs_local hs) i"
  shows "registered R i \<and> home R i = st_node st"
proof -
  note wf = hs_ok_wf(1) [OF assms(3)]
  obtain pl where pl: "env_Payload env = Some pl" using assms(5) by (cases "env_Payload env") (simp_all add: payload_ops_def)
  show ?thesis
  proof (cases pl)
    case (PSnapshotEnd epoch)
    then have op: "op = OpSnapshot (stream_origin st env) (st_bufLocal st) (st_bufPath st) (sv_now sv)"
      using assms(5) pl by (auto simp: payload_ops_def split: if_splits)
    show ?thesis
    proof (cases "find (\<lambda>r. lh_AttachmentID r = i) (rev (st_bufLocal st))")
      case None
      then show ?thesis using assms(6,7)
        by (auto simp: op ApplySnapshot_def snapshot_get [OF wf] split: if_splits option.splits)
    next
      case (Some r)
      from find_rev_mem [OF this] have r: "r \<in> set (st_bufLocal st)" "lh_AttachmentID r = i" by auto
      with buf obtain m owners where "localFrom R (st_node st) m = Some (r, owners)" by blast
      from admitted_home [OF R(1) this] r(2) show ?thesis by simp
    qed
  next
    case (PLocal m)
    then obtain r ow where r: "localFrom (sv_Registry sv) (st_node st) m = Some (r, ow)"
      and op: "op = OpLocal (stream_origin st env) r (sv_now sv)"
      using assms(5) by (cases "localFrom (sv_Registry sv) (st_node st) m") (auto simp: payload_ops_def pl PLocal split: prod.splits if_splits)
    have "i = lh_AttachmentID r" using assms(6,7) by (auto simp: op AcceptLocal_def split: if_splits)
    then show ?thesis using admitted_home [OF R(1), of "st_node st" m r ow] r R(2) by simp
  next
    case (PPath m)
    then show ?thesis using assms(5-7) by (auto simp: payload_ops_def pl AcceptPath_def split: if_splits option.splits prod.splits)
  next
    case (PRetired j)
    then show ?thesis using assms(5-7) by (auto simp: payload_ops_def pl ForgetLocal_def split: if_splits)
  qed (use assms(5) pl in \<open>simp_all add: payload_ops_def\<close>)
qed

lemma other_msg_home:
  assumes R: "all_home R" "sv_Registry sv = R" and hs: "hs_ok hs" and st: "other_stream R node st"
    and new: "gm_get (hs_local (fst (snd (sync_msg sv env st hs)))) i = Some e"
    and diff: "gm_get (hs_local (fst (snd (sync_msg sv env st hs)))) i \<noteq> gm_get (hs_local hs) i"
  shows "registered R i \<and> home R i \<noteq> node"
proof -
  obtain st1 s1 outs1 fl1 where a: "adopt sv env st hs = (st1, s1, outs1, fl1)" by (metis prod_cases4)
  let ?st = "st1\<lparr>st_lastSeq := env_Sequence env, st_since := st_since st1 + 1\<rparr>" and ?s1 = "fold store_run (adopt_ops env st) hs"
  note ad = adopt_change [where env = env and st = st and s = hs]
  have n: "st_node st1 = st_node st" "st_node st \<noteq> node" using other_kept [OF st R(2), of env hs] a by simp_all
  have "st_bufLocal st1 = st_bufLocal st" using a by (auto simp: adopt_def Let_def split: if_splits prod.splits)
  then have buf: "\<forall>r \<in> set (st_bufLocal ?st). \<exists>m owners. localFrom R (st_node ?st) m = Some (r, owners)"
    using st n(1) by (simp add: other_stream_def)
  have "fst (snd (sync_msg sv env st hs)) \<noteq> ?s1" using diff ad(1) by auto
  then have "payload_ops sv env ?st \<noteq> []" and "fst (snd (sync_msg sv env st hs)) = fold store_run (payload_ops sv env ?st) ?s1"
    by (auto simp: msg_store msg_ops_def a split: if_splits)
  moreover then obtain op where op: "payload_ops sv env ?st = [op]" using payload_ops_single [of sv env ?st] by blast
  ultimately have s': "fst (snd (sync_msg sv env st hs)) = store_run op ?s1" by simp
  have "op \<in> set (payload_ops sv env ?st)" unfolding op by simp
  from other_writes_home [OF R ad(3) [OF hs] buf this, of i e] new diff n
  show ?thesis unfolding s' by (simp add: ad(1))
qed

lemma other_mirrored:
  assumes inv: "mirrored R ag (a, st, hs)" and h: "all_home R" "homed R (aa_NodeName ag) a" and s: "ag_Sink a = Some s"
    and st2: "other_stream R (aa_NodeName ag) st2" and sv: "sv_Registry sv = R" and inst: "env_AgentInstanceId env \<noteq> gs_InstanceID s"
    and ret: "\<And>i. env_Payload env = Some (PRetired i) \<Longrightarrow> node_view hs (aa_NodeName ag) i = None"
  shows "mirrored R ag (a, st, fst (snd (sync_msg sv env st2 hs)))"
proof -
  let ?n = "aa_NodeName ag" and ?hs = "fst (snd (sync_msg sv env st2 hs))"
  have ok: "hs_ok hs" and v: "node_view hs ?n = restricted R (gm_get (ag_prev a))" using inv by (auto simp: mirrored_def store_ok_def)
  have n: "st_node (fst (adopt sv env st2 hs)) = st_node st2" "st_node st2 \<noteq> ?n" using other_kept [OF st2 sv] by auto
  have "st_ok st2" using st2 by (simp add: other_stream_def)
  note c = msg_change [OF this n(1) ok, unfolded Let_def]
  note kept = c [THEN conjunct1] and dropped = c [THEN conjunct2, THEN conjunct1]
  have ok': "hs_ok ?hs" unfolding msg_store by (rule fold_invariant) (use ok in \<open>simp_all add: hs_ok_run\<close>)
  have cases: "gm_get (hs_local ?hs) i = gm_get (hs_local hs) i \<or>
      (env_Payload env = Some (PRetired i) \<and> gm_get (hs_local ?hs) i = None) \<or>
      (\<exists>e. gm_get (hs_local ?hs) i = Some e \<and> lh_NodeName (e_Report e) = st_node st2 \<and> or_AgentInstance (e_Origin e) = env_AgentInstanceId env \<and>
         registered R i \<and> home R i \<noteq> ?n) \<or>
      (gm_get (hs_local ?hs) i = None \<and> (\<exists>e. gm_get (hs_local hs) i = Some e \<and> lh_NodeName (e_Report e) = st_node st2))" for i
  proof (cases "gm_get (hs_local ?hs) i")
    case None
    have "env_Payload env = Some (PRetired i) \<or>
        own_change lh_NodeName (st_node st2) (env_AgentInstanceId env) (gm_get (hs_local hs) i) (gm_get (hs_local ?hs) i)" using kept by blast
    then show ?thesis
    proof
      assume "env_Payload env = Some (PRetired i)"
      with None show ?thesis by simp
    next
      assume "own_change lh_NodeName (st_node st2) (env_AgentInstanceId env) (gm_get (hs_local hs) i) (gm_get (hs_local ?hs) i)"
      then show ?thesis unfolding None own_change_def by (simp only: option.case) metis
    qed
  next
    case (Some e)
    show ?thesis
    proof (cases "gm_get (hs_local ?hs) i = gm_get (hs_local hs) i")
      case False
      have "own_change lh_NodeName (st_node st2) (env_AgentInstanceId env) (gm_get (hs_local hs) i) (gm_get (hs_local ?hs) i)"
      proof (cases "env_Payload env = Some (PRetired i)")
        case True
        then have "gm_get (hs_local ?hs) i = gm_get (hs_local hs) i \<or> gm_get (hs_local ?hs) i = None" by (rule dropped [THEN mp])
        with False Some show ?thesis by simp
      qed (rule kept [THEN mp])
      then have "lh_NodeName (e_Report e) = st_node st2 \<and> or_AgentInstance (e_Origin e) = env_AgentInstanceId env"
        using False Some by (simp add: own_change_def)
      with other_msg_home [OF h(1) sv ok st2 Some False] Some show ?thesis by blast
    qed simp
  qed
  have view: "node_view ?hs ?n i = node_view hs ?n i" for i
  proof -
    have home: "home R i = ?n" if "node_view hs ?n i \<noteq> None"
      using that h(2) by (auto simp: v restricted_def homed_def split: if_splits)
    from cases [of i] show ?thesis
    proof (elim disjE exE conjE)
      assume "env_Payload env = Some (PRetired i)" "gm_get (hs_local ?hs) i = None"
      then show ?thesis using ret [of i] by (simp add: node_view_def)
    next
      fix e assume e: "gm_get (hs_local ?hs) i = Some e" "lh_NodeName (e_Report e) = st_node st2" "home R i \<noteq> ?n"
      then have "node_view hs ?n i = None" using home by blast
      with e n(2) show ?thesis by (simp add: node_view_def [of ?hs])
    next
      fix e assume "gm_get (hs_local ?hs) i = None" "gm_get (hs_local hs) i = Some e" "lh_NodeName (e_Report e) = st_node st2"
      then show ?thesis using n(2) by (simp add: node_view_def)
    qed (simp add: node_view_def)
  qed
  have "\<exists>e0. gm_get (hs_local hs) i = Some e0 \<and> e_Origin e0 = e_Origin e"
    if "gm_get (hs_local ?hs) i = Some e" "or_AgentInstance (e_Origin e) = gs_InstanceID s" for i e
    using cases [of i] that inst by (metis option.distinct(1) option.inject)
  moreover have "gm_get (hs_nodeInstance ?hs) ?n = gm_get (hs_nodeInstance hs) ?n" using c n(2) by metis
  ultimately show ?thesis using view by (intro calm_mirrored [OF inv s ok']) simp_all
qed

definition reporting_inv :: "Registry \<Rightarrow> AuthenticatedAgent \<Rightarrow> Agent \<times> Stream \<times> HealthStore \<times> Stream list \<Rightarrow> bool" where
  "reporting_inv R ag x \<longleftrightarrow> (case x of (a, st, hs, os) \<Rightarrow> mirrored R ag (a, st, hs) \<and> homed R (aa_NodeName ag) a \<and>
     (\<forall>st2 \<in> set os. other_stream R (aa_NodeName ag) st2))"

lemma reporting_mirrored:
  assumes "all_home R" and "reporting L R ag x"
  shows "reporting_inv R ag x"
  using assms(2)
proof (induction rule: reporting.induct)
  case (connect a s hs e sv a' st' hs')
  then obtain y where y: "sweep_snapshot L e a = Some y" by blast
  then obtain a1 snap evs where snap: "sweep_snapshot L e a = Some (a1, snap, evs)" by (cases y) auto
  from mirrored_connect [OF connect(1-6) snap connect(8)] connect(9) round_homed [OF assms(1) connect(8,9)] snap
  show ?case by (simp add: reporting_inv_def)
next
  case (round a st hs os sv e a' st' hs')
  then show ?case using mirrored_round [of R ag a st hs L sv e] round_homed [OF assms(1) round(2,3)] by (simp add: reporting_inv_def)
next
  case (ack a st hs os s k)
  then show ?case by (auto simp: reporting_inv_def mirrored_def homed_def on_ack_def)
next
  case (agent a st hs os a')
  then show ?case by (auto simp: reporting_inv_def mirrored_def homed_def)
next
  case (expire a st hs os now)
  then show ?case using expire_mirrored by (simp add: reporting_inv_def)
next
  case (prune a st hs os now)
  then show ?case using prune_mirrored by (simp add: reporting_inv_def)
next
  case (join a st hs os st2)
  then show ?case by (auto simp: reporting_inv_def)
next
  case (other a st hs os s j sv env st2 hs2 outs fl)
  from other.IH have inv: "mirrored R ag (a, st, hs)" "homed R (aa_NodeName ag) a" "\<forall>st2 \<in> set os. other_stream R (aa_NodeName ag) st2"
    by (simp_all add: reporting_inv_def)
  then have o: "other_stream R (aa_NodeName ag) (os ! j)" using other.hyps(3) by simp
  have "mirrored R ag (a, st, hs2)"
    using other_mirrored [OF inv(1) assms(1) inv(2) other.hyps(2) o other.hyps(4,5,6)] other.hyps(7) by simp
  moreover have "other_stream R (aa_NodeName ag) st2" using other_kept [OF o other.hyps(4), of env hs] other.hyps(7) by simp
  then have "\<forall>st \<in> set (os[j := st2]). other_stream R (aa_NodeName ag) st" using inv(3) set_update_subset_insert [of os j st2] by auto
  ultimately show ?case using inv(2) by (simp add: reporting_inv_def)
qed

section \<open>Properties\<close>

text \<open>
  C5. The controller's store mirrors the agent's memory. Take one stream of an authenticated node, from its
  first sweep on, while its process stays the node's current one, its sends succeed and the registry
  stays the same, naming a node for every attachment and knowing each reported one by the report's
  coordinates or not at all. After any number of sweeps, as full snapshots or as changes only, with
  acknowledgements, expiry sweeps, prunes that find nothing of the node, and arbitrary messages on the
  streams of other authenticated nodes in between (other than a retirement of one of this node's
  attachments, which the server would obey), the store holds of the node exactly the readiness the agent
  reported last for each attachment the registry has, and nothing of an attachment the agent no longer sees.
\<close>

theorem store_mirrors_the_agent:
  assumes "reporting L R ag (a, st, hs, os)" and "reg_ok R" and "\<forall>k sc a. publishes R k sc a \<longrightarrow> att_NodeName a \<noteq> []"
  shows "node_view hs (aa_NodeName ag) i = (if registered R i then gm_get (ag_prev a) i else None)"
proof -
  from reporting_mirrored [OF all_homeI [OF assms(2,3)] assms(1)] show ?thesis by (auto simp: reporting_inv_def mirrored_def restricted_def)
qed

text \<open>An agent that sweeps twice on its first stream: a snapshot, then changes only.\<close>

definition mirror_agent :: Agent where
  "mirror_agent = (example_agent PathNone)\<lparr>ag_Sink := Some example_sink\<rparr>"

definition mirror_sweep :: sweep_env where
  "mirror_sweep = (example_sweep_env [example_net_svc])\<lparr>se_publish := Publish 5 6 (acks []) (\<lambda>_. None)\<rparr>"

lemma mirror_snapshot:
  obtains a' snap evs r where "sweep_snapshot example_labels mirror_sweep mirror_agent = Some (a', snap, evs)"
    "sn_Locals snap = [r]" "local_published (example_registry example_target) ''n1'' r" "registered (example_registry example_target) (lh_AttachmentID r)"
    "lh_AttachmentID r = ID example_target" "lh_Ready r" "length (sn_Paths snap) = 0"
proof -
  obtain a0 snap evs l where s: "sweep_snapshot example_labels (example_sweep_env [example_net_svc]) (example_agent PathNone) = Some (a0, snap, evs)"
    and l: "sn_Locals snap = [observation (example_agent PathNone) 7 example_target l]" "ln_Exists l" "ln_Usable l" "Has l ''10.0.0.1''"
    by (rule example_observed)
  have sink: "sweep_loop (a\<lparr>ag_Sink := x\<rparr>) now te atts = sweep_loop a now te atts" for a x now te and atts :: "Attachment list"
  proof -
    have "probe_turn (a\<lparr>ag_Sink := x\<rparr>) t at h l g = probe_turn a t at h l g"
      and "observation (a\<lparr>ag_Sink := x\<rparr>) now at l = observation a now at l" for t at h l g
      by (simp_all add: observation_def probe_turn_def probe_spec_def Let_def)
    then have "observe_turn (a\<lparr>ag_Sink := x\<rparr>) now t at h l g = observe_turn a now t at h l g" for t at h l g
      by (simp add: observe_turn_def Let_def)
    then have "sweep_turn (a\<lparr>ag_Sink := x\<rparr>) now t at = sweep_turn a now t at" for t at
      by (intro ext) (simp add: sweep_turn_def)
    moreover have "sweep_start (a\<lparr>ag_Sink := x\<rparr>) = sweep_start a" by (simp add: sweep_start_def)
    ultimately show ?thesis by (simp add: sweep_loop_def)
  qed
  have "sweep_snapshot example_labels mirror_sweep mirror_agent = map_option (\<lambda>(a', y). (a'\<lparr>ag_Sink := Some example_sink\<rparr>, y))
      (sweep_snapshot example_labels (example_sweep_env [example_net_svc]) (example_agent PathNone))"
  proof -
    have "path_phase (e\<lparr>se_publish := p\<rparr>) (a\<lparr>ag_Sink := x\<rparr>) g = path_phase e a g" for e p a x g
      by (auto simp: path_phase_def probe_phase_def Let_def split: option.split prod.split)
    then have "sweep_snapshot example_labels (e\<lparr>se_publish := p\<rparr>) (a\<lparr>ag_Sink := x\<rparr>) =
        map_option (\<lambda>(a', y). (a'\<lparr>ag_Sink := x\<rparr>, y)) (sweep_snapshot example_labels e a)" for e p a x
      by (simp add: sweep_snapshot_def sink split: sum.split prod.split)
    then show ?thesis by (simp add: mirror_sweep_def mirror_agent_def)
  qed
  then have sn: "sweep_snapshot example_labels mirror_sweep mirror_agent = Some (a0\<lparr>ag_Sink := Some example_sink\<rparr>, snap, evs)"
    by (simp add: s)
  let ?r = "observation (example_agent PathNone) 7 example_target l"
  have same: "lh_AttachmentID ?r = lh_AttachmentID (hd (sn_Locals (example_sweep example_target)))" "lh_IP ?r = lh_IP (hd (sn_Locals (example_sweep example_target)))"
    "lh_Interface ?r = lh_Interface (hd (sn_Locals (example_sweep example_target)))" "lh_NAD ?r = lh_NAD (hd (sn_Locals (example_sweep example_target)))"
    by (simp_all add: observation_def example_sweep_def)
  have p: "local_published (example_registry example_target) ''n1'' ?r"
    using example_published(1) [of example_target] by (simp only: local_published_def same) (simp add: example_att_def)
  then have "registered (example_registry example_target) (lh_AttachmentID ?r)"
    by (auto simp: local_published_def registered_def split: prod.splits)
  moreover have "lh_Ready ?r" using l(2-4) by (simp add: observation_def lh_Ready_def example_att_def)
  moreover have "lh_AttachmentID ?r = ID example_target" by (simp add: observation_def)
  moreover have "sn_Paths snap = []"
  proof -
    from s obtain g probes changed where "path_phase (example_sweep_env [example_net_svc]) (example_agent PathNone) g = (probes, sn_Paths snap, changed)"
      by (rule sweep_snapshot_Some)
    then show ?thesis by (simp add: path_phase_def example_agent_def PathNone_def PathICMP_def PathAssumeReady_def)
  qed
  ultimately show thesis using that sn l(1) p by simp
qed

lemma mirror_fits:
  assumes "sendSnapshot (\<lambda>_. None) snap s = (s1, envs, evs, err)"
  shows "length envs = length (sn_Locals snap) + length (sn_Paths snap) + 2"
proof -
  obtain b items e where "envs = b # items @ [e]" and "map env_Payload items = map Some (snapshot_items snap)"
    by (rule snapshot_sent [OF assms])
  from arg_cong [OF this(2), of length] this(1) show ?thesis by (simp add: snapshot_items_def)
qed

lemma store_mirrors_the_agent_witness:
  "\<exists>a st hs os. reporting example_labels (example_registry example_target) example_identity (a, st, hs, os) \<and> length os = 1 \<and>
     gm_get (ag_prev a) (ID example_target) = Some True \<and> node_view hs ''n1'' (ID example_target) = Some True"
proof -
  let ?R = "example_registry example_target" and ?e = mirror_sweep and ?a = mirror_agent and ?hs = "NewHealthStore time_Second"
  let ?sv = "example_sv ?R"
  obtain a' snap evs r where snap: "sweep_snapshot example_labels ?e ?a = Some (a', snap, evs)" and l: "sn_Locals snap = [r]"
    and r: "local_published ?R ''n1'' r" "registered ?R (lh_AttachmentID r)" "lh_AttachmentID r = ID example_target" "lh_Ready r"
    and paths: "length (sn_Paths snap) = 0"
    by (rule mirror_snapshot)
  have node: "aa_NodeName example_identity = ''n1''" by (simp add: example_identity_def)
  have sink: "ag_Sink ?a = Some example_sink" by (simp add: mirror_agent_def)
  have pub: "se_publish ?e = Publish 5 6 (acks []) (\<lambda>_. None)" by (simp add: mirror_sweep_def)
  have order: "\<forall>l. set (se_order ?e l) = set l" by (simp add: mirror_sweep_def example_sweep_env_def)
  obtain s' envs evs' err where p: "Publish 5 6 (acks []) (\<lambda>_. None) snap example_sink = (s', envs, evs', err)" by (metis prod_cases4)
  obtain s1 evs1 where send: "sendSnapshot (\<lambda>_. None) snap example_sink = (s1, envs, evs1, err)"
    by (rule Publish_full [OF p example_full(1,2)])
  have sw: "sweep example_labels ?e ?a = (a'\<lparr>ag_Sink := Some s'\<rparr>, envs, evs @ evs')"
    by (rule sweep_Some [OF snap sink]) (simp add: pub p)
  have q: "quiet ?R ?sv" by (simp add: quiet_def example_sv_def)
  have len: "unat (gs_seq example_sink) + length envs < 2 ^ 64" using mirror_fits [OF send] l paths by (simp add: example_sink_def)
  have good: "good_round example_labels ?R (aa_NodeName example_identity) ?sv ?e ?a"
    unfolding good_round_def snap sink sw using q order pub len r(1,2) by (auto simp: agrees_def l node)
  obtain st hs outs fl where run: "sync_run (map (Pair ?sv) envs) (new_Stream (Some example_identity)) ?hs = (st, hs, outs, fl)"
    by (metis prod_cases4)
  have below: "seq_below (gs_InstanceID example_sink) (gs_seq example_sink) ?hs" by (simp add: seq_below_def NewHealthStore_def)
  have round: "report_round example_labels ?sv ?e (?a, new_Stream (Some example_identity), ?hs) = (a'\<lparr>ag_Sink := Some s'\<rparr>, st, hs)"
    by (simp add: report_round_def sw run)
  have "gs_stream example_sink \<noteq> None" "gs_needSnapshot example_sink" "gs_InstanceID example_sink \<noteq> []"
    by (simp_all add: example_sink_def)
  from reporting.connect [OF sink this hs_ok_New below _ good round] snap
  have "reporting example_labels ?R example_identity (a'\<lparr>ag_Sink := Some s'\<rparr>, st, hs, [])" by simp
  moreover have "other_stream ?R (aa_NodeName example_identity) (new_Stream (Some (example_identity\<lparr>aa_NodeName := ''n2''\<rparr>)))"
    by (simp add: other_stream_def node) (simp add: new_Stream_def)
  ultimately have j: "reporting example_labels ?R example_identity
      (a'\<lparr>ag_Sink := Some s'\<rparr>, st, hs, [] @ [new_Stream (Some (example_identity\<lparr>aa_NodeName := ''n2''\<rparr>))])"
    by (rule reporting.join)
  let ?env = "example_env ''n2'' (PSnapshotBegin 1 0 0)" and ?st2 = "new_Stream (Some (example_identity\<lparr>aa_NodeName := ''n2''\<rparr>))"
  have inst: "gs_InstanceID s' = ''i9''"
    by (rule Publish_full_fields [OF p example_full(1,2)]) (simp add: example_sink_def)
  obtain st2 hs2 outs2 fl2 where m: "sync_msg ?sv ?env ?st2 hs = (st2, hs2, outs2, fl2)" by (metis prod_cases4)
  have rep: "reporting example_labels ?R example_identity (a'\<lparr>ag_Sink := Some s'\<rparr>, st, hs2, [st2])"
    using reporting.other [OF j _ _ _ _ _, of s' 0 ?sv ?env st2 hs2 outs2 fl2] m inst by (simp add: example_sv_def example_env_def)
  have "gm_get (ag_prev a') = last_seen [r]" using sweep_deltas [OF snap order] l by simp
  then have mem: "gm_get (ag_prev a') (ID example_target) = Some True" using r(3,4) by (simp add: last_seen_def)
  have "\<forall>k sc a. publishes ?R k sc a \<longrightarrow> att_NodeName a \<noteq> []"
    by (simp add: example_registry(2) example_att_def)
  from store_mirrors_the_agent [OF rep example_registry(1) this, of "ID example_target"] mem r(2,3) node
  have "node_view hs2 ''n1'' (ID example_target) = Some True" by simp
  with rep mem show ?thesis by fastforce
qed

end
