(* ===== verification/Adversary.thy ===== *)
theory Adversary
  imports Report_Mirror
begin

text \<open>
  The programs under \<^verbatim>\<open>test/tools\<close>: forged and stale reports, as the messages they send, against the
  server of \<^verbatim>\<open>health_server.go\<close>. Each program is a list of envelopes computed from its flags and the
  clock; printing and sleeping are left out. What the server makes of them is what the tools are for.
\<close>

section \<open>Dialling\<close>

text \<open>The options all three dial with, from \<^verbatim>\<open>--ca\<close>, \<^verbatim>\<open>--server-name\<close> and \<^verbatim>\<open>--token\<close>.\<close>

definition tool_options :: "(string \<Rightarrow> string \<Rightarrow> go_error + 'c) \<Rightarrow> string \<Rightarrow> string \<Rightarrow> string \<Rightarrow> go_error + 'c client_opts" where
  "tool_options fromFile ca serverName token =
     (let perRPC = (if token \<noteq> [] then Some (token, ca \<noteq> []) else None) in
      if ca \<noteq> [] then (case fromFile ca serverName of
          Inl e \<Rightarrow> Inl e
        | Inr tc \<Rightarrow> Inr \<lparr>co_Transport = Some tc, co_PerRPC = perRPC\<rparr>)
      else Inr \<lparr>co_Transport = None, co_PerRPC = perRPC\<rparr>)"

text \<open>To the transport a tool looks like an agent started with the same files.\<close>

lemma tool_dials_like_an_agent:
  "dial_options fromFile d = map_sum TlsFailed (\<lambda>opts. opts) (tool_options fromFile (dl_CAPath d) (dl_ServerName d) (dl_TokenPath d))"
  by (simp add: dial_options_def tool_options_def transportCreds_def session_requires_tls_def Let_def split: sum.split)

section \<open>spoof\<close>

record spoof_flags =
  sf_addr :: string
  sf_node :: string
  sf_attachment :: string
  sf_nad :: string
  sf_interface :: string
  sf_ip :: string
  sf_attack :: string
  sf_instance :: string

text \<open>The credential it attaches, from the content of the token file.\<close>

definition bearer_metadata :: "go_error + string \<Rightarrow> go_error + (string, string) gomap" where
  "bearer_metadata file = (case file of Inl e \<Rightarrow> Inl e | Inr t \<Rightarrow> Inr [(''authorization'', ''Bearer '' @ t)])"

definition spoof_ready :: "string \<Rightarrow> (bool \<times> bool) option" where
  "spoof_ready attack =
     (if attack = ''withdraw'' then Some (False, False) else if attack = ''keepalive'' then Some (True, True) else None)"

definition spoof_local :: "spoof_flags \<Rightarrow> bool \<Rightarrow> PbLocalHealth" where
  "spoof_local f localReady = \<lparr>pbl_AttachmentId = sf_attachment f, pbl_PodUid = [], pbl_Namespace = [], pbl_PodName = [],
     pbl_Nad = sf_nad f, pbl_InterfaceName = sf_interface f, pbl_Ip = sf_ip f, pbl_LocalReady = localReady,
     pbl_InterfaceExists = localReady, pbl_AddressPresent = localReady, pbl_LinkUsable = localReady, pbl_ObservedAtUnixNano = 0\<rparr>"

definition spoof_path :: "spoof_flags \<Rightarrow> bool \<Rightarrow> PbPathHealth" where
  "spoof_path f pathReady = \<lparr>pbp_Scope = PROBE_SCOPE_ENDPOINT, pbp_ScopeId = sf_attachment f, pbp_Nad = sf_nad f,
     pbp_Target = ''forged'', pbp_PathReady = pathReady, pbp_ObservedAtUnixNano = 0\<rparr>"

text \<open>\<open>None\<close> is exit 2.\<close>

definition spoof_main :: "spoof_flags \<Rightarrow> (PbLocalHealth \<times> PbPathHealth) option" where
  "spoof_main f =
     (if [] \<in> set [sf_addr f, sf_node f, sf_attachment f, sf_nad f, sf_interface f, sf_ip f, sf_attack f] then None
      else map_option (\<lambda>(localReady, pathReady). (spoof_local f localReady, spoof_path f pathReady)) (spoof_ready (sf_attack f)))"

definition spoof_instance :: "spoof_flags \<Rightarrow> nat \<Rightarrow> string" where
  "spoof_instance f epoch = sf_instance f @ ''-'' @ nat_string epoch"

text \<open>The ticks of a session with their readings of the clock; a send that fails ends it after \<open>k\<close> messages.\<close>

fun spoof_ticks :: "string \<Rightarrow> string \<Rightarrow> PbLocalHealth \<Rightarrow> PbPathHealth \<Rightarrow> 64 word \<Rightarrow> (int \<times> int) list \<Rightarrow> Envelope list" where
  "spoof_ticks node inst local path seq [] = []"
| "spoof_ticks node inst local path seq ((t, u) # ts) =
     \<lparr>env_NodeName = node, env_AgentInstanceId = inst, env_Sequence = seq + 1,
       env_Payload = Some (PLocal (local\<lparr>pbl_ObservedAtUnixNano := t\<rparr>))\<rparr> #
     \<lparr>env_NodeName = node, env_AgentInstanceId = inst, env_Sequence = seq + 2,
       env_Payload = Some (PPath (path\<lparr>pbp_ObservedAtUnixNano := u\<rparr>))\<rparr> #
     spoof_ticks node inst local path (seq + 2) ts"

definition spoof_session :: "string \<Rightarrow> string \<Rightarrow> PbLocalHealth \<Rightarrow> PbPathHealth \<Rightarrow> (int \<times> int) list \<Rightarrow> nat \<Rightarrow> Envelope list" where
  "spoof_session node inst local path ts k = take k (spoof_ticks node inst local path 0 ts)"

section \<open>g3replay\<close>

record g3_flags =
  gf_addr :: string
  gf_node :: string
  gf_attachment :: string
  gf_nad :: string
  gf_interface :: string
  gf_ip :: string
  gf_case :: string
  gf_ready :: bool

definition g3_local :: "g3_flags \<Rightarrow> int \<Rightarrow> PbLocalHealth" where
  "g3_local f t = \<lparr>pbl_AttachmentId = gf_attachment f, pbl_PodUid = [], pbl_Namespace = [], pbl_PodName = [],
     pbl_Nad = gf_nad f, pbl_InterfaceName = gf_interface f, pbl_Ip = gf_ip f, pbl_LocalReady = gf_ready f,
     pbl_InterfaceExists = gf_ready f, pbl_AddressPresent = gf_ready f, pbl_LinkUsable = gf_ready f, pbl_ObservedAtUnixNano = t\<rparr>"

definition g3_env :: "g3_flags \<Rightarrow> string \<Rightarrow> 64 word \<Rightarrow> PbLocalHealth \<Rightarrow> Envelope" where
  "g3_env f inst seq p = \<lparr>env_NodeName = gf_node f, env_AgentInstanceId = inst, env_Sequence = seq, env_Payload = Some (PLocal p)\<rparr>"

text \<open>
  The messages with the stream each is sent on; \<open>clock\<close> gives the instant of the k-th report. \<open>None\<close> is
  exit 2.
\<close>

definition g3_script :: "g3_flags \<Rightarrow> (nat \<Rightarrow> int) \<Rightarrow> (nat \<times> Envelope) list option" where
  "g3_script f clock =
     (if gf_addr f = [] \<or> gf_node f = [] \<or> gf_case f = [] then None
      else if gf_case f = ''connect'' then Some [(0, g3_env f ''g3-connect'' 1 (g3_local f (clock 0)))]
      else if gf_case f = ''replay-attachment'' then
        Some [(0, g3_env f ''g3-replay'' 1 (g3_local f (clock 0))), (0, g3_env f ''g3-replay'' 2 (g3_local f (clock 1)))]
      else if gf_case f = ''seq-rollback'' then
        Some [(0, g3_env f ''g3-roll'' 10 (g3_local f (clock 0))),
          (0, g3_env f ''g3-roll'' 5 ((g3_local f (clock 1))\<lparr>pbl_LocalReady := \<not> gf_ready f\<rparr>))]
      else if gf_case f = ''stale-instance'' then
        Some ([(0, g3_env f ''g3-OLD'' 1 (g3_local f (clock 0))), (1, g3_env f ''g3-NEW'' 1 (g3_local f (clock 1)))] @
          map (\<lambda>i. (0, g3_env f ''g3-OLD'' (of_nat (2 + i)) (g3_local f (clock (2 + i))))) [0..<5])
      else None)"

section \<open>healthreport\<close>

record hr_flags =
  hf_node :: string
  hf_instance :: string
  hf_case :: string
  hf_attachment :: string
  hf_nad :: string
  hf_interface :: string
  hf_ip :: string

definition hr_env :: "hr_flags \<Rightarrow> 64 word \<Rightarrow> Payload \<Rightarrow> Envelope" where
  "hr_env f seq p = \<lparr>env_NodeName = hf_node f, env_AgentInstanceId = hf_instance f, env_Sequence = seq, env_Payload = Some p\<rparr>"

definition hr_ghost :: "int \<Rightarrow> PbLocalHealth" where
  "hr_ghost t = \<lparr>pbl_AttachmentId = ''deadbeefdeadbeef'', pbl_PodUid = [], pbl_Namespace = [], pbl_PodName = ''ghost'',
     pbl_Nad = ''ghost/net'', pbl_InterfaceName = ''net1'', pbl_Ip = ''10.255.255.1'', pbl_LocalReady = True,
     pbl_InterfaceExists = True, pbl_AddressPresent = True, pbl_LinkUsable = True, pbl_ObservedAtUnixNano = t\<rparr>"

definition hr_node_path :: "hr_flags \<Rightarrow> int \<Rightarrow> PbPathHealth" where
  "hr_node_path f t = \<lparr>pbp_Scope = PROBE_SCOPE_NODE, pbp_ScopeId = ''0123456789abcdef'', pbp_Nad = hf_nad f,
     pbp_Target = ''10.0.0.1'', pbp_PathReady = True, pbp_ObservedAtUnixNano = t\<rparr>"

definition hr_local :: "hr_flags \<Rightarrow> bool \<Rightarrow> int \<Rightarrow> PbLocalHealth" where
  "hr_local f ready t = \<lparr>pbl_AttachmentId = hf_attachment f, pbl_PodUid = [], pbl_Namespace = [], pbl_PodName = [],
     pbl_Nad = hf_nad f, pbl_InterfaceName = hf_interface f, pbl_Ip = hf_ip f, pbl_LocalReady = ready,
     pbl_InterfaceExists = True, pbl_AddressPresent = ready, pbl_LinkUsable = True, pbl_ObservedAtUnixNano = t\<rparr>"

text \<open>\<open>None\<close> is exit 2, or exit 1 after the dial.\<close>

definition hr_script :: "hr_flags \<Rightarrow> (nat \<Rightarrow> int) \<Rightarrow> Envelope list option" where
  "hr_script f clock =
     (if hf_node f = [] \<or> hf_case f = [] then None
      else if hf_case f = ''unknown-attachment'' then Some [hr_env f 1 (PLocal (hr_ghost (clock 0)))]
      else if hf_case f = ''node-scope-path'' then Some [hr_env f 1 (PPath (hr_node_path f (clock 0)))]
      else if hf_case f = ''out-of-order'' then
        (if hf_attachment f = [] then None
         else Some [hr_env f 1 (PLocal (hr_local f True (clock 0))), hr_env f 1 (PLocal (hr_local f False (clock 1)))])
      else None)"

section \<open>Several streams\<close>

text \<open>Messages on numbered streams, in the order the server takes them; a stream whose handler returned takes no more.\<close>

fun script_run :: "server_env \<Rightarrow> (nat \<times> Envelope) list \<Rightarrow> (nat, Stream) gomap \<Rightarrow> HealthStore \<Rightarrow> (nat, Stream) gomap \<times> HealthStore" where
  "script_run sv [] sts hs = (sts, hs)"
| "script_run sv ((i, env) # ms) sts hs = (case gm_get sts i of
      None \<Rightarrow> script_run sv ms sts hs
    | Some st \<Rightarrow> (case sync_msg sv env st hs of (st', hs', _, fl) \<Rightarrow>
        (case fl of
           Ret _ \<Rightarrow> script_run sv ms (gm_del i sts) hs'
         | Panic \<Rightarrow> (sts, hs')
         | _ \<Rightarrow> script_run sv ms (gm_put i st' sts) hs')))"

lemma gm_get_Cons: "gm_get ((k, v) # m) k' = (if k' = k then Some v else gm_get m k')"
  by (simp add: gm_get_def)

section \<open>Refused reports\<close>

definition refused :: "Registry \<Rightarrow> string \<Rightarrow> Envelope \<Rightarrow> bool" where
  "refused R node env \<longleftrightarrow> (case env_Payload env of
      Some (PLocal m) \<Rightarrow> localFrom R node m = None
    | Some (PPath m) \<Rightarrow> pathFrom R node m = None
    | _ \<Rightarrow> False)"

definition same_but_adopted :: "string \<Rightarrow> HealthStore \<Rightarrow> HealthStore \<Rightarrow> bool" where
  "same_but_adopted node hs hs' \<longleftrightarrow> hs_local hs' = hs_local hs \<and> hs_path hs' = hs_path hs \<and> hs_ttl hs' = hs_ttl hs \<and>
     (\<forall>n. n \<noteq> node \<longrightarrow> gm_get (hs_nodeInstance hs') n = gm_get (hs_nodeInstance hs) n)"

lemma same_states:
  "same_but_adopted node hs hs' \<Longrightarrow> LocalState hs' t i = LocalState hs t i \<and> PathState hs' t i = PathState hs t i"
  by (auto simp: same_but_adopted_def LocalState_def PathState_def Local_def Path_def split: option.split)

lemma refused_msg:
  assumes "st_agent st = Some ag" and "st_node st = aa_NodeName ag" and "refused (sv_Registry sv) (aa_NodeName ag) env"
    and "sync_msg sv env st hs = (st', hs', outs, fl)"
  shows "st_agent st' = Some ag \<and> st_node st' = aa_NodeName ag \<and> same_but_adopted (aa_NodeName ag) hs hs'"
proof -
  obtain st1 hs1 o1 f1 where a: "adopt sv env st hs = (st1, hs1, o1, f1)" by (metis prod_cases4)
  have 1: "st_agent st1 = Some ag" "st_node st1 = aa_NodeName ag" "same_but_adopted (aa_NodeName ag) hs hs1"
    using a assms(1,2) by (auto simp: adopt_def Let_def AdoptInstance_def same_but_adopted_def split: if_splits)
  have "st_agent st2 = Some ag \<and> st_node st2 = aa_NodeName ag \<and> hs2 = hs1" if "sync_body sv env st1 hs1 = (st2, hs2, o2, f2)" for st2 hs2 o2 f2
    using that assms(3) 1(1,2)
    by (auto simp: refused_def sync_body_def on_payload_def on_local_def on_path_def Let_def
      split: option.splits Payload.splits if_splits)
  with a 1 assms(4) show ?thesis by (auto simp: sync_msg_def split: if_splits prod.splits)
qed

lemma refused_run:
  assumes "st_agent st = Some ag" and "st_node st = aa_NodeName ag" and "\<forall>env \<in> set envs. refused (sv_Registry sv) (aa_NodeName ag) env"
  shows "same_but_adopted (aa_NodeName ag) hs (fst (snd (sync_run (map (Pair sv) envs) st hs)))"
  using assms
proof (induction envs arbitrary: st hs)
  case Nil
  show ?case by (simp add: same_but_adopted_def)
next
  case (Cons env envs)
  obtain st1 hs1 o1 fl where m: "sync_msg sv env st hs = (st1, hs1, o1, fl)" by (metis prod_cases4)
  from refused_msg [OF Cons.prems(1,2) _ m] Cons.prems(3)
  have 1: "st_agent st1 = Some ag" "st_node st1 = aa_NodeName ag" "same_but_adopted (aa_NodeName ag) hs hs1" by simp_all
  from Cons.IH [OF 1(1,2), of hs1] Cons.prems(3)
  have "same_but_adopted (aa_NodeName ag) hs1 (fst (snd (sync_run (map (Pair sv) envs) st1 hs1)))" by simp
  with 1(3) show ?case by (cases fl) (auto simp: m same_but_adopted_def split: prod.splits)
qed

text \<open>What the sender's node does not run is refused.\<close>

lemma elsewhere_refused:
  assumes "reg_ok R" and "n \<noteq> []" and "m \<noteq> n"
    and "\<And>k sc b. publishes R k sc b \<Longrightarrow> ID b = i \<or> PathKey b sc = i \<Longrightarrow> att_NodeName b = n"
  shows "pbl_AttachmentId l = i \<Longrightarrow> localFrom R m l = None" and "pbp_ScopeId p = i \<Longrightarrow> pathFrom R m p = None"
proof -
  show "localFrom R m l = None" if "pbl_AttachmentId l = i"
  proof (cases "reg_Attachment R i")
    case (fields a ks ok)
    show ?thesis
    proof (cases ok)
      case True
      with reg.known [OF assms(1), of i a ks] fields obtain k sc where "ID a = i" "publishes R k sc a" by auto
      then have "att_NodeName a = n" using assms(4) by blast
      then show ?thesis using that fields assms(2,3) by (simp add: localFrom_def)
    qed (use that fields in \<open>simp add: localFrom_def\<close>)
  qed
  show "pathFrom R m p = None" if "pbp_ScopeId p = i"
  proof -
    have "\<not> reg_PathKeyOnNode R i m"
    proof
      assume "reg_PathKeyOnNode R i m"
      then have "{att_NodeName a | k sc a. publishes R k sc a \<and> PathKey a sc = i} = {m}" using reg.onnode [OF assms(1)] by blast
      moreover have "{att_NodeName a | k sc a. publishes R k sc a \<and> PathKey a sc = i} \<subseteq> {n}" using assms(4) by blast
      ultimately show False using assms(3) by blast
    qed
    then show ?thesis using that by (simp add: pathFrom_def split: prod.split)
  qed
qed

lemma ticks_payload:
  "env \<in> set (spoof_ticks node inst l p q ts) \<Longrightarrow>
     (\<exists>t. env_Payload env = Some (PLocal (l\<lparr>pbl_ObservedAtUnixNano := t\<rparr>))) \<or> (\<exists>t. env_Payload env = Some (PPath (p\<lparr>pbp_ObservedAtUnixNano := t\<rparr>)))"
  by (induction node inst l p q ts rule: spoof_ticks.induct) auto

text \<open>An accepted first report, and a path report behind it.\<close>

definition speaks_for :: "AuthenticatedAgent option \<Rightarrow> Envelope \<Rightarrow> string \<Rightarrow> bool" where
  "speaks_for agent env node \<longleftrightarrow> (case agent of Some ag \<Rightarrow> node = aa_NodeName ag | None \<Rightarrow> node = env_NodeName env \<and> node \<noteq> [])"

lemma fresh_in_order: "\<forall>e \<in> snd ` set m. or_AgentInstance (e_Origin e) \<noteq> or_AgentInstance og \<Longrightarrow> in_order (gm_get m i) og"
proof (cases "gm_get m i")
  case (Some e)
  then have "e \<in> snd ` set m" using gm_get_Some_mem by force
  moreover assume "\<forall>e \<in> snd ` set m. or_AgentInstance (e_Origin e) \<noteq> or_AgentInstance og"
  ultimately show ?thesis by (auto simp: Some in_order_def)
qed (simp add: in_order_def)

lemma first_local:
  assumes "quiet R sv" and "inst \<noteq> []" and "env_AgentInstanceId env = inst" and "env_Payload env = Some (PLocal m)"
    and "localFrom R node m = Some (r, owners)" and "speaks_for agent env node"
    and "og = \<lparr>or_NodeName = node, or_AgentInstance = inst, or_Sequence = env_Sequence env\<rparr>"
    and "in_order (gm_get (hs_local hs) (lh_AttachmentID r)) og"
  shows "\<exists>st' outs. sync_msg sv env (new_Stream agent) hs =
      (st', (fst (AdoptInstance node inst hs))\<lparr>hs_local := gm_put (lh_AttachmentID r) (new_entry og (sv_now sv) r) (hs_local hs)\<rparr>, outs, Fall) \<and>
    live node inst st'"
proof -
  have sv: "sv_Registry sv = R" "sv_send sv = (\<lambda>_. None)" using assms(1) by (simp_all add: quiet_def)
  let ?hs = "fst (AdoptInstance node inst hs)"
  obtain st1 o1 where a: "adopt sv env (new_Stream agent) hs = (st1, ?hs, o1, Fall)" and st1: "live node inst st1" "st_since st1 = 0"
    using assms(2,3,6) by (cases agent) (auto simp: adopt_def new_Stream_def Let_def sent_def sv live_def speaks_for_def acked_def AdoptInstance_def)
  have og: "stream_origin (st1\<lparr>st_lastSeq := q, st_since := k\<rparr>) env = og" for q k using st1(1) by (simp add: stream_origin_def live_def assms(7))
  have "AcceptLocal og r (sv_now sv) ?hs =
      (?hs\<lparr>hs_local := gm_put (lh_AttachmentID r) (new_entry og (sv_now sv) r) (hs_local hs)\<rparr>, None)"
    using assms(8) by (simp add: AcceptLocal_def adopted_current assms(7)) (simp add: AdoptInstance_def)
  then show ?thesis
    using st1 by (simp add: sync_msg_def a sync_body_def assms(3,4) on_payload_def on_local_def sv assms(5) og Let_def live_def ackEvery_def)
qed

lemma next_path:
  assumes "quiet R sv" and "live node inst st" and "env_AgentInstanceId env = inst" and "env_Payload env = Some (PPath m)"
    and "pathFrom R node m = Some (r, owners)" and "gm_get (hs_nodeInstance hs) node = Some inst"
    and "og = \<lparr>or_NodeName = node, or_AgentInstance = inst, or_Sequence = env_Sequence env\<rparr>"
    and "in_order (gm_get (hs_path hs) (ph_ScopeID r)) og"
  shows "fst (snd (sync_msg sv env st hs)) = hs\<lparr>hs_path := gm_put (ph_ScopeID r) (new_entry og (sv_now sv) r) (hs_path hs)\<rparr>"
proof -
  let ?st = "st\<lparr>st_lastSeq := env_Sequence env, st_since := st_since st + 1\<rparr>"
  have sv: "sv_Registry sv = R" using assms(1) by (simp add: quiet_def)
  have st: "st_adopted st" "st_instance st = inst" "st_node ?st = node" "\<not> st_inSnapshot ?st" using assms(2) by (simp_all add: live_def)
  have "stream_origin ?st env = og" using assms(2) by (simp add: stream_origin_def live_def assms(7))
  moreover have "AcceptPath og r (sv_now sv) hs = (hs\<lparr>hs_path := gm_put (ph_ScopeID r) (new_entry og (sv_now sv) r) (hs_path hs)\<rparr>, None)"
    using assms(6,8) by (simp add: AcceptPath_def currentLocked_def assms(7))
  ultimately have "fst (snd (on_path sv env m ?st hs)) = hs\<lparr>hs_path := gm_put (ph_ScopeID r) (new_entry og (sv_now sv) r) (hs_path hs)\<rparr>"
    unfolding path_store sv st(3) assms(5) using st(4) by simp
  then show ?thesis
    by (auto simp: adopted_msg [OF st(1)] sync_body_def assms(3,4) st(2) on_payload_def Let_def split: prod.splits)
qed

text \<open>A report behind the last one is refused, and the stream goes on.\<close>

lemma next_local_behind:
  assumes "quiet R sv" and "live node inst st" and "env_AgentInstanceId env = inst" and "env_Payload env = Some (PLocal m)"
    and "localFrom R node m = Some (r, owners)" and "gm_get (hs_nodeInstance hs) node = Some inst"
    and "og = \<lparr>or_NodeName = node, or_AgentInstance = inst, or_Sequence = env_Sequence env\<rparr>"
    and "\<not> in_order (gm_get (hs_local hs) (lh_AttachmentID r)) og"
  shows "\<exists>st' outs. sync_msg sv env st hs = (st', hs, outs, Skip)"
proof -
  have sv: "sv_Registry sv = R" using assms(1) by (simp add: quiet_def)
  have st: "st_adopted st" "st_instance st = inst" "st_node st = node" "\<not> st_inSnapshot st" using assms(2) by (simp_all add: live_def)
  have og: "stream_origin (st\<lparr>st_lastSeq := q, st_since := k\<rparr>) env = og" for q k by (simp add: stream_origin_def st assms(7))
  have "AcceptLocal og r (sv_now sv) hs = (hs, Some ErrOutOfOrder)"
    using assms(6,8) by (simp add: AcceptLocal_def currentLocked_def assms(7))
  then show ?thesis
    by (simp add: adopted_msg [OF st(1)] sync_body_def assms(3,4) st on_payload_def on_local_def sv assms(5) og Let_def)
qed

section \<open>Properties\<close>

text \<open>
  C23. Spoofing does nothing against an authenticated transport. Without a token the stream is refused in
  full mode; and on the stream of an identity of another node than the victim's, whatever the tool
  forges and for however long, not one verdict of the store changes and no other node's process is superseded.
\<close>

theorem spoofing_changes_nothing:
  assumes "reg_ok R" and "sv_Registry sv = R" and "spoof_main f = Some (l, p)" and "n \<noteq> []" and "aa_NodeName ag \<noteq> n"
    and "\<And>k sc b. publishes R k sc b \<Longrightarrow> ID b = sf_attachment f \<or> PathKey b sc = sf_attachment f \<Longrightarrow> att_NodeName b = n"
    and "hs' = fst (snd (sync_run (map (Pair sv) (spoof_session (sf_node f) inst l p ts k)) (new_Stream (Some ag)) hs))"
  shows "(\<exists>err. sync_start True (K8sAuth ka) api agents None = Inl err) \<and>
    LocalState hs' t j = LocalState hs t j \<and> PathState hs' t j = PathState hs t j \<and>
    (\<forall>node. node \<noteq> aa_NodeName ag \<longrightarrow> gm_get (hs_nodeInstance hs') node = gm_get (hs_nodeInstance hs) node)"
proof -
  have lp: "pbl_AttachmentId (l\<lparr>pbl_ObservedAtUnixNano := u\<rparr>) = sf_attachment f" "pbp_ScopeId (p\<lparr>pbp_ObservedAtUnixNano := u\<rparr>) = sf_attachment f" for u
    using assms(3) by (auto simp: spoof_main_def spoof_local_def spoof_path_def split: if_splits)
  note no = elsewhere_refused [OF assms(1,4,5,6), where i = "sf_attachment f"]
  have "refused (sv_Registry sv) (aa_NodeName ag) env" if "env \<in> set (spoof_session (sf_node f) inst l p ts k)" for env
  proof -
    from that have "env \<in> set (spoof_ticks (sf_node f) inst l p 0 ts)" unfolding spoof_session_def by (rule in_set_takeD)
    from ticks_payload [OF this] lp no show ?thesis by (auto simp: refused_def assms(2))
  qed
  moreover have "st_agent (new_Stream (Some ag)) = Some ag" "st_node (new_Stream (Some ag)) = aa_NodeName ag" by (simp_all add: new_Stream_def)
  ultimately have "same_but_adopted (aa_NodeName ag) hs hs'" unfolding assms(7) using refused_run by blast
  moreover have "\<exists>err. sync_start True (K8sAuth ka) api agents None = Inl err"
    by (simp add: sync_start_def authenticate_def K8s_Authenticate_def reviewToken_def)
  ultimately show ?thesis using same_states by (auto simp: same_but_adopted_def)
qed

text \<open>An example: the attachment of one Pod on node n1, and tools aimed at it.\<close>

definition victim_flags :: spoof_flags where
  "victim_flags = \<lparr>sf_addr = ''c:9090'', sf_node = ''n1'', sf_attachment = ID example_target, sf_nad = att_NAD example_target,
     sf_interface = att_Interface example_target, sf_ip = att_IP example_target, sf_attack = ''keepalive'', sf_instance = ''attacker''\<rparr>"

lemma victim_main: "spoof_main victim_flags = Some (spoof_local victim_flags True, spoof_path victim_flags True)"
  by (simp add: spoof_main_def victim_flags_def example_att_def spoof_ready_def)

lemma victim_registry:
  "reg_ok (example_registry example_target)" "quiet (example_registry example_target) (example_sv (example_registry example_target))"
  "publishes (example_registry example_target) k sc b \<Longrightarrow> att_NodeName b = ''n1''"
  using example_registry [of example_target] by (auto simp: quiet_def example_sv_def example_att_def)

lemma victim_published:
  "pbl_AttachmentId m = ID example_target \<Longrightarrow> pbl_Ip m = att_IP example_target \<Longrightarrow> pbl_InterfaceName m = att_Interface example_target \<Longrightarrow>
    pbl_Nad m = att_NAD example_target \<Longrightarrow> localFrom (example_registry example_target) ''n1'' m \<noteq> None"
  "pbp_ScopeId q = ID example_target \<Longrightarrow> pathFrom (example_registry example_target) ''n1'' q \<noteq> None"
proof -
  note p = example_published [of example_target]
  show "pbl_AttachmentId m = ID example_target \<Longrightarrow> pbl_Ip m = att_IP example_target \<Longrightarrow> pbl_InterfaceName m = att_Interface example_target \<Longrightarrow>
    pbl_Nad m = att_NAD example_target \<Longrightarrow> localFrom (example_registry example_target) ''n1'' m \<noteq> None"
    using p(1) by (auto simp: local_published_def localFrom_def example_sweep_def example_att_def split: prod.splits)
  show "pbp_ScopeId q = ID example_target \<Longrightarrow> pathFrom (example_registry example_target) ''n1'' q \<noteq> None"
    using p(2) by (auto simp: path_published_def pathFrom_def example_sweep_def example_att_def split: prod.splits)
qed

lemma spoofing_changes_nothing_witness:
  "LocalState (fst (snd (sync_run (map (Pair (example_sv (example_registry example_target)))
      (spoof_session ''n1'' ''attacker-1'' (spoof_local victim_flags True) (spoof_path victim_flags True) [(1, 2), (3, 4)] 4))
      (new_Stream (Some (example_identity\<lparr>aa_NodeName := ''n2''\<rparr>))) example_store))) 5 (ID example_target) = LocalState example_store 5 (ID example_target)"
proof -
  have sv: "sv_Registry (example_sv (example_registry example_target)) = example_registry example_target" by (simp add: example_sv_def)
  have n: "''n1'' \<noteq> []" "aa_NodeName (example_identity\<lparr>aa_NodeName := ''n2''\<rparr>) \<noteq> ''n1''" "sf_node victim_flags = ''n1''"
    by (simp_all add: victim_flags_def)
  note s = spoofing_changes_nothing [OF victim_registry(1) sv victim_main n(1,2) _ refl, unfolded n(3)]
  show ?thesis by (rule s [THEN conjunct2, THEN conjunct1]) (rule victim_registry(3))
qed

text \<open>
  C24. Without authentication the forger decides. When the server takes the node from the envelope, one
  tick of the tool under a new process name is enough: the victim's local and path verdict are the ones
  the attack asks for, whatever its own agent reported before, until the lease runs out.
\<close>

theorem forger_decides_without_authentication:
  assumes "quiet R sv" and "spoof_main f = Some (l, p)" and "localFrom R (sf_node f) l \<noteq> None" and "pathFrom R (sf_node f) p \<noteq> None"
    and "inst \<noteq> []" and "\<forall>e \<in> snd ` set (hs_local hs). or_AgentInstance (e_Origin e) \<noteq> inst"
    and "\<forall>e \<in> snd ` set (hs_path hs). or_AgentInstance (e_Origin e) \<noteq> inst" and "time_sub now (sv_now sv) \<le> hs_ttl hs"
    and "hs' = fst (snd (sync_run (map (Pair sv) (spoof_session (sf_node f) inst l p [(t, u)] 2)) (new_Stream None) hs))"
  shows "LocalState hs' now (sf_attachment f) = (if sf_attack f = ''withdraw'' then StateUnhealthy else StateHealthy) \<and>
    PathState hs' now (sf_attachment f) = (if sf_attack f = ''withdraw'' then StateUnhealthy else StateHealthy)"
proof -
  let ?n = "sf_node f" and ?i = "sf_attachment f" and ?ok = "sf_attack f \<noteq> ''withdraw''"
  have node: "?n \<noteq> []" and l: "l = spoof_local f ?ok" and p: "p = spoof_path f ?ok"
    using assms(2) by (auto simp: spoof_main_def spoof_ready_def split: if_splits)
  let ?m1 = "l\<lparr>pbl_ObservedAtUnixNano := t\<rparr>" and ?m2 = "p\<lparr>pbp_ObservedAtUnixNano := u\<rparr>"
  let ?e1 = "\<lparr>env_NodeName = ?n, env_AgentInstanceId = inst, env_Sequence = 1, env_Payload = Some (PLocal ?m1)\<rparr>"
  let ?e2 = "\<lparr>env_NodeName = ?n, env_AgentInstanceId = inst, env_Sequence = 2, env_Payload = Some (PPath ?m2)\<rparr>"
  have envs: "spoof_session ?n inst l p [(t, u)] 2 = [?e1, ?e2]" by (simp add: spoof_session_def numeral_2_eq_2)
  obtain r ow where r: "localFrom R ?n ?m1 = Some (r, ow)" using assms(3) by (auto simp: localFrom_def split: prod.splits if_splits)
  obtain q qw where q: "pathFrom R ?n ?m2 = Some (q, qw)" using assms(4) by (auto simp: pathFrom_def split: prod.splits if_splits)
  have rf: "lh_AttachmentID r = ?i" "lh_Ready r = ?ok" using localFrom_Some [OF r] by (auto simp: l spoof_local_def)
  have qf: "ph_ScopeID q = ?i" "ph_PathReady q = ?ok" using pathFrom_Some [OF q] by (auto simp: p spoof_path_def)
  let ?og = "\<lambda>s. \<lparr>or_NodeName = ?n, or_AgentInstance = inst, or_Sequence = s\<rparr>"
  have o1: "in_order (gm_get (hs_local hs) (lh_AttachmentID r)) (?og 1)"
    by (rule fresh_in_order) (use assms(6) in simp)
  let ?hs1 = "(fst (AdoptInstance ?n inst hs))\<lparr>hs_local := gm_put (lh_AttachmentID r) (new_entry (?og 1) (sv_now sv) r) (hs_local hs)\<rparr>"
  have sp: "speaks_for None ?e1 ?n" using node by (simp add: speaks_for_def)
  obtain st1 outs1 where m1: "sync_msg sv ?e1 (new_Stream None) hs = (st1, ?hs1, outs1, Fall)" and st1: "live ?n inst st1"
    using first_local [OF assms(1,5) _ _ r sp, of "?og 1" hs] o1 by auto
  have o2: "in_order (gm_get (hs_path ?hs1) (ph_ScopeID q)) (?og 2)"
    by (rule fresh_in_order) (use assms(7) in \<open>simp add: AdoptInstance_def\<close>)
  have m2: "fst (snd (sync_msg sv ?e2 st1 ?hs1)) = ?hs1\<lparr>hs_path := gm_put (ph_ScopeID q) (new_entry (?og 2) (sv_now sv) q) (hs_path ?hs1)\<rparr>"
    by (rule next_path [OF assms(1) st1 _ _ q _ _ o2]) (simp_all add: AdoptInstance_def)
  have "hs' = ?hs1\<lparr>hs_path := gm_put (ph_ScopeID q) (new_entry (?og 2) (sv_now sv) q) (hs_path ?hs1)\<rparr>"
    using m2 unfolding assms(9) envs by (auto simp: m1 split: prod.splits flow.splits)
  then show ?thesis using assms(8) rf qf
    by (simp add: LocalState_def PathState_def Local_def Path_def AdoptInstance_def new_entry_def)
qed

lemma forger_decides_without_authentication_witness:
  "LocalState (fst (snd (sync_run (map (Pair (example_sv (example_registry example_target)))
      (spoof_session ''n1'' ''attacker-1'' (spoof_local victim_flags True) (spoof_path victim_flags True) [(1, 2)] 2)) (new_Stream None)
      (NewHealthStore time_Second)))) 10 (ID example_target) = StateHealthy"
proof -
  have f: "sf_node victim_flags = ''n1''" "sf_attachment victim_flags = ID example_target" "sf_attack victim_flags = ''keepalive''"
    by (simp_all add: victim_flags_def)
  have l: "localFrom (example_registry example_target) (sf_node victim_flags) (spoof_local victim_flags True) \<noteq> None"
    "pathFrom (example_registry example_target) (sf_node victim_flags) (spoof_path victim_flags True) \<noteq> None"
    unfolding f(1) by (rule victim_published; simp add: spoof_local_def spoof_path_def victim_flags_def)+
  have t: "time_sub 10 (sv_now (example_sv (example_registry example_target))) \<le> hs_ttl (NewHealthStore time_Second)"
    by (simp add: example_sv_def NewHealthStore_def time_sub_def)
  from forger_decides_without_authentication [OF victim_registry(2) victim_main l _ _ _ t refl, of "''attacker-1''" 1 2]
  show ?thesis by (simp add: f NewHealthStore_def)
qed

text \<open>
  A rolled-back sequence changes nothing. In the \<^verbatim>\<open>seq-rollback\<close> case the store after both messages is
  the store after the first, and the entry it holds is the first one. The tool cannot see the
  difference, though: it flips \<^verbatim>\<open>local_ready\<close> only, which the server never reads, so the second
  report would not have changed the verdict had it been accepted.
\<close>

theorem rollback_refused_unseen:
  assumes "gf_case f = ''seq-rollback''" and "g3_script f clock = Some ms" and "quiet R sv"
    and "localFrom R (aa_NodeName ag) (g3_local f (clock 0)) \<noteq> None"
    and "\<forall>e \<in> snd ` set (hs_local hs). or_AgentInstance (e_Origin e) \<noteq> ''g3-roll''"
    and "hs' = snd (script_run sv ms [(0, new_Stream (Some ag))] hs)"
  shows "hs' = snd (script_run sv (take 1 ms) [(0, new_Stream (Some ag))] hs) \<and>
    (\<exists>e. gm_get (hs_local hs') (gf_attachment f) = Some e \<and> or_Sequence (e_Origin e) = 10 \<and> lh_Ready (e_Report e) = gf_ready f) \<and>
    (\<exists>m r owners. env_Payload (snd (ms ! 1)) = Some (PLocal m) \<and> pbl_LocalReady m \<noteq> gf_ready f \<and>
       localFrom R (aa_NodeName ag) m = Some (r, owners) \<and> lh_Ready r = gf_ready f)"
proof -
  let ?n = "aa_NodeName ag" and ?m1 = "g3_local f (clock 0)" and ?m2 = "(g3_local f (clock 1))\<lparr>pbl_LocalReady := \<not> gf_ready f\<rparr>"
  let ?e1 = "g3_env f ''g3-roll'' 10 ?m1" and ?e2 = "g3_env f ''g3-roll'' 5 ?m2"
  have ms: "ms = [(0, ?e1), (0, ?e2)]" using assms(1,2) by (simp add: g3_script_def split: if_splits)
  obtain r ow where r: "localFrom R ?n ?m1 = Some (r, ow)" using assms(4) by auto
  obtain r2 ow2 where r2: "localFrom R ?n ?m2 = Some (r2, ow2)"
    using assms(4) by (auto simp: localFrom_def g3_local_def split: prod.splits if_splits)
  have f: "lh_AttachmentID r = gf_attachment f" "lh_Ready r = gf_ready f" "lh_AttachmentID r2 = gf_attachment f" "lh_Ready r2 = gf_ready f"
    using localFrom_Some [OF r] localFrom_Some [OF r2] by (auto simp: g3_local_def)
  let ?og = "\<lambda>s. \<lparr>or_NodeName = ?n, or_AgentInstance = ''g3-roll'', or_Sequence = s\<rparr>"
  let ?hs1 = "(fst (AdoptInstance ?n ''g3-roll'' hs))\<lparr>hs_local := gm_put (lh_AttachmentID r) (new_entry (?og 10) (sv_now sv) r) (hs_local hs)\<rparr>"
  have o: "in_order (gm_get (hs_local hs) (lh_AttachmentID r)) (?og 10)" by (rule fresh_in_order) (use assms(5) in simp)
  have sp: "speaks_for (Some ag) ?e1 ?n" by (simp add: speaks_for_def)
  obtain st1 o1 where m1: "sync_msg sv ?e1 (new_Stream (Some ag)) hs = (st1, ?hs1, o1, Fall)" and st1: "live ?n ''g3-roll'' st1"
    using first_local [OF assms(3) _ _ _ r sp, of "''g3-roll''" "?og 10" hs] o by (auto simp: g3_env_def)
  have "\<exists>st2 o2. sync_msg sv ?e2 st1 ?hs1 = (st2, ?hs1, o2, Skip)"
    by (rule next_local_behind [OF assms(3) st1 _ _ r2, where og = "?og 5"])
       (simp_all add: g3_env_def AdoptInstance_def in_order_def f new_entry_def)
  then have "hs' = ?hs1" and "snd (script_run sv (take 1 ms) [(0, new_Stream (Some ag))] hs) = ?hs1"
    unfolding assms(6) ms using m1 by (auto simp: gm_get_Cons)
  then show ?thesis using r2 f by (simp add: ms g3_env_def new_entry_def g3_local_def)
qed

definition replay_flags :: "string \<Rightarrow> g3_flags" where
  "replay_flags c = \<lparr>gf_addr = ''c:9090'', gf_node = ''n1'', gf_attachment = ID example_target, gf_nad = att_NAD example_target,
     gf_interface = att_Interface example_target, gf_ip = att_IP example_target, gf_case = c, gf_ready = True\<rparr>"

lemma replay_published: "localFrom (example_registry example_target) (aa_NodeName example_identity) (g3_local (replay_flags c) t) \<noteq> None"
  using victim_published(1) [of "g3_local (replay_flags c) t"] by (simp add: g3_local_def replay_flags_def example_identity_def)

lemma rollback_refused_unseen_witness:
  "\<exists>ms e. g3_script (replay_flags ''seq-rollback'') (\<lambda>_. 3) = Some ms \<and>
     gm_get (hs_local (snd (script_run (example_sv (example_registry example_target)) ms [(0, new_Stream (Some example_identity))]
       (NewHealthStore time_Second)))) (ID example_target) = Some e \<and> or_Sequence (e_Origin e) = 10"
proof -
  obtain ms where ms: "g3_script (replay_flags ''seq-rollback'') (\<lambda>_. 3) = Some ms" by (simp add: g3_script_def replay_flags_def)
  have c: "gf_case (replay_flags ''seq-rollback'') = ''seq-rollback''" "gf_attachment (replay_flags ''seq-rollback'') = ID example_target"
    by (simp_all add: replay_flags_def)
  have e: "\<forall>e \<in> snd ` set (hs_local (NewHealthStore time_Second)). or_AgentInstance (e_Origin e) \<noteq> ''g3-roll''" by (simp add: NewHealthStore_def)
  from rollback_refused_unseen [OF c(1) ms victim_registry(2) replay_published e refl] ms show ?thesis unfolding c(2) by blast
qed

text \<open>
  C25. A superseded process is cut off. In the \<^verbatim>\<open>stale-instance\<close> case the store after the
  whole script is the store after the new process has spoken, and the old process's stream is closed.
\<close>

theorem stale_instance_cut_off:
  assumes "gf_case f = ''stale-instance''" and "g3_script f clock = Some ms" and "quiet R sv"
    and "localFrom R (aa_NodeName ag) (g3_local f (clock 0)) \<noteq> None"
    and "\<forall>e \<in> snd ` set (hs_local hs). or_AgentInstance (e_Origin e) \<notin> {''g3-OLD'', ''g3-NEW''}"
    and "script_run sv ms [(0, new_Stream (Some ag)), (1, new_Stream (Some ag))] hs = (sts', hs')"
  shows "hs' = snd (script_run sv (take 2 ms) [(0, new_Stream (Some ag)), (1, new_Stream (Some ag))] hs) \<and>
    gm_get sts' 0 = None \<and> gm_get (hs_nodeInstance hs') (aa_NodeName ag) = Some ''g3-NEW'' \<and>
    (\<exists>e. gm_get (hs_local hs') (gf_attachment f) = Some e \<and> or_AgentInstance (e_Origin e) = ''g3-NEW'')"
proof -
  let ?n = "aa_NodeName ag"
  define m where "m k = g3_local f (clock k)" for k
  define old where "old k = g3_env f ''g3-OLD'' (of_nat (2 + k)) (m (2 + k))" for k
  let ?e1 = "g3_env f ''g3-OLD'' 1 (m 0)" and ?e2 = "g3_env f ''g3-NEW'' 1 (m 1)"
  have ms: "ms = (0, ?e1) # (1, ?e2) # map (\<lambda>k. (0, old k)) [0..<5]"
    using assms(1,2) by (simp add: g3_script_def m_def old_def split: if_splits)
  have "localFrom R ?n (m k) \<noteq> None" for k
    using assms(4) by (auto simp: m_def localFrom_def g3_local_def split: prod.splits if_splits)
  then have "\<exists>r ow. localFrom R ?n (m k) = Some (r, ow)" for k by fast
  then obtain r ow where r: "localFrom R ?n (m k) = Some (r k, ow k)" for k by metis
  have i: "lh_AttachmentID (r k) = gf_attachment f" for k using localFrom_Some [OF r [of k]] by (auto simp: m_def g3_local_def)
  let ?og = "\<lambda>inst. \<lparr>or_NodeName = ?n, or_AgentInstance = inst, or_Sequence = 1\<rparr>"
  let ?put = "\<lambda>inst k h. (fst (AdoptInstance ?n inst h))\<lparr>hs_local := gm_put (lh_AttachmentID (r k)) (new_entry (?og inst) (sv_now sv) (r k)) (hs_local h)\<rparr>"
  let ?hs1 = "?put ''g3-OLD'' 0 hs"
  let ?hs2 = "?put ''g3-NEW'' 1 ?hs1"
  have sp: "speaks_for (Some ag) env ?n" for env by (simp add: speaks_for_def)
  have "in_order (gm_get (hs_local hs) (lh_AttachmentID (r 0))) (?og ''g3-OLD'')" by (rule fresh_in_order) (use assms(5) in auto)
  then obtain st1 o1 where m1: "sync_msg sv ?e1 (new_Stream (Some ag)) hs = (st1, ?hs1, o1, Fall)" and st1: "live ?n ''g3-OLD'' st1"
    using first_local [OF assms(3) _ _ _ r [of 0] sp [of ?e1], of "''g3-OLD''" "?og ''g3-OLD''" hs] by (auto simp: g3_env_def)
  have "in_order (gm_get (hs_local ?hs1) (lh_AttachmentID (r 1))) (?og ''g3-NEW'')" by (simp add: i in_order_def new_entry_def)
  then obtain st2 o2 where m2: "sync_msg sv ?e2 (new_Stream (Some ag)) ?hs1 = (st2, ?hs2, o2, Fall)"
    using first_local [OF assms(3) _ _ _ r [of 1] sp [of ?e2], of "''g3-NEW''" "?og ''g3-NEW''" ?hs1] by (auto simp: g3_env_def)
  have cur: "gm_get (hs_nodeInstance ?hs2) ?n = Some ''g3-NEW''" by (simp add: AdoptInstance_def)
  have "fst (snd (sync_msg sv (old 0) st1 ?hs2)) = ?hs2 \<and> snd (snd (snd (sync_msg sv (old 0) st1 ?hs2))) = Ret (Some ErrStaleInstance)"
    by (rule superseded_stream_closed)
       (use st1 cur r [of 2] assms(3) in \<open>simp_all add: live_def old_def g3_env_def quiet_def m_def\<close>)
  then obtain st3 o3 where m3: "sync_msg sv (old 0) st1 ?hs2 = (st3, ?hs2, o3, Ret (Some ErrStaleInstance))" by (metis prod.collapse)
  have closed: "script_run sv (map (\<lambda>k. (0, old k)) ks) sts h = (sts, h)" if "gm_get sts 0 = None" for ks sts h
    using that by (induction ks) auto
  let ?sts = "gm_put 1 st2 (gm_put 0 st1 [(0, new_Stream (Some ag)), (1, new_Stream (Some ag))])"
  have two: "script_run sv ((0, ?e1) # (1, ?e2) # xs) [(0, new_Stream (Some ag)), (1, new_Stream (Some ag))] hs = script_run sv xs ?sts ?hs2" for xs
    by (simp add: m1 m2 gm_get_Cons del: One_nat_def)
  have "script_run sv ((0, old 0) # map (\<lambda>k. (0, old k)) [1..<5]) ?sts ?hs2 = (gm_del 0 ?sts, ?hs2)"
    using m3 closed [of "gm_del 0 ?sts"] by simp
  moreover have "map (\<lambda>k. (0 :: nat, old k)) [0..<5] = (0, old 0) # map (\<lambda>k. (0, old k)) [1..<5]" by (simp add: upt_conv_Cons)
  ultimately have all: "script_run sv ms [(0, new_Stream (Some ag)), (1, new_Stream (Some ag))] hs = (gm_del 0 ?sts, ?hs2)"
    unfolding ms two by simp
  have "take 2 ms = [(0, ?e1), (1, ?e2)]" by (simp add: ms numeral_2_eq_2)
  then have "snd (script_run sv (take 2 ms) [(0, new_Stream (Some ag)), (1, new_Stream (Some ag))] hs) = ?hs2" using two [of "[]"] by simp
  moreover have "hs' = ?hs2" "sts' = gm_del 0 ?sts" using assms(6) [unfolded all] by simp_all
  moreover have "gm_get (hs_local ?hs2) (gf_attachment f) = Some (new_entry (?og ''g3-NEW'') (sv_now sv) (r 1))" by (simp add: i)
  ultimately show ?thesis using cur by (simp add: new_entry_def)
qed

lemma stale_instance_cut_off_witness:
  "\<exists>ms sts' hs'. g3_script (replay_flags ''stale-instance'') (\<lambda>_. 3) = Some ms \<and>
     script_run (example_sv (example_registry example_target)) ms
       [(0, new_Stream (Some example_identity)), (1, new_Stream (Some example_identity))] (NewHealthStore time_Second) = (sts', hs') \<and>
     gm_get sts' 0 = None \<and> gm_get (hs_nodeInstance hs') ''n1'' = Some ''g3-NEW''"
proof -
  obtain ms where ms: "g3_script (replay_flags ''stale-instance'') (\<lambda>_. 3) = Some ms" by (simp add: g3_script_def replay_flags_def)
  have c: "gf_case (replay_flags ''stale-instance'') = ''stale-instance''" "aa_NodeName example_identity = ''n1''"
    by (simp_all add: replay_flags_def example_identity_def)
  have e: "\<forall>e \<in> snd ` set (hs_local (NewHealthStore time_Second)). or_AgentInstance (e_Origin e) \<notin> {''g3-OLD'', ''g3-NEW''}"
    by (simp add: NewHealthStore_def)
  obtain sts' hs' where r: "script_run (example_sv (example_registry example_target)) ms
       [(0, new_Stream (Some example_identity)), (1, new_Stream (Some example_identity))] (NewHealthStore time_Second) = (sts', hs')"
    by fastforce
  from stale_instance_cut_off [OF c(1) ms victim_registry(2) replay_published e r] ms r show ?thesis unfolding c(2) by blast
qed

text \<open>
  The reports of the harness that name nothing published are refused. An attachment the controller
  never derived, a path key of Node scope nobody publishes, a deleted Pod's attachment replayed on the
  stream of a legitimate agent: none of them changes a verdict.
\<close>

theorem unpublished_reports_refused:
  assumes "reg_ok R" and "sv_Registry sv = R"
    and "hr_script f clock = Some envs" and "hf_case f = ''unknown-attachment'' \<or> hf_case f = ''node-scope-path''"
    and "\<And>k sc b. publishes R k sc b \<Longrightarrow> ID b \<noteq> ''deadbeefdeadbeef'' \<and> PathKey b sc \<noteq> ''0123456789abcdef''"
    and "g3_script g clock = Some ms" and "gf_case g = ''replay-attachment''" and "\<And>k sc b. publishes R k sc b \<Longrightarrow> ID b \<noteq> gf_attachment g"
    and "hs' = fst (snd (sync_run (map (Pair sv) envs) (new_Stream (Some ag)) hs))"
    and "hs'' = fst (snd (sync_run (map (Pair sv) (map snd ms)) (new_Stream (Some ag)) hs))"
  shows "LocalState hs' t i = LocalState hs t i \<and> PathState hs' t i = PathState hs t i \<and>
    LocalState hs'' t i = LocalState hs t i \<and> PathState hs'' t i = PathState hs t i"
proof -
  have new: "st_agent (new_Stream (Some ag)) = Some ag" "st_node (new_Stream (Some ag)) = aa_NodeName ag" by (simp_all add: new_Stream_def)
  have loc: "localFrom R (aa_NodeName ag) m = None" if "\<And>k sc b. publishes R k sc b \<Longrightarrow> ID b \<noteq> pbl_AttachmentId m" for m
    using reg.unknown [OF assms(1) that] by (auto simp: localFrom_def split: prod.splits)
  have path: "pathFrom R (aa_NodeName ag) m = None" if "\<And>k sc b. publishes R k sc b \<Longrightarrow> PathKey b sc \<noteq> pbp_ScopeId m" for m
    using reg.pathkey [OF assms(1), of "pbp_ScopeId m"] that by (auto simp: pathFrom_def split: prod.splits)
  have "\<forall>env \<in> set envs. refused (sv_Registry sv) (aa_NodeName ag) env"
    using assms(3,4) loc [of "hr_ghost (clock 0)"] path [of "hr_node_path f (clock 0)"] assms(5)
    by (auto simp: hr_script_def refused_def assms(2) hr_env_def hr_ghost_def hr_node_path_def split: if_splits)
  from refused_run [OF new this, of hs] have 1: "same_but_adopted (aa_NodeName ag) hs hs'" by (simp only: assms(9))
  have "\<forall>env \<in> set (map snd ms). refused (sv_Registry sv) (aa_NodeName ag) env"
    using assms(6,7) loc [of "g3_local g (clock 0)"] loc [of "g3_local g (clock 1)"] assms(8)
    by (auto simp: g3_script_def refused_def assms(2) g3_env_def g3_local_def split: if_splits)
  from refused_run [OF new this, of hs] have "same_but_adopted (aa_NodeName ag) hs hs''" by (simp only: assms(10))
  with 1 show ?thesis using same_states by blast
qed

end
