(* ===== verification/Recorder.thy ===== *)
theory Recorder
  imports Prelude
begin

text \<open>
  \<^verbatim>\<open>internal/obs/recorder.go\<close>: where measurement events go. An event of the model is a name with its
  fields; here is what \<^verbatim>\<open>Emit\<close> makes of the arguments it is called with. Opening the file and the
  JSON encoding of a record are parameters.
\<close>

section \<open>The recorder\<close>

datatype writer = Discard | Stdout | File string

record Recorder =
  rec_w :: writer
  rec_c :: "string option"

definition NewRecorder :: "(string \<Rightarrow> go_error option) \<Rightarrow> string \<Rightarrow> go_error + Recorder" where
  "NewRecorder open_append path =
     (if path = [] then Inr \<lparr>rec_w = Discard, rec_c = None\<rparr>
      else if path = ''-'' then Inr \<lparr>rec_w = Stdout, rec_c = None\<rparr>
      else (case open_append path of Some e \<Rightarrow> Inl e | None \<Rightarrow> Inr \<lparr>rec_w = File path, rec_c = Some path\<rparr>))"

text \<open>The file to close, if any; \<open>None\<close> for the recorder is the nil pointer.\<close>

definition rec_Close :: "Recorder option \<Rightarrow> string option" where
  "rec_Close r = (case r of None \<Rightarrow> None | Some x \<Rightarrow> rec_c x)"

text \<open>The arguments after the name: the odd ones should be strings.\<close>

datatype arg = AStr string | AVal ev_value

definition arg_value :: "arg \<Rightarrow> ev_value" where
  "arg_value a = (case a of AStr s \<Rightarrow> VStr s | AVal v \<Rightarrow> v)"

fun emit_fields :: "arg list \<Rightarrow> (string, ev_value) gomap \<Rightarrow> (string, ev_value) gomap" where
  "emit_fields (AStr k # v # kv) m = emit_fields kv (gm_put k (arg_value v) m)"
| "emit_fields (AVal _ # _ # kv) m = emit_fields kv m"
| "emit_fields [_] m = m"
| "emit_fields [] m = m"

text \<open>The line written, and where; nothing for a nil recorder or a record that cannot be encoded.\<close>

definition Emit :: "((string, ev_value) gomap \<Rightarrow> string option) \<Rightarrow> int \<Rightarrow> Recorder option \<Rightarrow> string \<Rightarrow> arg list
    \<Rightarrow> (writer \<times> string) option" where
  "Emit encode now r name kv = (case r of
      None \<Rightarrow> None
    | Some x \<Rightarrow> (case encode (emit_fields kv [(''ts'', VInt now), (''event'', VStr name)]) of
        None \<Rightarrow> None
      | Some b \<Rightarrow> Some (rec_w x, b @ [CHR 0x0A])))"

section \<open>Lemmas\<close>

definition event_args :: "(string \<times> ev_value) list \<Rightarrow> arg list" where
  "event_args kvs = concat (map (\<lambda>(k, v). [AStr k, AVal v]) kvs)"

text \<open>The record of a well-formed call holds its fields, the last of equal keys.\<close>

lemma emit_fields_event: "emit_fields (event_args kvs) m = gm_put_all fst snd kvs m"
  by (induction kvs arbitrary: m) (auto simp: event_args_def arg_value_def)

text \<open>An odd trailing argument changes nothing.\<close>

lemma emit_fields_odd: "even (length kv) \<Longrightarrow> emit_fields (kv @ [x]) m = emit_fields kv m"
  by (induction kv m rule: emit_fields.induct) auto

text \<open>The stamp and the name stay unless a field takes their key.\<close>

lemma emit_keeps_name:
  assumes "''event'' \<notin> fst ` set kvs"
  shows "gm_get (emit_fields (event_args kvs) [(''ts'', VInt now), (''event'', VStr name)]) ''event'' = Some (VStr name)"
  using gm_get_put_all_other [of "''event''" fst kvs snd] assms by (simp add: emit_fields_event gm_get_def)

end
