(* ===== verification/Spec2Isabelle.thy ===== *)
theory Spec2Isabelle
  imports Adversary Recorder
begin

text \<open>
  Verification library of multus-service. The program has two binaries. The controller publishes the
  secondary (Multus) addresses of the Pods of a Service as EndpointSlices and decides which of them
  are ready. An agent on every node looks at the interfaces of its Pods and at the paths to them and
  reports over an authenticated stream what it sees. Nothing is ready on an agent's word alone: a report
  counts only for an attachment the controller itself has discovered, from the node of the agent's
  own identity, and for the length of a lease.

  \<^bold>\<open>The parts and the theories that model them\<close>

    \<^item> Shared vocabulary. \<^verbatim>\<open>Prelude\<close>: Go maps as key-value lists whose order is the iteration order,
      instants and durations in nanoseconds, error values, measurement events, the proof collections
      \<open>gomap\<close> and \<open>goinv\<close>. \<^verbatim>\<open>Go_Strings\<close>, \<^verbatim>\<open>Go_Sha256\<close>, \<^verbatim>\<open>Go_Json\<close>: \<^verbatim>\<open>strings\<close>, \<^verbatim>\<open>net.ParseIP\<close>,
      \<^verbatim>\<open>crypto/sha256\<close> and \<^verbatim>\<open>encoding/json\<close> as far as the code uses them.
    \<^item> The model of an attachment. \<^verbatim>\<open>Model\<close> (internal/model): ids and keys as digests, observations, scopes.
      \<^verbatim>\<open>Network_Status\<close> (internal/multus): the network-status annotation. \<^verbatim>\<open>Attach\<close>
      (internal/attach): which Services and Pods take part, and the probe settings of a network.
    \<^item> Discovery and publication in the controller. \<^verbatim>\<open>Registry\<close> (registry.go): what is published now,
      indexed for the streams. \<^verbatim>\<open>Endpoint_Slice\<close> (the wished slices) and \<^verbatim>\<open>Slice_Apply\<close> (comparison
      and writes, both endpointslice.go). \<^verbatim>\<open>Service_Reconciler\<close> (service_controller.go,
      pod_controller.go): one reconcile, from the Service read to the writes.
    \<^item> Health in the controller. \<^verbatim>\<open>Health_Store\<close> (health_store.go): leases of reports and the current process
      of a node. \<^verbatim>\<open>Readiness\<close> (readiness.go): the rule. \<^verbatim>\<open>Expiry\<close> (expiry.go, \<^verbatim>\<open>Enqueue\<close>): the sweeper
      that turns time into wake-ups, and their bounded channel.
    \<^item> Who may report. \<^verbatim>\<open>Agent_Registry\<close> (agent_registry.go, session.go): the live agents and the
      streams bound to them. \<^verbatim>\<open>Auth\<close> (auth.go): the two authenticators. \<^verbatim>\<open>Health_Server\<close>
      (health_server.go): one stream, message by message.
    \<^item> The running controller. \<^verbatim>\<open>Control_Plane\<close>: all of the above on the shared state, interleaved.
      \<^verbatim>\<open>Controller_Main\<close> (cmd/controller, \<^verbatim>\<open>Serve\<close>): flags, wiring, transport.
    \<^item> The agent (internal/agent). \<^verbatim>\<open>Local_Net\<close> (local/, netns/): interfaces, their changes, and the
      namespaces of Pods. \<^verbatim>\<open>Probe_Machine\<close>, \<^verbatim>\<open>Probe_Manager\<close>, \<^verbatim>\<open>ICMP_Probe\<close> (probe/): debounced
      path states, the probe loop, one echo. \<^verbatim>\<open>Agent_Sweep\<close> and \<^verbatim>\<open>Agent_Report\<close> (agent.go): one sweep
      and the snapshot it makes. \<^verbatim>\<open>Grpc_Sink\<close> (grpc_sink.go, sink.go, credentials.go): what goes over the
      wire. \<^verbatim>\<open>Sink_Session\<close> (grpc_sink.go, \<^verbatim>\<open>session\<close> and \<^verbatim>\<open>Start\<close>): dialling, one stream, the reconnect loop.
      \<^verbatim>\<open>Agent_Main\<close> (cmd/agent, \<^verbatim>\<open>Agent.Start\<close>): flags, wiring and the loop of wake-ups.
    \<^item> Both programs together. \<^verbatim>\<open>Heartbeat\<close>: their periods against the lease. \<^verbatim>\<open>Report_Mirror\<close>: the
      agent's sweeps and the controller's store over a whole stream. \<^verbatim>\<open>Adversary\<close> (test/tools): the forged
      and stale reports of the test tools, against the server.
    \<^item> \<^verbatim>\<open>Recorder\<close> (internal/obs): where measurement events go.

  \<^bold>\<open>How code becomes definitions\<close>

  A struct is a record with a prefix for its fields (\<open>hs_\<close>, \<open>ar_\<close>, \<open>st_\<close>, \<open>ag_\<close>, ...), a method is a
  definition of the same name that takes the state last and returns it changed, with errors as \<open>Inl\<close>
  or \<open>Some\<close> and the events it emits, in order. What the sources only call is an argument: the
  API server (a record of its calls; where a theorem needs one, the contract \<open>writes_ok\<close> of the writes and
  \<open>list_current\<close> of the list, together \<open>api_ok\<close>: the list comes from the cache of the manager's client, so \<open>pass_converges\<close>
  holds for any list and only what is said of a list that shows the cluster as it is needs the second), the token and
  access reviews, label selectors, the container runtime, netlink, sockets, the outcome of every
  send, the clock. A \<^verbatim>\<open>range\<close> over a Go map visits it in an order that is an argument, so what is
  proved holds for every order. A mutex makes its critical section one step; where the code leaves
  the lock between two steps, the model does too: \<open>ComputeReady\<close> reads a \<open>store_view\<close>, the probe round and the agent's calls are a
  step relation labelled with what was done (\<open>probe_step\<close>, \<open>probe_run\<close>), the agent a relation on wake-ups (\<open>agent_reach\<close>), the controller
  \<open>cp_step\<close>. Fields and lists with the comment "history" there serve statements and are
  read by no operation.

  \<^bold>\<open>What the lemmas show\<close>

    \<^item> Invariants that every operation keeps: \<open>gm_wf\<close> of maps, \<open>reg_ok\<close> (the indexes of the registry are
      those of its Services), \<open>hs_ok\<close>, \<open>ar_ok\<close>, \<open>sm_ok\<close>, \<open>st_ok\<close> (buffers and node of a stream),
      \<open>mon_ok\<close>, the probe invariant, \<open>agent_ok\<close>, and \<open>sess_ok\<close> with \<open>ev_ok\<close> for the controller as a whole.
    \<^item> Contracts as locales, each interpreted on the model: \<open>publication\<close> (the registry), \<open>lease\<close> and
      \<open>timed_lease\<close> (both halves of the store), \<open>directory\<close> and \<open>sessions\<close>, \<open>producer\<close> (both authenticators),
      \<open>resolver\<close> with \<open>namespaces\<close> and a \<open>sublocale\<close> that makes the cache a resolver over any
      other.
    \<^item> Refinements: a run of snapshot messages is one \<open>ApplySnapshot\<close>, a pass of slice writes is the
      wished set on the managed fields, the deltas of the sweeps are the agent's memory, and over a
      whole stream (\<open>reporting\<close>, with the sweeper, the pruner and the streams of other nodes in between)
      the controller's store is the image of that memory.
    \<^item> End to end: what the agent looks at is what the controller discovers; a healthy sweep makes an
      attachment ready; ready means vouched for; a removed agent is cut off; a lapsed lease emits a wake-up for
      every publisher; leases are renewed in time; a stream that no publish overlaps begins with a snapshot, and streams are
      reopened until the agent is stopped.
    \<^item> Attacks: forged reports change nothing on an authenticated stream and decide everything without
      authentication; a superseded process is cut off.

  \<^bold>\<open>Bounds and termination\<close>

  Everything is total by structural recursion or a measure except \<open>read_loop\<close> of the ICMP prober, which is
  a \<open>partial_function (option)\<close> over the sequence of reads; that it returns is proved from the deadline
  the probe sets: \<open>honours_deadline\<close> says that a read in
  time ends after it and that the next one is a timeout. No fuel is used. Machine integers keep their width: the sequence and the epoch
  of the stream and the stream ids are 64 bit words, the flags of a link and the counter behind the 16 bit ICMP sequence 32
  bit words; \<open>time_sub\<close> saturates and \<open>dur_mul\<close> wraps as in Go, and
  so does \<open>unix_nano\<close>, so an observation time outside 64 bits of nanoseconds (the zero time) changes on the wire. Statements that need it say that the
  counter of stream ids has not wrapped (\<open>can_register\<close>) or that a lease is not negative and doubles
  without overflow (\<open>ttl_ok\<close>). Buffers have the capacities of the code: 1024 wake-ups, 256 netlink
  events, an acknowledgement every 32 messages, 1000 endpoints in a slice.

  \<^bold>\<open>What modelling found\<close>

  Proved as theorems here: a stream can outrun the revocation of its agent (\<^verbatim>\<open>Control_Plane\<close>), the default
  periods leave no slack (\<^verbatim>\<open>Heartbeat\<close>), a full channel loses an expiry (\<^verbatim>\<open>Expiry\<close>), a snapshot drops
  entries without telling their Services (\<^verbatim>\<open>Health_Server\<close>), a path change between two critical
  sections misses the deltas (\<^verbatim>\<open>Agent_Report\<close>), a publish that overlaps a reconnect leaves the new stream without
  its snapshot (\<^verbatim>\<open>Sink_Session\<close>). As lemmas in their theories: retirements are not checked against the
  sender, a foreign slice of a wished name is never repaired, any read error deregisters an agent, an
  acknowledgement can be lost during a snapshot, a verdict survives a change of its target, an ended
  netlink pump is not replaced, an unwatched cache entry is kept, a missing CA file sends the token in
  plaintext, the rollback case of g3replay cannot tell acceptance from refusal.

  \<^bold>\<open>Not modelled\<close>

  Generated protocol code (the messages are records of \<^verbatim>\<open>Health_Server\<close>); the pauses and the printing of the test tools;
  parsing of flags; the gRPC and controller-runtime machinery below the calls the sources make (listening,
  serving, watching, caching, the transport under a dial); the JSON text and the file of an event; log lines;
  wall-clock instants and durations that only go into events; the text of wrapped errors beyond what an
  event or a test of the code reads. A crash by a panic ends the model's history.
\<close>

section \<open>Properties that span components\<close>

text \<open>
  C1. Ready means vouched for, end to end: whenever the readiness rule calls an attachment ready in a
  reachable state of the controller, its Pod is ready and the store holds, not older than the
  lease, a good local and a good path report, each sent by the node of an authenticated agent and
  about an attachment that the controller had itself published under that id or key.
\<close>

theorem ready_means_vouched:
  assumes "cp_reach k ttl c" and "rd_Ready (ComputeReady a sc (frozen (cp_Store c) now))"
  shows "att_PodReady a \<and>
    (\<exists>l t. held (hs_local (cp_Store c)) (ID a) = Some (l, t) \<and> time_sub now t \<le> ttl \<and> lh_Ready l \<and> local_vouched c l) \<and>
    (\<exists>p u. held (hs_path (cp_Store c)) (PathKey a sc) = Some (p, u) \<and> time_sub now u \<le> ttl \<and> ph_PathReady p \<and> path_vouched c p)"
  using assms(2) reach_stored [OF assms(1)]
  by (auto simp: ready_frozen LocalState_held PathState_held verdict_def reach_ttl [OF assms(1)] split: option.splits if_splits)

lemma ready_means_vouched_witness:
  "\<exists>c l t. cp_reach example_k time_Second c \<and> held (hs_local (cp_Store c)) (ID example_a) = Some (l, t) \<and> local_vouched c l"
proof -
  let ?a = "example_a\<lparr>att_PodReady := True\<rparr>"
  have i: "ID ?a = ID example_a" by (simp add: ID_def id_preimage_def)
  obtain c where c: "cp_reach example_k time_Second c" and h: "LocalState (cp_Store c) 9 (ID example_a) = StateHealthy"
    "PathState (cp_Store c) 9 (ID example_a) = StateHealthy" by (rule control_ready)
  have "rd_Ready (ComputeReady ?a ScopeEndpoint (frozen (cp_Store c) 9))"
    using h by (simp add: ready_frozen i PathKey_def)
  from ready_means_vouched [OF c this] show ?thesis unfolding i using c by blast
qed

end
